(* ===== verification/Rust_Str.thy ===== *)
theory Rust_Str
  imports Base
begin

text \<open>
  The string operations of the Rust standard library that the program uses. A \<open>str\<close> is
  the list of its Unicode scalar values, so \<open>trim\<close> follows the Unicode property
  \<open>White_Space\<close> and a slice between two positions found in the text is a take or a drop.
  Also the integer parser \<open>str::parse::<u16>\<close> and the decimal \<open>Display\<close> of a number,
  with the proof that the first reads back the second.
\<close>

type_synonym str = "nat list"

definition lit :: "string \<Rightarrow> str" where
  "lit s = map of_char s"

section \<open>Trimming and splitting\<close>

definition is_whitespace :: "nat \<Rightarrow> bool" where
  "is_whitespace c \<longleftrightarrow>
     9 \<le> c \<and> c \<le> 13 \<or> c = 32 \<or> c = 133 \<or> c = 160 \<or> c = 5760 \<or>
     8192 \<le> c \<and> c \<le> 8202 \<or> c = 8232 \<or> c = 8233 \<or> c = 8239 \<or> c = 8287 \<or> c = 12288"

definition trim :: "str \<Rightarrow> str" where
  "trim s = rev (dropWhile is_whitespace (rev (dropWhile is_whitespace s)))"

fun split_on :: "nat \<Rightarrow> str \<Rightarrow> str list" where
  "split_on c [] = [[]]"
| "split_on c (x # xs) =
     (if x = c then [] # split_on c xs
      else (case split_on c xs of [] \<Rightarrow> [[x]] | p # ps \<Rightarrow> (x # p) # ps))"

definition split_once :: "nat \<Rightarrow> str \<Rightarrow> (str \<times> str) option" where
  "split_once c s =
     (case dropWhile (\<lambda>x. x \<noteq> c) s of
        [] \<Rightarrow> None
      | _ # r \<Rightarrow> Some (takeWhile (\<lambda>x. x \<noteq> c) s, r))"

definition rsplit_once :: "nat \<Rightarrow> str \<Rightarrow> (str \<times> str) option" where
  "rsplit_once c s = map_option (\<lambda>(a, b). (rev b, rev a)) (split_once c (rev s))"

definition strip_prefix :: "nat \<Rightarrow> str \<Rightarrow> str option" where
  "strip_prefix c s = (case s of [] \<Rightarrow> None | x # r \<Rightarrow> if x = c then Some r else None)"

definition find_char :: "nat \<Rightarrow> str \<Rightarrow> nat option" where
  "find_char c s =
     (let i = length (takeWhile (\<lambda>x. x \<noteq> c) s) in if i < length s then Some i else None)"

lemma trim_Nil [simp]: "trim [] = []"
  by (simp add: trim_def)

lemma set_trim: "set (trim s) \<subseteq> set s"
  by (auto simp: trim_def dest!: set_dropWhileD)

lemma dropWhile_none: "\<forall>x \<in> set s. \<not> P x \<Longrightarrow> dropWhile P s = s"
  by (cases s) auto

lemma trim_no_whitespace:
  assumes "\<forall>c \<in> set s. \<not> is_whitespace c"
  shows "trim s = s"
  using assms by (simp add: trim_def dropWhile_none)

lemma split_on_not_Nil [simp]: "split_on c s \<noteq> []"
  by (induction s) (auto split: list.splits)

lemma split_on_fresh: "c \<notin> set s \<Longrightarrow> split_on c s = [s]"
  by (induction s) auto

lemma split_on_append:
  "c \<notin> set s \<Longrightarrow> split_on c (s @ c # t) = s # split_on c t"
  by (induction s) auto

lemma split_on_segment: "p \<in> set (split_on c s) \<Longrightarrow> c \<notin> set p"
proof (induction s arbitrary: p)
  case Nil
  then show ?case by simp
next
  case (Cons x xs)
  then show ?case
    by (cases "split_on c xs") (auto split: if_splits)
qed

lemma dropWhile_fresh: "c \<notin> set s \<Longrightarrow> dropWhile (\<lambda>x. x \<noteq> c) (s @ c # t) = c # t"
  by (induction s) auto

lemma takeWhile_fresh: "c \<notin> set s \<Longrightarrow> takeWhile (\<lambda>x. x \<noteq> c) (s @ c # t) = s"
  by (induction s) auto

lemma split_once_append: "c \<notin> set s \<Longrightarrow> split_once c (s @ c # t) = Some (s, t)"
  by (simp add: split_once_def dropWhile_fresh takeWhile_fresh)

lemma split_once_None: "split_once c s = None \<longleftrightarrow> c \<notin> set s"
proof
  assume "split_once c s = None"
  then show "c \<notin> set s"
    by (auto simp: split_once_append dest!: split_list_first)
next
  assume "c \<notin> set s"
  then have d: "dropWhile (\<lambda>x. x \<noteq> c) s = []" by auto
  show "split_once c s = None" unfolding split_once_def d by simp
qed

lemma split_once_Some:
  "split_once c s = Some (a, b) \<longleftrightarrow> s = a @ c # b \<and> c \<notin> set a"
proof
  assume asm: "split_once c s = Some (a, b)"
  then obtain x where d: "dropWhile (\<lambda>x. x \<noteq> c) s = x # b"
    and a: "a = takeWhile (\<lambda>x. x \<noteq> c) s"
    by (auto simp: split_once_def split: list.splits)
  have "x = c" using hd_dropWhile [of "\<lambda>x. x \<noteq> c" s] d by auto
  moreover have "s = a @ x # b"
    using takeWhile_dropWhile_id [of "\<lambda>x. x \<noteq> c" s] d a by simp
  moreover have "c \<notin> set a" using a by (auto dest: set_takeWhileD)
  ultimately show "s = a @ c # b \<and> c \<notin> set a" by simp
qed (auto simp: split_once_append)

lemma rsplit_once_None: "rsplit_once c s = None \<longleftrightarrow> c \<notin> set s"
  by (simp add: rsplit_once_def split_once_None)

lemma rsplit_once_Some:
  "rsplit_once c s = Some (a, b) \<longleftrightarrow> s = a @ c # b \<and> c \<notin> set b"
proof
  assume "rsplit_once c s = Some (a, b)"
  then have "rev s = rev b @ c # rev a" and "c \<notin> set b"
    by (auto simp: rsplit_once_def split_once_Some)
  moreover from this have "s = rev (rev b @ c # rev a)" by (metis rev_rev_ident)
  ultimately show "s = a @ c # b \<and> c \<notin> set b" by simp
next
  assume "s = a @ c # b \<and> c \<notin> set b"
  then show "rsplit_once c s = Some (a, b)"
    by (simp add: rsplit_once_def split_once_append)
qed

lemma last_sep_unique:
  fixes c :: nat
  assumes "a @ c # b = a' @ c # b'" and "c \<notin> set b" and "c \<notin> set b'"
  shows "a = a' \<and> b = b'"
proof -
  have "rsplit_once c (a @ c # b) = Some (a, b)" "rsplit_once c (a' @ c # b') = Some (a', b')"
    using assms(2,3) by (simp_all add: rsplit_once_Some)
  then show ?thesis unfolding assms(1) by simp
qed

lemma first_sep_unique:
  fixes c :: nat
  assumes "a @ c # b = a' @ c # b'" and "c \<notin> set a" and "c \<notin> set a'"
  shows "a = a' \<and> b = b'"
proof -
  have "split_once c (a @ c # b) = Some (a, b)" "split_once c (a' @ c # b') = Some (a', b')"
    using assms(2,3) by (simp_all add: split_once_append)
  then show ?thesis unfolding assms(1) by simp
qed

lemma find_char_append: "c \<notin> set s \<Longrightarrow> find_char c (s @ c # t) = Some (length s)"
  by (simp add: find_char_def takeWhile_fresh)

lemma find_char_Some:
  assumes "find_char c s = Some i"
  shows "c \<notin> set (take i s) \<and> s = take i s @ c # drop (Suc i) s"
proof -
  let ?t = "takeWhile (\<lambda>x. x \<noteq> c) s"
  have i: "i = length ?t" and lt: "length ?t < length s"
    using assms by (auto simp: find_char_def Let_def split: if_splits)
  have take: "take i s = ?t" by (simp add: i takeWhile_eq_take [symmetric])
  have "s ! i = c" using nth_length_takeWhile [OF lt] by (simp add: i)
  then have "s = take i s @ c # drop (Suc i) s"
    using id_take_nth_drop [of i s] lt by (simp add: i)
  moreover have "c \<notin> set ?t" by (auto dest: set_takeWhileD)
  ultimately show ?thesis by (simp add: take)
qed

lemma find_char_None: "find_char c s = None \<longleftrightarrow> c \<notin> set s"
proof
  assume "find_char c s = None"
  then show "c \<notin> set s"
    by (auto simp: find_char_append dest!: split_list_first)
next
  assume "c \<notin> set s"
  then have t: "takeWhile (\<lambda>x. x \<noteq> c) s = s" by (auto simp: takeWhile_eq_all_conv)
  show "find_char c s = None" unfolding find_char_def t by simp
qed

lemma strip_prefix_Some [simp]: "strip_prefix c s = Some r \<longleftrightarrow> s = c # r"
  by (auto simp: strip_prefix_def split: list.splits)

lemma strip_prefix_Cons [simp]: "strip_prefix c (c # r) = Some r"
  by simp

section \<open>Parsing and printing numbers\<close>

datatype int_error = EmptyInput | InvalidDigit | PosOverflow

definition is_digit :: "nat \<Rightarrow> bool" where
  "is_digit c \<longleftrightarrow> 48 \<le> c \<and> c \<le> 57"

definition digit_word :: "nat \<Rightarrow> u16" where
  "digit_word c = of_nat (c - 48)"

fun parse_digits :: "u16 \<Rightarrow> str \<Rightarrow> int_error + u16" where
  "parse_digits acc [] = Inr acc"
| "parse_digits acc (c # cs) =
     (let m = checked_mul acc 10 in
      if \<not> is_digit c then Inl InvalidDigit
      else rbind (ok_or PosOverflow m) (\<lambda>m.
           rbind (ok_or PosOverflow (checked_add m (digit_word c))) (\<lambda>r.
           parse_digits r cs)))"

definition parse_u16 :: "str \<Rightarrow> int_error + u16" where
  "parse_u16 s =
     (case s of
        [] \<Rightarrow> Inl EmptyInput
      | c # cs \<Rightarrow>
          if (c = 43 \<or> c = 45) \<and> cs = [] then Inl InvalidDigit
          else if c = 43 then parse_digits 0 cs
          else parse_digits 0 s)"

fun show_nat :: "nat \<Rightarrow> str" where
  "show_nat n = (if n < 10 then [48 + n] else show_nat (n div 10) @ [48 + n mod 10])"

declare show_nat.simps [simp del]

definition dec_value :: "nat \<Rightarrow> str \<Rightarrow> nat" where
  "dec_value acc s = foldl (\<lambda>v c. v * 10 + (c - 48)) acc s"

lemma dec_value_simps [simp]:
  "dec_value acc [] = acc"
  "dec_value acc (c # cs) = dec_value (acc * 10 + (c - 48)) cs"
  "dec_value acc (s @ [c]) = dec_value acc s * 10 + (c - 48)"
  by (simp_all add: dec_value_def)

lemma dec_value_ge: "acc \<le> dec_value acc s"
proof (induction s arbitrary: acc)
  case (Cons c cs)
  from Cons.IH [of "acc * 10 + (c - 48)"] show ?case by simp
qed simp

lemma unat_of_nat_u16: "n < 65536 \<Longrightarrow> unat (of_nat n :: u16) = n"
  by (simp add: unat_of_nat)

lemma unat_digit: "is_digit c \<Longrightarrow> unat (digit_word c) = c - 48"
  unfolding digit_word_def by (rule unat_of_nat_u16) (auto simp: is_digit_def)

text \<open>The parser accepts exactly the digit strings whose value fits, and returns that value.\<close>

lemma parse_digits_Inr:
  "parse_digits acc s = Inr r \<longleftrightarrow>
     (\<forall>c \<in> set s. is_digit c) \<and> dec_value (unat acc) s = unat r"
proof (induction s arbitrary: acc)
  case Nil
  then show ?case by (auto simp: word_unat_eq_iff)
next
  case (Cons c cs)
  let ?v = "unat acc * 10 + (c - 48)"
  show ?case
  proof (cases "is_digit c")
    case False
    then show ?thesis by (simp add: Let_def)
  next
    case dig: True
    show ?thesis
    proof (cases "?v < 65536")
      case True
      define m :: u16 where "m = of_nat (unat acc * 10)"
      define w :: u16 where "w = of_nat ?v"
      have m: "unat m = unat acc * 10"
        unfolding m_def by (rule unat_of_nat_u16) (use True in simp)
      have w: "unat w = ?v"
        unfolding w_def using True by (rule unat_of_nat_u16)
      have "checked_mul acc 10 = Some m"
        by (simp add: checked_mul_Some m)
      moreover have "checked_add m (digit_word c) = Some w"
        by (simp add: checked_add_Some m w unat_digit [OF dig])
      ultimately show ?thesis
        using Cons.IH [of w] dig by (simp add: Let_def w)
    next
      case False
      have "dec_value ?v cs \<noteq> unat r"
        using dec_value_ge [of ?v cs] False unat_u16 [of r] by simp
      moreover have "parse_digits acc (c # cs) \<noteq> Inr r"
      proof
        assume "parse_digits acc (c # cs) = Inr r"
        then obtain m w where "checked_mul acc 10 = Some m" "checked_add m (digit_word c) = Some w"
          using dig by (auto simp: Let_def)
        then have "unat w = ?v" by (simp add: checked_mul_Some checked_add_Some unat_digit [OF dig])
        with False show False using unat_u16 [of w] by simp
      qed
      ultimately show ?thesis by simp
    qed
  qed
qed

lemma show_nat_digits: "c \<in> set (show_nat n) \<Longrightarrow> is_digit c"
proof (induction n arbitrary: c rule: show_nat.induct)
  case (1 n)
  then show ?case
    by (auto simp: show_nat.simps [of n] is_digit_def split: if_splits)
qed

lemma show_nat_not_Nil [simp]: "show_nat n \<noteq> []"
  by (simp add: show_nat.simps [of n])

lemma dec_value_show: "dec_value 0 (show_nat n) = n"
proof (induction n rule: show_nat.induct)
  case (1 n)
  then show ?case by (simp add: show_nat.simps [of n])
qed

lemma parse_u16_show:
  assumes "n < 65536"
  shows "parse_u16 (show_nat n) = Inr (of_nat n)"
proof -
  obtain c cs where s: "show_nat n = c # cs" by (cases "show_nat n") auto
  have dig: "\<forall>c \<in> set (show_nat n). is_digit c" using show_nat_digits by blast
  have "unat (of_nat n :: u16) = n" using assms by (rule unat_of_nat_u16)
  then have "parse_digits 0 (show_nat n) = Inr (of_nat n)"
    using dig by (simp add: parse_digits_Inr dec_value_show)
  moreover have "c \<noteq> 43" "c \<noteq> 45" using dig s by (auto simp: is_digit_def)
  ultimately show ?thesis using s by (simp add: parse_u16_def)
qed

text \<open>What the parser accepts: an optional plus sign and a non-empty digit string below
  65536; leading zeros are accepted.\<close>

lemma parse_u16_Inr:
  "parse_u16 s = Inr r \<longleftrightarrow>
     (\<exists>d. (s = d \<or> s = 43 # d) \<and> d \<noteq> [] \<and> (\<forall>c \<in> set d. is_digit c) \<and> dec_value 0 d = unat r)"
proof (cases s)
  case Nil
  then show ?thesis by (auto simp: parse_u16_def)
next
  case (Cons c cs)
  have dig: "is_digit c \<Longrightarrow> c \<noteq> 43 \<and> c \<noteq> 45" by (auto simp: is_digit_def)
  show ?thesis
  proof (cases "(c = 43 \<or> c = 45) \<and> cs = []")
    case True
    then show ?thesis using Cons by (auto simp: parse_u16_def dest: dig)
  next
    case False
    then have "parse_u16 s = parse_digits 0 (if c = 43 then cs else s)"
      using Cons by (auto simp: parse_u16_def)
    then show ?thesis
      using False Cons by (auto simp: parse_digits_Inr simp del: parse_digits.simps dest: dig)
  qed
qed

end
