(* ===== verification/Ordered.thy ===== *)
theory Ordered
  imports Base
begin

text \<open>
  The ordered containers of \<open>std::collections\<close> that the program uses, \<open>BTreeSet\<close> and
  \<open>BTreeMap\<close>: what the program relies on (iteration in ascending key order, insertion,
  lookup) as the locales \<open>ordered_set\<close> and \<open>ordered_map\<close>, the lemmas of their clients
  proved once inside the locales, and the model as strictly ascending lists, which
  interprets both.
\<close>

section \<open>The interface of an ordered set\<close>

locale ordered_set =
  fixes emp :: "'s"
    and ins :: "'a::linorder \<Rightarrow> 's \<Rightarrow> 's"
    and elems :: "'s \<Rightarrow> 'a list"
    and inv :: "'s \<Rightarrow> bool"
  assumes inv_emp: "inv emp"
    and elems_emp: "elems emp = []"
    and inv_ins: "inv s \<Longrightarrow> inv (ins x s)"
    and set_ins: "inv s \<Longrightarrow> set (elems (ins x s)) = insert x (set (elems s))"
    and ascending: "inv s \<Longrightarrow> sorted_wrt (<) (elems s)"
begin

lemma inv_fold: "inv s \<Longrightarrow> inv (foldl (\<lambda>s x. ins x s) s xs)"
  by (induction xs arbitrary: s) (auto simp: inv_ins)

lemma set_fold:
  "inv s \<Longrightarrow> set (elems (foldl (\<lambda>s x. ins x s) s xs)) = set (elems s) \<union> set xs"
  by (induction xs arbitrary: s) (auto simp: inv_ins set_ins)

text \<open>Iterating yields the elements once each, in ascending order: the list is determined
  by its set.\<close>

lemma elems_canonical: "inv s \<Longrightarrow> elems s = sorted_list_of_set (set (elems s))"
  using ascending [of s]
  by (simp add: strict_sorted_iff sorted_list_of_set.idem_if_sorted_distinct)

end

section \<open>The interface of an ordered map\<close>

locale ordered_map =
  fixes emp :: "'m"
    and put :: "'k::linorder \<Rightarrow> 'v \<Rightarrow> 'm \<Rightarrow> 'm"
    and get :: "'m \<Rightarrow> 'k \<Rightarrow> 'v option"
    and entries :: "'m \<Rightarrow> ('k \<times> 'v) list"
    and inv :: "'m \<Rightarrow> bool"
  assumes inv_emp: "inv emp"
    and entries_emp: "entries emp = []"
    and inv_put: "inv m \<Longrightarrow> inv (put k v m)"
    and get_put: "inv m \<Longrightarrow> get (put k v m) = (get m)(k \<mapsto> v)"
    and keys_ascending: "inv m \<Longrightarrow> sorted_wrt (<) (map fst (entries m))"
    and get_entries: "inv m \<Longrightarrow> get m = map_of (entries m)"
begin

lemma get_emp: "get emp = Map.empty"
  by (simp add: get_entries inv_emp entries_emp)

lemma inv_collect: "inv m \<Longrightarrow> inv (foldl (\<lambda>m (k, v). put k v m) m kvs)"
  by (induction kvs arbitrary: m) (auto simp: inv_put)

lemma get_collect:
  "inv m \<Longrightarrow> get (foldl (\<lambda>m (k, v). put k v m) m kvs) = get m ++ map_of (rev kvs)"
  by (induction kvs arbitrary: m) (auto simp: inv_put get_put)

lemma keys_dom: "inv m \<Longrightarrow> set (map fst (entries m)) = dom (get m)"
  by (simp add: get_entries dom_map_of_conv_image_fst)

lemma keys_canonical: "inv m \<Longrightarrow> map fst (entries m) = sorted_list_of_set (dom (get m))"
  using keys_ascending [of m] keys_dom [of m]
  by (metis strict_sorted_iff sorted_list_of_set.idem_if_sorted_distinct)

end

section \<open>BTreeSet as a strictly ascending list\<close>

fun bts_insert :: "'a::linorder \<Rightarrow> 'a list \<Rightarrow> 'a list" where
  "bts_insert k [] = [k]"
| "bts_insert k (e # es) =
     (if e < k then e # bts_insert k es else if e = k then e # es else k # e # es)"

definition bts_extend :: "'a::linorder list \<Rightarrow> 'a list \<Rightarrow> 'a list" where
  "bts_extend ks s = foldl (\<lambda>s k. bts_insert k s) s ks"

lemma set_bts_insert: "set (bts_insert k s) = insert k (set s)"
  by (induction s) auto

lemma sorted_bts_insert: "sorted_wrt (<) s \<Longrightarrow> sorted_wrt (<) (bts_insert k s)"
  by (induction s) (auto simp: set_bts_insert)

interpretation bts: ordered_set "[]" bts_insert "\<lambda>s. s" "sorted_wrt (<)"
  by unfold_locales (auto simp: set_bts_insert sorted_bts_insert)

lemma bts_extend_sorted: "sorted_wrt (<) s \<Longrightarrow> sorted_wrt (<) (bts_extend ks s)"
  unfolding bts_extend_def by (rule bts.inv_fold)

lemma set_bts_extend: "sorted_wrt (<) s \<Longrightarrow> set (bts_extend ks s) = set s \<union> set ks"
  unfolding bts_extend_def by (rule bts.set_fold)

section \<open>BTreeMap as an association list with strictly ascending keys\<close>

fun btm_insert :: "'k::linorder \<Rightarrow> 'v \<Rightarrow> ('k \<times> 'v) list \<Rightarrow> ('k \<times> 'v) list" where
  "btm_insert k v [] = [(k, v)]"
| "btm_insert k v (e # es) =
     (if fst e < k then e # btm_insert k v es
      else if fst e = k then (k, v) # es else (k, v) # e # es)"

definition btm_collect :: "('k::linorder \<times> 'v) list \<Rightarrow> ('k \<times> 'v) list" where
  "btm_collect kvs = foldl (\<lambda>m (k, v). btm_insert k v m) [] kvs"

definition btm_get :: "('k \<times> 'v) list \<Rightarrow> 'k \<Rightarrow> 'v option" where
  "btm_get m k = map_of m k"

definition btm_values :: "('k \<times> 'v) list \<Rightarrow> 'v list" where
  "btm_values m = map snd m"

text \<open>Mutating a value through its \<open>Arc\<close>: the entry stays, its value changes.\<close>

definition btm_modify :: "'k \<Rightarrow> ('v \<Rightarrow> 'v) \<Rightarrow> ('k \<times> 'v) list \<Rightarrow> ('k \<times> 'v) list" where
  "btm_modify k f m = map (\<lambda>(k', v). (k', if k' = k then f v else v)) m"

abbreviation ascending_keys :: "('k::linorder \<times> 'v) list \<Rightarrow> bool" where
  "ascending_keys m \<equiv> sorted_wrt (<) (map fst m)"

lemma keys_btm_insert: "set (map fst (btm_insert k v m)) = insert k (set (map fst m))"
  by (induction m) auto

lemma ascending_btm_insert: "ascending_keys m \<Longrightarrow> ascending_keys (btm_insert k v m)"
  using keys_btm_insert [of k v]
  by (induction m) (auto simp: image_iff)

lemma map_of_btm_insert: "map_of (btm_insert k v m) = (map_of m)(k \<mapsto> v)"
  by (induction m) (auto simp: fun_eq_iff)

interpretation btm: ordered_map "[]" btm_insert btm_get "\<lambda>m. m" ascending_keys
  by unfold_locales
    (simp_all add: btm_get_def [abs_def] ascending_btm_insert map_of_btm_insert)

lemma btm_collect_ascending: "ascending_keys (btm_collect kvs)"
  unfolding btm_collect_def by (rule btm.inv_collect) simp

lemma btm_get_collect: "btm_get (btm_collect kvs) = map_of (rev kvs)"
  unfolding btm_collect_def using btm.get_collect [of "[]" kvs] by (simp add: btm.get_emp)

lemma btm_collect_keys: "map fst (btm_collect kvs) = sorted_list_of_set (set (map fst kvs))"
  using btm.keys_canonical [OF btm_collect_ascending, of kvs]
  by (simp add: btm_get_collect dom_map_of_conv_image_fst)

lemma keys_btm_modify [simp]: "map fst (btm_modify k f m) = map fst m"
  by (induction m) (auto simp: btm_modify_def)

lemma btm_get_modify:
  "btm_get (btm_modify k f m) k' = (if k' = k then map_option f (btm_get m k) else btm_get m k')"
  by (induction m) (auto simp: btm_modify_def btm_get_def)

end
