(* ===== verification/Portset.thy ===== *)
theory Portset
  imports Rust_Str Ordered
begin

text \<open>
  \<open>src/src/portset.rs\<close>: the parser of listen port expressions such as
  \<open>80,443,10000-10100\<close>. The definitions follow the code (\<open>parse_segments\<close> is the \<open>for\<close>
  loop over the comma-separated segments with the \<open>BTreeSet\<close> of ports as its state); the
  specification is the grammar \<open>segment_denotes\<close>, which says what set of ports a segment
  stands for without saying how it is read.
\<close>

section \<open>The code\<close>

record portset_error =
  message :: str

definition portset_error_new :: "str \<Rightarrow> portset_error" where
  "portset_error_new msg = \<lparr>message = msg\<rparr>"

definition portset_error_fmt :: "portset_error \<Rightarrow> str" where
  "portset_error_fmt e = message e"

definition parse_port :: "str \<Rightarrow> portset_error + u16" where
  "parse_port segment =
     rbind (map_err (\<lambda>_. portset_error_new (lit ''invalid port value: '' @ segment))
             (parse_u16 (trim segment)))
       (\<lambda>port.
          if port = 0 then Inl (portset_error_new (lit ''port 0 is not a valid listen port''))
          else Inr port)"

definition range_inclusive :: "u16 \<Rightarrow> u16 \<Rightarrow> u16 list" where
  "range_inclusive a b = map of_nat [unat a ..< Suc (unat b)]"

fun parse_segments :: "str list \<Rightarrow> u16 list \<Rightarrow> portset_error + u16 list" where
  "parse_segments [] ports = Inr ports"
| "parse_segments (seg # segs) ports =
     (let segment = trim seg in
      if segment = [] then
        Inl (portset_error_new (lit ''listen port expression contains an empty segment''))
      else
        (case split_once (of_char CHR ''-'') segment of
           Some (a, b) \<Rightarrow>
             rbind (parse_port a) (\<lambda>start.
             rbind (parse_port b) (\<lambda>end.
               if start > end then
                 Inl (portset_error_new
                   (lit ''invalid port range '' @ segment @ lit '': start must be <= end''))
               else parse_segments segs (bts_extend (range_inclusive start end) ports)))
         | None \<Rightarrow>
             rbind (parse_port segment) (\<lambda>port.
               parse_segments segs (bts_insert port ports))))"

definition parse_portset :: "str \<Rightarrow> portset_error + u16 list" where
  "parse_portset input =
     (if trim input = [] then
        Inl (portset_error_new (lit ''listen port expression cannot be empty''))
      else parse_segments (split_on (of_char CHR '','') input) [])"

section \<open>The grammar\<close>

inductive port_literal :: "str \<Rightarrow> u16 \<Rightarrow> bool" where
  port_literal:
  "trim s = d \<or> trim s = of_char CHR ''+'' # d \<Longrightarrow> d \<noteq> [] \<Longrightarrow> \<forall>c \<in> set d. is_digit c \<Longrightarrow>
   dec_value 0 d = unat p \<Longrightarrow> p \<noteq> 0 \<Longrightarrow> port_literal s p"

inductive segment_denotes :: "str \<Rightarrow> u16 set \<Rightarrow> bool" where
  single: "port_literal seg p \<Longrightarrow> segment_denotes seg {p}"
| range: "trim seg = a @ of_char CHR ''-'' # b \<Longrightarrow> port_literal a x \<Longrightarrow> port_literal b y \<Longrightarrow> x \<le> y \<Longrightarrow>
    segment_denotes seg {x..y}"

lemmas portset_eval =
  parse_portset_def parse_port_def parse_u16_def trim_def lit_def is_whitespace_def is_digit_def
  checked_mul_def checked_add_def digit_word_def split_once_def range_inclusive_def bts_extend_def
  portset_error_new_def

section \<open>Reading one port\<close>

lemma char_codes [simp]:
  "(of_char CHR ''-'' :: nat) = 45" "(of_char CHR '','' :: nat) = 44"
  "(of_char CHR ''+'' :: nat) = 43" "(of_char CHR '':'' :: nat) = 58"
  by simp_all

lemma parse_port_Inr: "parse_port s = Inr p \<longleftrightarrow> port_literal s p"
  by (auto simp: parse_port_def parse_u16_Inr port_literal.simps)

lemma port_literal_unique: "port_literal s p \<Longrightarrow> port_literal s q \<Longrightarrow> p = q"
  unfolding parse_port_Inr [symmetric] by simp

lemma digit_not_special: "is_digit c \<Longrightarrow> c \<noteq> 43 \<and> c \<noteq> 44 \<and> c \<noteq> 45 \<and> \<not> is_whitespace c"
  by (auto simp: is_digit_def is_whitespace_def)

lemma trim_keeps:
  assumes "c \<in> set s" and "\<not> is_whitespace c"
  shows "c \<in> set (trim s)"
proof -
  have drop: "c \<in> set (dropWhile is_whitespace t)" if "c \<in> set t" for t
    using that assms(2) by (induction t) auto
  from drop [OF assms(1)] show ?thesis by (simp add: trim_def drop)
qed

lemma port_literal_no_dash:
  assumes "port_literal s p"
  shows "45 \<notin> set s"
proof
  assume "45 \<in> set s"
  then have "45 \<in> set (trim s)" by (rule trim_keeps) (simp add: is_whitespace_def)
  with assms show False
    by (auto elim!: port_literal.cases dest: digit_not_special)
qed

lemma port_literal_not_blank: "port_literal s p \<Longrightarrow> trim s \<noteq> []"
  by (auto elim!: port_literal.cases)

lemma trim_trim [simp]: "trim (trim s) = trim s"
proof -
  define t where "t = dropWhile is_whitespace s"
  define u where "u = dropWhile is_whitespace (rev t)"
  have t: "t = rev u @ rev (takeWhile is_whitespace (rev t))"
    unfolding u_def by (metis rev_append rev_rev_ident takeWhile_dropWhile_id)
  have "dropWhile is_whitespace (rev u) = rev u"
  proof (cases "rev u")
    case (Cons x xs)
    with t have "t \<noteq> [] \<and> hd t = x" by (cases t) auto
    then have "\<not> is_whitespace x" unfolding t_def using hd_dropWhile by blast
    with Cons show ?thesis by simp
  qed simp
  moreover have "dropWhile is_whitespace u = u" by (simp add: u_def)
  ultimately show ?thesis by (simp add: trim_def flip: t_def u_def)
qed

lemma port_literal_trim: "port_literal (trim s) p \<longleftrightarrow> port_literal s p"
  by (simp add: port_literal.simps)

section \<open>One segment\<close>

lemma set_range_inclusive: "set (range_inclusive a b) = {a..b}"
proof -
  have "x \<in> of_nat ` {unat a..unat b}" if "a \<le> x" "x \<le> b" for x :: u16
    using that by (intro image_eqI [of _ _ "unat x"]) (auto simp: word_le_nat_alt)
  moreover have "a \<le> of_nat n \<and> of_nat n \<le> b" if "unat a \<le> n" "n \<le> unat b" for n
  proof -
    have "n < 65536" using that unat_u16 [of b] by simp
    then have "unat (of_nat n :: u16) = n" by (rule unat_of_nat_u16)
    with that show ?thesis by (simp add: word_le_nat_alt)
  qed
  ultimately show ?thesis
    by (auto simp: range_inclusive_def atLeastLessThanSuc_atLeastAtMost simp del: upt_Suc)
qed

lemma segment_denotes_iff:
  "segment_denotes seg S \<longleftrightarrow>
     (case split_once 45 (trim seg) of
        None \<Rightarrow> \<exists>p. parse_port (trim seg) = Inr p \<and> S = {p}
      | Some (a, b) \<Rightarrow> \<exists>x y. parse_port a = Inr x \<and> parse_port b = Inr y \<and> x \<le> y \<and> S = {x..y})"
proof (cases "split_once 45 (trim seg)")
  case None
  then have "45 \<notin> set (trim seg)" by (simp add: split_once_None)
  with None show ?thesis
    by (auto simp: segment_denotes.simps parse_port_Inr port_literal_trim)
next
  case (Some ab)
  obtain a b where ab: "ab = (a, b)" by (cases ab)
  with Some have split: "trim seg = a @ 45 # b" "45 \<notin> set a" by (auto simp: split_once_Some)
  have "\<not> port_literal seg p" for p
    using port_literal_no_dash [of seg p] set_trim [of seg] split(1) by auto
  moreover have "a' = a \<and> b' = b" if "trim seg = a' @ 45 # b'" "port_literal a' x" for a' b' x
    using that split port_literal_no_dash [of a' x] split_once_append [of 45 a' b'] Some ab
    by simp
  ultimately show ?thesis
    using Some ab split by (auto simp: segment_denotes.simps parse_port_Inr)
qed

lemma segment_denotes_unique: "segment_denotes seg S \<Longrightarrow> segment_denotes seg T \<Longrightarrow> S = T"
  by (auto simp: segment_denotes_iff split: option.splits prod.splits)

lemma segment_denotes_not_blank: "segment_denotes seg S \<Longrightarrow> trim seg \<noteq> []"
  by (auto elim!: segment_denotes.cases dest: port_literal_not_blank)

section \<open>The loop over the segments\<close>

lemma sorted_list_unique: "sorted_wrt (<) xs \<Longrightarrow> sorted_wrt (<) ys \<Longrightarrow> set xs = set ys \<Longrightarrow> xs = ys"
  for xs ys :: "'a::linorder list"
  by (simp add: strict_sorted_equal)

lemma set_split_on_subset: "set (split_on c s) \<subseteq> {p. set p \<subseteq> set s}"
proof (induction s)
  case (Cons x xs)
  then show ?case by (cases "split_on c xs") auto
qed simp

lemma parse_segments_step:
  assumes "segment_denotes seg S" and "sorted_wrt (<) ports"
  obtains ports' where "parse_segments (seg # segs) ports = parse_segments segs ports'"
    and "sorted_wrt (<) ports'" and "set ports' = set ports \<union> S"
proof (cases "split_once 45 (trim seg)")
  case None
  with assms(1) obtain p where "parse_port (trim seg) = Inr p" "S = {p}"
    by (auto simp: segment_denotes_iff)
  then show ?thesis
    using that [of "bts_insert p ports"] None assms segment_denotes_not_blank [OF assms(1)]
    by (simp add: Let_def bts.inv_ins bts.set_ins)
next
  case (Some ab)
  obtain a b where ab: "ab = (a, b)" by (cases ab)
  with assms(1) Some obtain x y where "parse_port a = Inr x" "parse_port b = Inr y" "x \<le> y" "S = {x..y}"
    by (auto simp: segment_denotes_iff)
  moreover from \<open>x \<le> y\<close> have "\<not> y < x" by simp
  ultimately show ?thesis
    using that [of "bts_extend (range_inclusive x y) ports"] Some ab assms
      segment_denotes_not_blank [OF assms(1)]
    by (simp add: Let_def bts_extend_sorted set_bts_extend set_range_inclusive)
qed

lemma parse_segments_stops:
  assumes "\<nexists>S. segment_denotes seg S"
  shows "\<exists>e. parse_segments (seg # segs) ports = Inl e"
proof (cases "split_once 45 (trim seg)")
  case None
  with assms have "parse_port (trim seg) \<noteq> Inr p" for p
    by (auto simp: segment_denotes_iff)
  then show ?thesis using None
    by (cases "parse_port (trim seg)") (auto simp: Let_def)
next
  case (Some ab)
  obtain a b where ab: "ab = (a, b)" by (cases ab)
  with assms Some have "\<not> (parse_port a = Inr x \<and> parse_port b = Inr y \<and> x \<le> y)" for x y
    by (auto simp: segment_denotes_iff)
  then show ?thesis using Some ab
    by (cases "parse_port a"; cases "parse_port b") (auto simp: Let_def not_le)
qed

lemma parse_segments_prefix:
  assumes "list_all2 segment_denotes pre Ss" and "sorted_wrt (<) ports"
  shows "\<exists>ports'. parse_segments (pre @ segs) ports = parse_segments segs ports' \<and>
    sorted_wrt (<) ports' \<and> set ports' = set ports \<union> \<Union> (set Ss)"
  using assms
proof (induction pre Ss arbitrary: ports rule: list_all2_induct)
  case Nil
  then show ?case by auto
next
  case (Cons seg pre S Ss)
  obtain ports' where step: "parse_segments (seg # pre @ segs) ports = parse_segments (pre @ segs) ports'"
    and ports': "sorted_wrt (<) ports'" "set ports' = set ports \<union> S"
    using parse_segments_step [OF Cons.hyps(1) Cons.prems] by metis
  from Cons.IH [OF ports'(1)] step ports'(2) show ?case by (auto simp: Un_assoc)
qed

lemma parse_segments_Inr:
  assumes "sorted_wrt (<) ports"
  shows "parse_segments segs ports = Inr ps \<longleftrightarrow>
    (\<exists>Ss. list_all2 segment_denotes segs Ss \<and> sorted_wrt (<) ps \<and> set ps = set ports \<union> \<Union> (set Ss))"
  using assms
proof (induction segs arbitrary: ports)
  case Nil
  then show ?case by (auto dest: sorted_list_unique)
next
  case (Cons seg segs)
  show ?case
  proof (cases "\<exists>S. segment_denotes seg S")
    case True
    then obtain S where S: "segment_denotes seg S" ..
    obtain ports' where step: "parse_segments (seg # segs) ports = parse_segments segs ports'"
      and ports': "sorted_wrt (<) ports'" "set ports' = set ports \<union> S"
      using parse_segments_step [OF S Cons.prems] by metis
    have den: "segment_denotes seg T \<longleftrightarrow> T = S" for T
      using S segment_denotes_unique by blast
    have "(\<exists>Us. list_all2 segment_denotes (seg # segs) Us \<and> P (\<Union> (set Us))) \<longleftrightarrow>
        (\<exists>Ss. list_all2 segment_denotes segs Ss \<and> P (S \<union> \<Union> (set Ss)))" for P
      unfolding list_all2_Cons1 den by (metis Union_insert list.simps(15))
    from this [of "\<lambda>U. sorted_wrt (<) ps \<and> set ps = set ports \<union> U"] show ?thesis
      unfolding step Cons.IH [OF ports'(1)] ports'(2) by (simp add: Un_assoc)
  next
    case False
    with parse_segments_stops [of seg segs ports] show ?thesis
      by (auto simp: list_all2_Cons1)
  qed
qed

lemma blank_input: "trim input = [] \<Longrightarrow> \<not> list_all2 segment_denotes (split_on 44 input) Ss"
proof
  assume blank: "trim input = []" and all: "list_all2 segment_denotes (split_on 44 input) Ss"
  have "44 \<notin> set input"
    using trim_keeps [of 44 input] blank by (auto simp: is_whitespace_def)
  with all blank show False
    by (auto simp: split_on_fresh list_all2_Cons1 dest: segment_denotes_not_blank)
qed

section \<open>Properties\<close>

text \<open>C26: An expression is accepted exactly when every comma-separated segment denotes a port
  or a range in the grammar, and the result is the union of what the segments denote, as the
  ascending list without duplicates.\<close>

theorem parse_portset_spec:
  "parse_portset input = Inr ps \<longleftrightarrow>
     (\<exists>Ss. list_all2 segment_denotes (split_on (of_char CHR '','') input) Ss \<and>
       ps = sorted_list_of_set (\<Union> (set Ss)))"
proof (cases "trim input = []")
  case True
  then show ?thesis by (auto simp: parse_portset_def blank_input)
next
  case False
  have "sorted_wrt (<) ps \<and> set ps = U \<longleftrightarrow> ps = sorted_list_of_set U" for U :: "u16 set"
    using sorted_list_unique [of ps "sorted_list_of_set U"] by auto
  with False show ?thesis
    by (simp add: parse_portset_def parse_segments_Inr)
qed

lemma segment_denotes_ports: "segment_denotes seg S \<Longrightarrow> S \<noteq> {} \<and> 0 \<notin> S"
  by (auto elim!: segment_denotes.cases port_literal.cases)

text \<open>The accepted list is never empty, never holds port 0, and is strictly ascending, so a
  port named twice is bound once.\<close>

lemma parse_portset_ports:
  assumes "parse_portset input = Inr ps"
  shows "ps \<noteq> [] \<and> 0 \<notin> set ps \<and> sorted_wrt (<) ps"
proof -
  have "\<exists>Ss. list_all2 segment_denotes (split_on 44 input) Ss \<and> sorted_wrt (<) ps \<and> set ps = \<Union> (set Ss)"
    using assms by (auto simp: parse_portset_def parse_segments_Inr split: if_splits)
  then obtain Ss where Ss: "list_all2 segment_denotes (split_on 44 input) Ss"
    "sorted_wrt (<) ps" "set ps = \<Union> (set Ss)" by blast
  have "\<forall>S \<in> set Ss. S \<noteq> {} \<and> 0 \<notin> S"
    using Ss(1) by (induction rule: list_all2_induct) (auto dest: segment_denotes_ports)
  moreover have "Ss \<noteq> []" using Ss(1) by auto
  ultimately show ?thesis
    using Ss(2,3) by (cases Ss) force+
qed

text \<open>When the segments before it are well formed, a range whose start is above its end stops
  the parse with the message that names that (trimmed) segment, whatever follows.\<close>

lemma parse_portset_inverted_range:
  assumes "split_on (of_char CHR '','') input = pre @ seg # post"
    and "list_all2 segment_denotes pre Ss"
    and "trim seg = a @ of_char CHR ''-'' # b" and "port_literal a x" and "port_literal b y" and "y < x"
  shows "parse_portset input =
    Inl \<lparr>message = lit ''invalid port range '' @ trim seg @ lit '': start must be <= end''\<rparr>"
proof -
  obtain ports' where pre: "parse_segments (pre @ seg # post) [] = parse_segments (seg # post) ports'"
    using parse_segments_prefix [OF assms(2), of "[]" "seg # post"] by auto
  have "45 \<in> set (trim seg)" using assms(3) by simp
  then have "45 \<in> set seg" using set_trim [of seg] by blast
  moreover have "set (split_on 44 input) \<subseteq> {p. set p \<subseteq> set input}"
    by (rule set_split_on_subset)
  ultimately have "45 \<in> set input" using assms(1) by auto
  then have "trim input \<noteq> []" using trim_keeps [of 45 input] by (auto simp: is_whitespace_def)
  moreover have "split_once 45 (trim seg) = Some (a, b)"
    using assms(3) port_literal_no_dash [OF assms(4)] by (simp add: split_once_append)
  ultimately show ?thesis
    using assms pre
    by (simp add: parse_portset_def Let_def parse_port_Inr [symmetric] portset_error_new_def)
qed

section \<open>Printing a port expression and reading it back\<close>

definition render_range :: "u16 \<times> u16 \<Rightarrow> str" where
  "render_range r = show_nat (unat (fst r)) @ of_char CHR ''-'' # show_nat (unat (snd r))"

fun render_portset :: "(u16 \<times> u16) list \<Rightarrow> str" where
  "render_portset [] = []"
| "render_portset [r] = render_range r"
| "render_portset (r # rs) = render_range r @ of_char CHR '','' # render_portset rs"

lemma show_nat_plain: "c \<in> set (show_nat n) \<Longrightarrow> c \<noteq> 43 \<and> c \<noteq> 44 \<and> c \<noteq> 45 \<and> \<not> is_whitespace c"
  using show_nat_digits digit_not_special by blast

lemma port_literal_show: "p \<noteq> 0 \<Longrightarrow> port_literal (show_nat (unat p)) p"
  using show_nat_digits [of _ "unat p"]
  by (auto intro!: port_literal.intros [of _ "show_nat (unat p)"] trim_no_whitespace
      simp: dec_value_show dest: show_nat_plain)

lemma segment_denotes_render:
  assumes "0 < fst r" and "fst r \<le> snd r"
  shows "segment_denotes (render_range r) {fst r..snd r}"
proof -
  have "trim (render_range r) = render_range r"
    by (rule trim_no_whitespace)
      (auto simp: render_range_def is_whitespace_def dest: show_nat_plain)
  moreover have "snd r \<noteq> 0" using assms by auto
  ultimately show ?thesis using assms
    by (auto intro!: segment_denotes.range [of _ "show_nat (unat (fst r))" "show_nat (unat (snd r))"]
        port_literal_show simp: render_range_def)
qed

lemma render_range_no_comma: "44 \<notin> set (render_range r)"
  by (auto simp: render_range_def dest: show_nat_plain)

lemma split_render: "rs \<noteq> [] \<Longrightarrow> split_on 44 (render_portset rs) = map render_range rs"
  by (induction rs rule: render_portset.induct)
    (simp_all add: split_on_fresh split_on_append render_range_no_comma)

text \<open>C36: Writing any non-empty list of port ranges as an expression and parsing it gives back
  exactly the ports of the ranges.\<close>

theorem parse_render_portset:
  assumes "rs \<noteq> []" and "\<forall>r \<in> set rs. 0 < fst r \<and> fst r \<le> snd r"
  shows "parse_portset (render_portset rs) = Inr (sorted_list_of_set (\<Union>r \<in> set rs. {fst r..snd r}))"
proof -
  have "list_all2 segment_denotes (map render_range rs) (map (\<lambda>r. {fst r..snd r}) rs)"
    using assms(2) by (induction rs) (auto intro: segment_denotes_render)
  then show ?thesis
    using split_render [OF assms(1)]
    by (auto simp: parse_portset_spec intro!: exI [of _ "map (\<lambda>r. {fst r..snd r}) rs"])
qed

theorem parse_render_portset_witness:
  "parse_portset (render_portset [(80, 81), (443, 443)]) =
     Inr (sorted_list_of_set ({80..81} \<union> {443..443 :: u16}))"
  using parse_render_portset [of "[(80, 81), (443, 443)]"] by simp

end
