(* ===== verification/Interleave.thy ===== *)
theory Interleave
  imports Base
begin

text \<open>
  Interleavings of tasks. A task is the list of its atomic actions; an interleaving takes
  at each moment the next action of any task that still has one. Counting facts about a
  prefix of an interleaving are sums of facts about prefixes of the tasks.

  The locale \<open>gauge\<close> is the contract that the components rely on for an active-object
  counter: up by one, down by one but never below zero, untouched by everything else.
\<close>

inductive interleave :: "'a list list \<Rightarrow> 'a list \<Rightarrow> bool" where
  finished: "\<forall>t \<in> set ts. t = [] \<Longrightarrow> interleave ts []"
| pick: "i < length ts \<Longrightarrow> ts ! i = a # as \<Longrightarrow> interleave (ts[i := as]) w \<Longrightarrow> interleave ts (a # w)"

inductive_cases interleave_ConsE: "interleave ts (a # w)"
inductive_cases interleave_NilE: "interleave ts []"

definition cnt :: "('a \<Rightarrow> bool) \<Rightarrow> 'a list \<Rightarrow> nat" where
  "cnt P w = length (filter P w)"

lemma cnt_simps [simp]:
  "cnt P [] = 0"
  "cnt P (a # w) = (if P a then Suc (cnt P w) else cnt P w)"
  "cnt P (u @ v) = cnt P u + cnt P v"
  by (simp_all add: cnt_def)

definition is_prefix :: "'a list \<Rightarrow> 'a list \<Rightarrow> bool" where
  "is_prefix u t \<longleftrightarrow> (\<exists>v. t = u @ v)"

lemma is_prefix_Cons: "is_prefix u (a # t) \<longleftrightarrow> u = [] \<or> (\<exists>u'. u = a # u' \<and> is_prefix u' t)"
  by (cases u) (auto simp: is_prefix_def)

lemma is_prefix_Nil: "is_prefix u [] \<longleftrightarrow> u = []"
  by (auto simp: is_prefix_def)

text \<open>A prefix of an interleaving is made of one prefix of every task.\<close>

definition parts_of :: "'a list \<Rightarrow> 'a list list \<Rightarrow> bool" where
  "parts_of u us \<longleftrightarrow>
     (\<forall>P. cnt P u = sum_list (map (cnt P) us)) \<and>
     (\<forall>f :: 'a \<Rightarrow> nat. sum_list (map f u) = sum_list (map (\<lambda>x. sum_list (map f x)) us))"

lemma sum_list_map_update:
  fixes f :: "'a \<Rightarrow> nat"
  assumes "i < length xs"
  shows "sum_list (map f (xs[i := x])) + f (xs ! i) = sum_list (map f xs) + f x"
  using assms
proof (induction xs arbitrary: i)
  case (Cons y ys)
  then show ?case by (cases i) (auto simp: algebra_simps)
qed simp

lemma parts_of_Cons:
  assumes "parts_of u us" and "i < length us"
  shows "parts_of (a # u) (us[i := a # us ! i])"
  unfolding parts_of_def
proof (intro conjI allI)
  fix P
  show "cnt P (a # u) = sum_list (map (cnt P) (us[i := a # us ! i]))"
    using assms sum_list_map_update [OF assms(2), of "cnt P" "a # us ! i"]
    by (auto simp: parts_of_def)
next
  fix f :: "'a \<Rightarrow> nat"
  show "sum_list (map f (a # u)) = sum_list (map (\<lambda>x. sum_list (map f x)) (us[i := a # us ! i]))"
    using assms sum_list_map_update [OF assms(2), of "\<lambda>x. sum_list (map f x)" "a # us ! i"]
    by (auto simp: parts_of_def)
qed

lemma interleave_prefix:
  assumes "interleave ts (u @ v)"
  shows "\<exists>us. list_all2 is_prefix us ts \<and> parts_of u us"
  using assms
proof (induction u arbitrary: ts)
  case Nil
  have "list_all2 is_prefix (map (\<lambda>_. []) ts) ts"
    by (auto simp: list_all2_conv_all_nth is_prefix_def)
  moreover have "parts_of [] (map (\<lambda>_. []) ts)"
    by (auto simp: parts_of_def intro!: sum_list_0 [symmetric, THEN trans] arg_cong [of _ _ sum_list])
  ultimately show ?case by blast
next
  case (Cons a u)
  then obtain i as where i: "i < length ts" "ts ! i = a # as" "interleave (ts[i := as]) (u @ v)"
    by (auto elim: interleave_ConsE)
  from Cons.IH [OF i(3)] obtain us where us: "list_all2 is_prefix us (ts[i := as])" "parts_of u us"
    by blast
  then have len: "length us = length ts" by (auto dest: list_all2_lengthD)
  have parts: "is_prefix (us ! j) (ts[i := as] ! j)" if "j < length ts" for j
    using us(1) that by (simp add: list_all2_conv_all_nth)
  have "is_prefix (us[i := a # us ! i] ! j) (ts ! j)" if j: "j < length ts" for j
  proof (cases "j = i")
    case True
    with parts [OF j] j have "is_prefix (us ! i) as" by simp
    with True i(2) j len show ?thesis by (simp add: is_prefix_Cons)
  next
    case False
    with parts [OF j] show ?thesis by simp
  qed
  then have "list_all2 is_prefix (us[i := a # us ! i]) ts"
    using len by (simp add: list_all2_conv_all_nth)
  moreover have "parts_of (a # u) (us[i := a # us ! i])"
    using us(2) i(1) len by (intro parts_of_Cons) auto
  ultimately show ?case by blast
qed

lemma interleave_complete:
  assumes "interleave ts w"
  shows "parts_of w ts"
  using assms
proof (induction ts w rule: interleave.induct)
  case (finished ts)
  then show ?case by (auto simp: parts_of_def)
next
  case (pick i ts a as w)
  have "(ts[i := as])[i := a # ts[i := as] ! i] = ts"
    using pick.hyps(1,2) by (metis list_update_id list_update_overwrite nth_list_update_eq)
  with parts_of_Cons [OF pick.IH, of i a] pick.hyps(1) show ?case by simp
qed

lemma interleave_single: "interleave [t] t"
  by (induction t) (auto intro: interleave.finished interleave.pick [of 0])

lemma cnt_prefix_mono: "is_prefix u t \<Longrightarrow> cnt P u \<le> cnt P t"
  by (auto simp: is_prefix_def)

lemma sum_list_all2_mono:
  fixes f g :: "'a \<Rightarrow> nat"
  shows "\<forall>x \<in> set xs. f x \<le> g x \<Longrightarrow> sum_list (map f xs) \<le> sum_list (map g xs)"
  by (induction xs) (auto intro: add_mono)

section \<open>Gauges\<close>

locale gauge =
  fixes step :: "'a \<Rightarrow> 's \<Rightarrow> 's"
    and level :: "'s \<Rightarrow> nat"
    and up :: "'a \<Rightarrow> bool"
    and down :: "'a \<Rightarrow> bool"
    and cap :: nat
  assumes step_up: "up a \<Longrightarrow> level s + 1 < cap \<Longrightarrow> level (step a s) = level s + 1"
    and step_down: "down a \<Longrightarrow> level (step a s) = level s - 1"
    and step_other: "\<not> up a \<Longrightarrow> \<not> down a \<Longrightarrow> level (step a s) = level s"
    and up_not_down: "up a \<Longrightarrow> \<not> down a"
begin

lemma level_run:
  assumes "\<And>u v. w = u @ v \<Longrightarrow> cnt down u \<le> level s + cnt up u"
    and "level s + cnt up w < cap"
  shows "level (fold step w s) + cnt down w = level s + cnt up w"
  using assms
proof (induction w arbitrary: s)
  case Nil
  then show ?case by simp
next
  case (Cons a w)
  have pre: "cnt down u \<le> level (step a s) + cnt up u" if "w = u @ v" for u v
    using Cons.prems(1) [of "a # u" v] Cons.prems(1) [of "[a]" w] Cons.prems(2) that up_not_down [of a]
    by (cases "up a"; cases "down a") (auto simp: step_up step_down step_other)
  have "level (step a s) + cnt up w < cap"
    using Cons.prems(2) up_not_down [of a]
    by (cases "up a"; cases "down a") (auto simp: step_up step_down step_other)
  from Cons.IH [OF pre this] show ?case
    using Cons.prems(1) [of "[a]" w] Cons.prems(2) up_not_down [of a]
    by (cases "up a"; cases "down a") (auto simp: step_up step_down step_other)
qed

text \<open>Tasks that each go up before they go down never make the gauge saturate, however they
  are interleaved.\<close>

lemma level_interleaved:
  assumes "interleave ts (u @ v)"
    and "\<And>t x. t \<in> set ts \<Longrightarrow> is_prefix x t \<Longrightarrow> cnt down x \<le> cnt up x"
    and "level s = 0" and "sum_list (map (cnt up) ts) < cap"
  shows "level (fold step u s) + cnt down u = cnt up u"
proof -
  have le: "cnt down x \<le> cnt up x" and bound: "cnt up x \<le> sum_list (map (cnt up) ts)"
    if pre: "u = x @ y" for x y
  proof -
    from assms(1) pre obtain us where us: "list_all2 is_prefix us ts" "parts_of x us"
      using interleave_prefix [of ts x "y @ v"] by auto
    have all: "\<forall>x \<in> set us. cnt down x \<le> cnt up x"
      using us(1) assms(2) by (auto simp: list_all2_conv_all_nth in_set_conv_nth) metis
    have "sum_list (map (cnt down) us) \<le> sum_list (map (cnt up) us)"
      using all by (rule sum_list_all2_mono)
    with us(2) show "cnt down x \<le> cnt up x" by (simp add: parts_of_def)
    have "sum_list (map (cnt up) us) \<le> sum_list (map (cnt up) ts)"
      using us(1) by (induction rule: list_all2_induct) (auto intro: add_mono cnt_prefix_mono)
    with us(2) show "cnt up x \<le> sum_list (map (cnt up) ts)" by (simp add: parts_of_def)
  qed
  have "cnt up u < cap" using bound [of u "[]"] assms(4) by simp
  then show ?thesis using level_run [of u s] le assms(3) by simp
qed

end

end
