(* ===== verification/Port_Stats.thy ===== *)
theory Port_Stats
  imports Interleave
begin

text \<open>
  \<open>src/src/stats/port.rs\<close>: the atomic counters of one listen port. Every \<open>fetch_add\<close>,
  \<open>fetch_update\<close> and \<open>load\<close> on one \<open>AtomicU64\<close> is one indivisible step
  (\<open>atomic_step\<close>); an operation of \<open>PortStats\<close> is the sequence of its steps
  (\<open>atomics_of\<close>), so several tasks can be interleaved between the steps of an operation.
  The additions wrap at 64 bits as \<open>fetch_add\<close> does.
\<close>

section \<open>The code\<close>

record port_stats =
  ps_port :: u16
  ps_tcp_accepted :: u64
  ps_tcp_active :: u64
  ps_tcp_closed :: u64
  ps_udp_active_flows :: u64
  ps_tcp_in_bytes :: u64
  ps_tcp_out_bytes :: u64
  ps_udp_in_bytes :: u64
  ps_udp_out_bytes :: u64
  ps_udp_dropped :: u64

record port_snapshot =
  sn_port :: u16
  sn_tcp_accepted :: u64
  sn_tcp_active :: u64
  sn_tcp_closed :: u64
  sn_udp_active_flows :: u64
  sn_tcp_in_bytes :: u64
  sn_tcp_out_bytes :: u64
  sn_udp_in_bytes :: u64
  sn_udp_out_bytes :: u64
  sn_udp_dropped :: u64

definition port_stats_new :: "u16 \<Rightarrow> port_stats" where
  "port_stats_new port =
     \<lparr>ps_port = port, ps_tcp_accepted = 0, ps_tcp_active = 0, ps_tcp_closed = 0,
      ps_udp_active_flows = 0, ps_tcp_in_bytes = 0, ps_tcp_out_bytes = 0,
      ps_udp_in_bytes = 0, ps_udp_out_bytes = 0, ps_udp_dropped = 0\<rparr>"

definition atomic_saturating_decrement :: "u64 \<Rightarrow> u64" where
  "atomic_saturating_decrement current = saturating_sub current 1"

definition record_tcp_accept :: "port_stats \<Rightarrow> port_stats" where
  "record_tcp_accept s =
     (let s = s\<lparr>ps_tcp_accepted := ps_tcp_accepted s + 1\<rparr> in
      s\<lparr>ps_tcp_active := ps_tcp_active s + 1\<rparr>)"

definition record_tcp_close :: "port_stats \<Rightarrow> port_stats" where
  "record_tcp_close s =
     (let s = s\<lparr>ps_tcp_active := atomic_saturating_decrement (ps_tcp_active s)\<rparr> in
      s\<lparr>ps_tcp_closed := ps_tcp_closed s + 1\<rparr>)"

definition add_tcp_bytes :: "u64 \<Rightarrow> u64 \<Rightarrow> port_stats \<Rightarrow> port_stats" where
  "add_tcp_bytes in_bytes out_bytes s =
     (let s = s\<lparr>ps_tcp_in_bytes := ps_tcp_in_bytes s + in_bytes\<rparr> in
      s\<lparr>ps_tcp_out_bytes := ps_tcp_out_bytes s + out_bytes\<rparr>)"

definition record_udp_flow_open :: "port_stats \<Rightarrow> port_stats" where
  "record_udp_flow_open s = s\<lparr>ps_udp_active_flows := ps_udp_active_flows s + 1\<rparr>"

definition record_udp_flow_close :: "port_stats \<Rightarrow> port_stats" where
  "record_udp_flow_close s =
     s\<lparr>ps_udp_active_flows := atomic_saturating_decrement (ps_udp_active_flows s)\<rparr>"

definition add_udp_in :: "u64 \<Rightarrow> port_stats \<Rightarrow> port_stats" where
  "add_udp_in bytes s = s\<lparr>ps_udp_in_bytes := ps_udp_in_bytes s + bytes\<rparr>"

definition add_udp_out :: "u64 \<Rightarrow> port_stats \<Rightarrow> port_stats" where
  "add_udp_out bytes s = s\<lparr>ps_udp_out_bytes := ps_udp_out_bytes s + bytes\<rparr>"

definition record_udp_drop :: "port_stats \<Rightarrow> port_stats" where
  "record_udp_drop s = s\<lparr>ps_udp_dropped := ps_udp_dropped s + 1\<rparr>"

definition port_stats_snapshot :: "port_stats \<Rightarrow> port_snapshot" where
  "port_stats_snapshot s =
     \<lparr>sn_port = ps_port s, sn_tcp_accepted = ps_tcp_accepted s, sn_tcp_active = ps_tcp_active s,
      sn_tcp_closed = ps_tcp_closed s, sn_udp_active_flows = ps_udp_active_flows s,
      sn_tcp_in_bytes = ps_tcp_in_bytes s, sn_tcp_out_bytes = ps_tcp_out_bytes s,
      sn_udp_in_bytes = ps_udp_in_bytes s, sn_udp_out_bytes = ps_udp_out_bytes s,
      sn_udp_dropped = ps_udp_dropped s\<rparr>"

lemmas stats_ops =
  record_tcp_accept_def record_tcp_close_def add_tcp_bytes_def record_udp_flow_open_def
  record_udp_flow_close_def add_udp_in_def add_udp_out_def record_udp_drop_def Let_def

section \<open>The atomic steps of the operations\<close>

datatype atomic =
    AddTcpAccepted | AddTcpActive | DecTcpActive | AddTcpClosed
  | AddTcpIn u64 | AddTcpOut u64
  | AddFlows | DecFlows | AddUdpIn u64 | AddUdpOut u64 | AddDropped

fun atomic_step :: "atomic \<Rightarrow> port_stats \<Rightarrow> port_stats" where
  "atomic_step AddTcpAccepted s = s\<lparr>ps_tcp_accepted := ps_tcp_accepted s + 1\<rparr>"
| "atomic_step AddTcpActive s = s\<lparr>ps_tcp_active := ps_tcp_active s + 1\<rparr>"
| "atomic_step DecTcpActive s =
     s\<lparr>ps_tcp_active := atomic_saturating_decrement (ps_tcp_active s)\<rparr>"
| "atomic_step AddTcpClosed s = s\<lparr>ps_tcp_closed := ps_tcp_closed s + 1\<rparr>"
| "atomic_step (AddTcpIn n) s = s\<lparr>ps_tcp_in_bytes := ps_tcp_in_bytes s + n\<rparr>"
| "atomic_step (AddTcpOut n) s = s\<lparr>ps_tcp_out_bytes := ps_tcp_out_bytes s + n\<rparr>"
| "atomic_step AddFlows s = s\<lparr>ps_udp_active_flows := ps_udp_active_flows s + 1\<rparr>"
| "atomic_step DecFlows s =
     s\<lparr>ps_udp_active_flows := atomic_saturating_decrement (ps_udp_active_flows s)\<rparr>"
| "atomic_step (AddUdpIn n) s = s\<lparr>ps_udp_in_bytes := ps_udp_in_bytes s + n\<rparr>"
| "atomic_step (AddUdpOut n) s = s\<lparr>ps_udp_out_bytes := ps_udp_out_bytes s + n\<rparr>"
| "atomic_step AddDropped s = s\<lparr>ps_udp_dropped := ps_udp_dropped s + 1\<rparr>"

definition atomic_run :: "atomic list \<Rightarrow> port_stats \<Rightarrow> port_stats" where
  "atomic_run = fold atomic_step"

datatype stats_op =
    TcpAccept | TcpClose | TcpBytes u64 u64
  | FlowOpen | FlowClose | UdpIn u64 | UdpOut u64 | UdpDrop

fun stats_apply :: "stats_op \<Rightarrow> port_stats \<Rightarrow> port_stats" where
  "stats_apply TcpAccept s = record_tcp_accept s"
| "stats_apply TcpClose s = record_tcp_close s"
| "stats_apply (TcpBytes i j) s = add_tcp_bytes i j s"
| "stats_apply FlowOpen s = record_udp_flow_open s"
| "stats_apply FlowClose s = record_udp_flow_close s"
| "stats_apply (UdpIn n) s = add_udp_in n s"
| "stats_apply (UdpOut n) s = add_udp_out n s"
| "stats_apply UdpDrop s = record_udp_drop s"

fun atomics_of :: "stats_op \<Rightarrow> atomic list" where
  "atomics_of TcpAccept = [AddTcpAccepted, AddTcpActive]"
| "atomics_of TcpClose = [DecTcpActive, AddTcpClosed]"
| "atomics_of (TcpBytes i j) = [AddTcpIn i, AddTcpOut j]"
| "atomics_of FlowOpen = [AddFlows]"
| "atomics_of FlowClose = [DecFlows]"
| "atomics_of (UdpIn n) = [AddUdpIn n]"
| "atomics_of (UdpOut n) = [AddUdpOut n]"
| "atomics_of UdpDrop = [AddDropped]"

lemma atomic_run_simps [simp]:
  "atomic_run [] s = s"
  "atomic_run (a # as) s = atomic_run as (atomic_step a s)"
  "atomic_run (as @ bs) s = atomic_run bs (atomic_run as s)"
  by (simp_all add: atomic_run_def)

lemma stats_apply_atomics: "stats_apply op s = atomic_run (atomics_of op) s"
  by (cases op) (simp_all add: stats_ops)

lemma unat_atomic_dec [word_views]: "unat (atomic_saturating_decrement n) = unat n - 1"
  by (simp add: atomic_saturating_decrement_def unat_saturating_sub)

section \<open>The gauges of active connections and flows\<close>

interpretation tcp_gauge: gauge atomic_step "\<lambda>s :: port_stats. unat (ps_tcp_active s)"
  "\<lambda>a. a = AddTcpActive" "\<lambda>a. a = DecTcpActive" "2 ^ 64"
proof unfold_locales
  fix a and s :: port_stats
  assume "a = AddTcpActive" "unat (ps_tcp_active s) + 1 < 2 ^ 64"
  then show "unat (ps_tcp_active (atomic_step a s)) = unat (ps_tcp_active s) + 1"
    by (simp add: unat_plus_no_wrap)
next
  fix a and s :: port_stats
  assume "a = DecTcpActive"
  then show "unat (ps_tcp_active (atomic_step a s)) = unat (ps_tcp_active s) - 1"
    by (simp add: unat_atomic_dec)
next
  fix a and s :: port_stats
  assume "a \<noteq> AddTcpActive" "a \<noteq> DecTcpActive"
  then show "unat (ps_tcp_active (atomic_step a s)) = unat (ps_tcp_active s)"
    by (cases a) simp_all
qed simp

interpretation flow_gauge: gauge atomic_step "\<lambda>s :: port_stats. unat (ps_udp_active_flows s)"
  "\<lambda>a. a = AddFlows" "\<lambda>a. a = DecFlows" "2 ^ 64"
proof unfold_locales
  fix a and s :: port_stats
  assume "a = AddFlows" "unat (ps_udp_active_flows s) + 1 < 2 ^ 64"
  then show "unat (ps_udp_active_flows (atomic_step a s)) = unat (ps_udp_active_flows s) + 1"
    by (simp add: unat_plus_no_wrap)
next
  fix a and s :: port_stats
  assume "a = DecFlows"
  then show "unat (ps_udp_active_flows (atomic_step a s)) = unat (ps_udp_active_flows s) - 1"
    by (simp add: unat_atomic_dec)
next
  fix a and s :: port_stats
  assume "a \<noteq> AddFlows" "a \<noteq> DecFlows"
  then show "unat (ps_udp_active_flows (atomic_step a s)) = unat (ps_udp_active_flows s)"
    by (cases a) simp_all
qed simp

text \<open>The counters that only grow, read as words: each is its start plus what was added.\<close>

fun tcp_in_of :: "atomic \<Rightarrow> nat" where
  "tcp_in_of (AddTcpIn n) = unat n" | "tcp_in_of _ = 0"

fun tcp_out_of :: "atomic \<Rightarrow> nat" where
  "tcp_out_of (AddTcpOut n) = unat n" | "tcp_out_of _ = 0"

lemma run_accepted:
  "ps_tcp_accepted (fold atomic_step w s) = ps_tcp_accepted s + of_nat (cnt (\<lambda>a. a = AddTcpAccepted) w)"
proof (induction w arbitrary: s)
  case (Cons a w)
  then show ?case by (cases a) simp_all
qed simp

lemma run_closed:
  "ps_tcp_closed (fold atomic_step w s) = ps_tcp_closed s + of_nat (cnt (\<lambda>a. a = AddTcpClosed) w)"
proof (induction w arbitrary: s)
  case (Cons a w)
  then show ?case by (cases a) simp_all
qed simp

lemma run_tcp_in:
  "ps_tcp_in_bytes (fold atomic_step w s) = ps_tcp_in_bytes s + of_nat (sum_list (map tcp_in_of w))"
proof (induction w arbitrary: s)
  case (Cons a w)
  then show ?case by (cases a) (simp_all add: add.assoc)
qed simp

lemma run_tcp_out:
  "ps_tcp_out_bytes (fold atomic_step w s) = ps_tcp_out_bytes s + of_nat (sum_list (map tcp_out_of w))"
proof (induction w arbitrary: s)
  case (Cons a w)
  then show ?case by (cases a) (simp_all add: add.assoc)
qed simp

section \<open>Connections as tasks\<close>

text \<open>What one accepted connection does to the counters of its port: the accept, the byte
  counts when the copy ended without an error (\<open>Some (in, out)\<close>), the close.\<close>

definition conn_ops :: "(u64 \<times> u64) option \<Rightarrow> stats_op list" where
  "conn_ops r = TcpAccept # (case r of None \<Rightarrow> [] | Some (i, j) \<Rightarrow> [TcpBytes i j]) @ [TcpClose]"

definition conn_task :: "(u64 \<times> u64) option \<Rightarrow> atomic list" where
  "conn_task r = concat (map atomics_of (conn_ops r))"

lemma conn_task_eq:
  "conn_task r = [AddTcpAccepted, AddTcpActive] @
     (case r of None \<Rightarrow> [] | Some (i, j) \<Rightarrow> [AddTcpIn i, AddTcpOut j]) @ [DecTcpActive, AddTcpClosed]"
  by (auto simp: conn_task_def conn_ops_def split: option.splits)

lemma conn_task_prefix:
  assumes "is_prefix u (conn_task r)"
  shows "cnt (\<lambda>a. a = AddTcpClosed) u \<le> cnt (\<lambda>a. a = DecTcpActive) u \<and>
    cnt (\<lambda>a. a = DecTcpActive) u \<le> cnt (\<lambda>a. a = AddTcpActive) u \<and>
    cnt (\<lambda>a. a = AddTcpActive) u \<le> cnt (\<lambda>a. a = AddTcpAccepted) u"
  using assms
  by (auto simp: conn_task_eq is_prefix_Cons is_prefix_Nil split: option.splits)

lemma sum_conn_tasks:
  "sum_list (map (cnt (\<lambda>a. a = AddTcpActive) \<circ> conn_task) conns) = length conns"
  "sum_list (map (cnt (\<lambda>a. a = DecTcpActive) \<circ> conn_task) conns) = length conns"
  "sum_list (map (cnt (\<lambda>a. a = AddTcpAccepted) \<circ> conn_task) conns) = length conns"
  "sum_list (map (cnt (\<lambda>a. a = AddTcpClosed) \<circ> conn_task) conns) = length conns"
  by (induction conns) (auto simp: conn_task_eq split: option.splits)

lemma conn_parts:
  assumes "interleave (map conn_task conns) (u @ v)"
  shows "cnt (\<lambda>a. a = AddTcpClosed) u \<le> cnt (\<lambda>a. a = DecTcpActive) u \<and>
    cnt (\<lambda>a. a = DecTcpActive) u \<le> cnt (\<lambda>a. a = AddTcpActive) u \<and>
    cnt (\<lambda>a. a = AddTcpActive) u \<le> cnt (\<lambda>a. a = AddTcpAccepted) u \<and>
    cnt (\<lambda>a. a = AddTcpAccepted) u \<le> length conns"
proof -
  obtain us where us: "list_all2 is_prefix us (map conn_task conns)" "parts_of u us"
    using interleave_prefix [OF assms] by blast
  have one: "cnt (\<lambda>a. a = AddTcpClosed) x \<le> cnt (\<lambda>a. a = DecTcpActive) x \<and>
    cnt (\<lambda>a. a = DecTcpActive) x \<le> cnt (\<lambda>a. a = AddTcpActive) x \<and>
    cnt (\<lambda>a. a = AddTcpActive) x \<le> cnt (\<lambda>a. a = AddTcpAccepted) x" if "x \<in> set us" for x
    using us(1) that conn_task_prefix by (auto simp: list_all2_conv_all_nth in_set_conv_nth)
  have "sum_list (map (cnt (\<lambda>a. a = AddTcpAccepted)) us) \<le>
      sum_list (map (cnt (\<lambda>a. a = AddTcpAccepted)) (map conn_task conns))"
    using us(1) by (induction rule: list_all2_induct) (auto intro: add_mono cnt_prefix_mono)
  with us(2) one show ?thesis
    by (simp add: parts_of_def sum_list_all2_mono sum_conn_tasks)
qed

text \<open>However the accepts, byte counts and closes of any number of connections of a port
  interleave, between any two atomic steps the active gauge is exactly the number of
  connections that were counted up and not yet down (the saturating decrement never
  saturates), and closed plus active never exceeds accepted.\<close>

lemma tcp_gauge_exact:
  assumes "interleave (map conn_task conns) (u @ v)" and "length conns < 2 ^ 64"
    and "s = atomic_run u (port_stats_new port)"
  shows "unat (ps_tcp_active s) = cnt (\<lambda>a. a = AddTcpActive) u - cnt (\<lambda>a. a = DecTcpActive) u \<and>
    cnt (\<lambda>a. a = DecTcpActive) u \<le> cnt (\<lambda>a. a = AddTcpActive) u \<and>
    unat (ps_tcp_closed s) + unat (ps_tcp_active s) \<le> unat (ps_tcp_accepted s)"
proof -
  note parts = conn_parts [OF assms(1)]
  have "unat (ps_tcp_active s) + cnt (\<lambda>a. a = DecTcpActive) u = cnt (\<lambda>a. a = AddTcpActive) u"
    unfolding assms(3) atomic_run_def using assms(1)
    by (rule tcp_gauge.level_interleaved)
      (use conn_task_prefix assms(2) in \<open>auto simp: sum_conn_tasks port_stats_new_def\<close>)
  moreover have "unat (ps_tcp_accepted s) = cnt (\<lambda>a. a = AddTcpAccepted) u"
    using parts assms(2)
    by (simp add: assms(3) atomic_run_def run_accepted port_stats_new_def unat_of_nat)
  moreover have "unat (ps_tcp_closed s) = cnt (\<lambda>a. a = AddTcpClosed) u"
    using parts assms(2)
    by (simp add: assms(3) atomic_run_def run_closed port_stats_new_def unat_of_nat)
  ultimately show ?thesis using parts by simp
qed

definition conn_in :: "(u64 \<times> u64) option \<Rightarrow> nat" where
  "conn_in r = (case r of None \<Rightarrow> 0 | Some (i, j) \<Rightarrow> unat i)"

definition conn_out :: "(u64 \<times> u64) option \<Rightarrow> nat" where
  "conn_out r = (case r of None \<Rightarrow> 0 | Some (i, j) \<Rightarrow> unat j)"

text \<open>C35: Once every connection task has finished, in whatever order their steps happened, the
  gauge is back to zero, accepted and closed both equal the number of connections, and the
  byte counters are the sums of the connections' byte counts (modulo 2 ^ 64).\<close>

theorem tcp_counters_final:
  assumes "interleave (map conn_task conns) w" and "length conns < 2 ^ 64"
    and "s = atomic_run w (port_stats_new port)"
  shows "ps_tcp_active s = 0 \<and> unat (ps_tcp_accepted s) = length conns \<and>
    unat (ps_tcp_closed s) = length conns \<and>
    ps_tcp_in_bytes s = of_nat (sum_list (map conn_in conns)) \<and>
    ps_tcp_out_bytes s = of_nat (sum_list (map conn_out conns))"
proof -
  have parts: "parts_of w (map conn_task conns)" by (rule interleave_complete [OF assms(1)])
  have "unat (ps_tcp_active s) + cnt (\<lambda>a. a = DecTcpActive) w = cnt (\<lambda>a. a = AddTcpActive) w"
    unfolding assms(3) atomic_run_def
    by (rule tcp_gauge.level_interleaved [of "map conn_task conns" w "[]"])
      (use assms(1,2) conn_task_prefix in \<open>auto simp: sum_conn_tasks port_stats_new_def\<close>)
  then have "ps_tcp_active s = 0"
    using parts by (simp add: parts_of_def sum_conn_tasks unat_eq_0)
  moreover have "sum_list (map (\<lambda>x. sum_list (map tcp_in_of x)) (map conn_task conns)) = sum_list (map conn_in conns)"
    and "sum_list (map (\<lambda>x. sum_list (map tcp_out_of x)) (map conn_task conns)) = sum_list (map conn_out conns)"
    by (auto simp: conn_task_eq conn_in_def conn_out_def intro!: arg_cong [of _ _ sum_list] split: option.splits)
  ultimately show ?thesis
    using parts assms(2)
    by (simp add: assms(3) atomic_run_def run_accepted run_closed run_tcp_in run_tcp_out
        port_stats_new_def parts_of_def sum_conn_tasks unat_of_nat)
qed

theorem tcp_counters_final_witness:
  "ps_tcp_in_bytes (atomic_run (conn_task (Some (14, 20))) (port_stats_new 80)) = 14"
proof -
  have "interleave (map conn_task [Some (14, 20)]) (conn_task (Some (14, 20)))"
    using interleave_single by simp
  from tcp_counters_final [OF this _ refl, of 80] show ?thesis by (simp add: conn_in_def del: atomic_run_simps)
qed

end
