(* ===== verification/Bucket_Ring.thy ===== *)
theory Bucket_Ring
  imports Base "HOL-Library.Multiset"
begin

text \<open>
  \<open>src/src/stats/bucket.rs\<close>: the totals, the per-minute bucket and the ring of buckets.
  \<open>rollup\<close> returns \<^const>\<open>None\<close> where the code would panic (remainder by the length
  of an empty ring). The specification is \<open>hist_rollup\<close>: an unbounded map from minutes to
  buckets that never evicts anything; the ring is proved to hold, in every slot, the bucket
  of the latest minute that maps to the slot.
\<close>

section \<open>The code\<close>

record aggregate_totals =
  at_tcp_accepted :: u64
  at_tcp_active :: u64
  at_tcp_closed :: u64
  at_udp_active_flows :: u64
  at_tcp_in_bytes :: u64
  at_tcp_out_bytes :: u64
  at_udp_in_bytes :: u64
  at_udp_out_bytes :: u64
  at_udp_dropped :: u64

definition totals_default :: aggregate_totals where
  "totals_default =
     \<lparr>at_tcp_accepted = 0, at_tcp_active = 0, at_tcp_closed = 0, at_udp_active_flows = 0,
      at_tcp_in_bytes = 0, at_tcp_out_bytes = 0, at_udp_in_bytes = 0, at_udp_out_bytes = 0,
      at_udp_dropped = 0\<rparr>"

record minute_bucket =
  mb_minute_epoch :: u64
  mb_tcp_new_conn :: u64
  mb_tcp_active_peak :: u64
  mb_udp_active_flows_peak :: u64
  mb_tcp_in_bytes :: u64
  mb_tcp_out_bytes :: u64
  mb_udp_in_bytes :: u64
  mb_udp_out_bytes :: u64

definition bucket_default :: minute_bucket where
  "bucket_default =
     \<lparr>mb_minute_epoch = 0, mb_tcp_new_conn = 0, mb_tcp_active_peak = 0,
      mb_udp_active_flows_peak = 0, mb_tcp_in_bytes = 0, mb_tcp_out_bytes = 0,
      mb_udp_in_bytes = 0, mb_udp_out_bytes = 0\<rparr>"

record bucket_ring =
  br_buckets :: "minute_bucket list"

definition ring_new :: "nat \<Rightarrow> bucket_ring" where
  "ring_new window_minutes = \<lparr>br_buckets = replicate (max window_minutes 1) bucket_default\<rparr>"

definition accumulate :: "aggregate_totals \<Rightarrow> aggregate_totals \<Rightarrow> minute_bucket \<Rightarrow> minute_bucket" where
  "accumulate totals previous b = b
     \<lparr>mb_tcp_new_conn := mb_tcp_new_conn b
        + saturating_sub (at_tcp_accepted totals) (at_tcp_accepted previous),
      mb_tcp_active_peak := max (mb_tcp_active_peak b) (at_tcp_active totals),
      mb_udp_active_flows_peak := max (mb_udp_active_flows_peak b) (at_udp_active_flows totals),
      mb_tcp_in_bytes := mb_tcp_in_bytes b
        + saturating_sub (at_tcp_in_bytes totals) (at_tcp_in_bytes previous),
      mb_tcp_out_bytes := mb_tcp_out_bytes b
        + saturating_sub (at_tcp_out_bytes totals) (at_tcp_out_bytes previous),
      mb_udp_in_bytes := mb_udp_in_bytes b
        + saturating_sub (at_udp_in_bytes totals) (at_udp_in_bytes previous),
      mb_udp_out_bytes := mb_udp_out_bytes b
        + saturating_sub (at_udp_out_bytes totals) (at_udp_out_bytes previous)\<rparr>"

definition fresh_bucket :: "u64 \<Rightarrow> minute_bucket" where
  "fresh_bucket minute_epoch = bucket_default\<lparr>mb_minute_epoch := minute_epoch\<rparr>"

definition rollup ::
    "bucket_ring \<Rightarrow> u64 \<Rightarrow> aggregate_totals \<Rightarrow> aggregate_totals \<Rightarrow> (bucket_ring \<times> aggregate_totals) option" where
  "rollup ring now_epoch_seconds totals previous =
     (let minute_epoch = now_epoch_seconds div 60;
          buckets = br_buckets ring
      in if buckets = [] then None
         else
           let index = unat minute_epoch mod length buckets;
               bucket = buckets ! index;
               bucket = (if mb_minute_epoch bucket \<noteq> minute_epoch
                         then fresh_bucket minute_epoch else bucket)
           in Some (\<lparr>br_buckets = buckets[index := accumulate totals previous bucket]\<rparr>, totals))"

definition ring_snapshot :: "bucket_ring \<Rightarrow> minute_bucket list" where
  "ring_snapshot ring =
     sort_key mb_minute_epoch (filter (\<lambda>b. mb_minute_epoch b \<noteq> 0) (br_buckets ring))"

text \<open>A sequence of rollups, each at its time with the totals at that time.\<close>

fun ring_run ::
    "bucket_ring \<Rightarrow> aggregate_totals \<Rightarrow> (u64 \<times> aggregate_totals) list \<Rightarrow> (bucket_ring \<times> aggregate_totals) option" where
  "ring_run ring previous [] = Some (ring, previous)"
| "ring_run ring previous ((now, totals) # evs) =
     (case rollup ring now totals previous of
        None \<Rightarrow> None
      | Some (ring', previous') \<Rightarrow> ring_run ring' previous' evs)"

section \<open>The specification: a history without eviction\<close>

type_synonym history = "u64 \<rightharpoonup> minute_bucket"

definition hist_rollup :: "history \<Rightarrow> u64 \<Rightarrow> aggregate_totals \<Rightarrow> aggregate_totals \<Rightarrow> history" where
  "hist_rollup h now totals previous =
     (let m = now div 60 in
      h(m \<mapsto> accumulate totals previous (case h m of None \<Rightarrow> fresh_bucket m | Some b \<Rightarrow> b)))"

fun hist_run :: "history \<Rightarrow> aggregate_totals \<Rightarrow> (u64 \<times> aggregate_totals) list \<Rightarrow> history" where
  "hist_run h previous [] = h"
| "hist_run h previous ((now, totals) # evs) =
     hist_run (hist_rollup h now totals previous) totals evs"

text \<open>The minutes that share a slot of a ring of \<open>n\<close> buckets, and what the slot holds.\<close>

definition rivals :: "history \<Rightarrow> nat \<Rightarrow> nat \<Rightarrow> u64 set" where
  "rivals h n i = {m \<in> dom h. unat m mod n = i}"

definition slot_of :: "history \<Rightarrow> nat \<Rightarrow> nat \<Rightarrow> minute_bucket" where
  "slot_of h n i = (if rivals h n i = {} then bucket_default else the (h (Max (rivals h n i))))"

definition dated :: "history \<Rightarrow> bool" where
  "dated h \<longleftrightarrow> (\<forall>m b. h m = Some b \<longrightarrow> mb_minute_epoch b = m)"

definition ring_holds :: "nat \<Rightarrow> bucket_ring \<Rightarrow> history \<Rightarrow> bool" where
  "ring_holds n ring h \<longleftrightarrow>
     0 < n \<and> length (br_buckets ring) = n \<and> dated h \<and> (\<forall>i < n. br_buckets ring ! i = slot_of h n i)"

definition visible :: "history \<Rightarrow> nat \<Rightarrow> u64 set" where
  "visible h n = {m \<in> dom h. m \<noteq> 0 \<and> (\<forall>m' \<in> dom h. m < m' \<longrightarrow> unat m' mod n \<noteq> unat m mod n)}"

section \<open>One rollup\<close>

lemma accumulate_minute [simp]: "mb_minute_epoch (accumulate t p b) = mb_minute_epoch b"
  by (simp add: accumulate_def)

lemma fresh_minute [simp]: "mb_minute_epoch (fresh_bucket m) = m"
  by (simp add: fresh_bucket_def)

lemma default_minute [simp]: "mb_minute_epoch bucket_default = 0"
  by (simp add: bucket_default_def)

lemma fresh_0 [simp]: "fresh_bucket 0 = bucket_default"
  by (simp add: fresh_bucket_def bucket_default_def)

lemma finite_rivals [simp]: "finite (rivals h n i)"
  by simp

lemma rivals_upd:
  "rivals (h(m \<mapsto> b)) n i = (if unat m mod n = i then insert m (rivals h n i) else rivals h n i)"
  by (auto simp: rivals_def)

lemma slot_of_upd_other:
  assumes "unat m mod n \<noteq> i"
  shows "slot_of (h(m \<mapsto> b)) n i = slot_of h n i"
proof (cases "rivals h n i = {}")
  case False
  then have "Max (rivals h n i) \<in> rivals h n i" by (simp add: Max_in)
  with assms have "Max (rivals h n i) \<noteq> m" by (auto simp: rivals_def)
  with assms show ?thesis by (simp add: slot_of_def rivals_upd)
qed (simp add: slot_of_def rivals_upd assms)

lemma slot_of_upd_same:
  assumes "\<forall>m' \<in> dom h. m' \<le> m"
  shows "slot_of (h(m \<mapsto> b)) n (unat m mod n) = b"
proof -
  have "Max (insert m (rivals h n (unat m mod n))) = m"
    using assms by (intro Max_eqI) (auto simp: rivals_def)
  then show ?thesis by (simp add: slot_of_def rivals_upd)
qed

text \<open>The bucket that the code picks, after its reset, is the one the history would extend.\<close>

lemma picked_bucket:
  assumes "\<forall>m' \<in> dom h. m' \<le> m" and "dated h" and "b = slot_of h n (unat m mod n)"
  shows "(if mb_minute_epoch b \<noteq> m then fresh_bucket m else b) =
    (case h m of None \<Rightarrow> fresh_bucket m | Some b' \<Rightarrow> b')"
proof (cases "h m")
  case None
  show ?thesis
  proof (cases "rivals h n (unat m mod n) = {}")
    case True
    with None assms(3) show ?thesis by (auto simp: slot_of_def)
  next
    case False
    then have "Max (rivals h n (unat m mod n)) \<in> rivals h n (unat m mod n)" by (simp add: Max_in)
    then obtain m' b' where "m' = Max (rivals h n (unat m mod n))" "h m' = Some b'"
      by (auto simp: rivals_def)
    with None False assms(2,3) show ?thesis by (auto simp: slot_of_def dated_def)
  qed
next
  case (Some b')
  then have "h(m \<mapsto> b') = h" by auto
  with assms(1,3) Some have "b = b'" using slot_of_upd_same [of h m b' n] by simp
  with Some assms(2) show ?thesis by (auto simp: dated_def)
qed

lemma dated_hist_rollup: "dated h \<Longrightarrow> dated (hist_rollup h now t p)"
  by (auto simp: dated_def hist_rollup_def Let_def split: option.splits)

lemma dom_hist_rollup: "dom (hist_rollup h now t p) = insert (now div 60) (dom h)"
  by (simp add: hist_rollup_def Let_def)

lemma rollup_refines:
  assumes "ring_holds n ring h" and "\<forall>m \<in> dom h. m \<le> now div 60"
  shows "\<exists>ring'. rollup ring now t p = Some (ring', t) \<and> ring_holds n ring' (hist_rollup h now t p)"
proof -
  let ?m = "now div 60"
  let ?i = "unat ?m mod n"
  let ?b = "accumulate t p (case h ?m of None \<Rightarrow> fresh_bucket ?m | Some b \<Rightarrow> b)"
  have n: "0 < n" "length (br_buckets ring) = n" "dated h"
    and slots: "\<forall>i < n. br_buckets ring ! i = slot_of h n i"
    using assms(1) by (auto simp: ring_holds_def)
  have hist: "hist_rollup h now t p = h(?m \<mapsto> ?b)" by (simp add: hist_rollup_def Let_def)
  have "rollup ring now t p = Some (\<lparr>br_buckets = (br_buckets ring)[?i := ?b]\<rparr>, t)"
    using n slots picked_bucket [OF assms(2) n(3) refl, of n]
    by (auto simp: rollup_def Let_def)
  moreover have "(br_buckets ring)[?i := ?b] ! i = slot_of (h(?m \<mapsto> ?b)) n i" if "i < n" for i
    using that n slots slot_of_upd_same [OF assms(2), of ?b n] slot_of_upd_other [of ?m n i h ?b]
    by (cases "i = ?i") (auto simp: nth_list_update)
  ultimately show ?thesis
    using n dated_hist_rollup [OF n(3), of now t p] by (auto simp: ring_holds_def hist)
qed

lemma ring_new_holds: "ring_holds (max w 1) (ring_new w) Map.empty"
  by (simp add: ring_holds_def ring_new_def dated_def slot_of_def rivals_def)

lemma ring_run_refines:
  assumes "ring_holds n ring h" and "sorted_wrt (\<le>) (map (\<lambda>e. fst e div 60) evs)"
    and "\<forall>m \<in> dom h. \<forall>e \<in> set evs. m \<le> fst e div 60"
  shows "\<exists>ring' p'. ring_run ring p evs = Some (ring', p') \<and> ring_holds n ring' (hist_run h p evs)"
  using assms
proof (induction evs arbitrary: ring h p)
  case Nil
  then show ?case by simp
next
  case (Cons e evs)
  obtain now t where e: "e = (now, t)" by (cases e)
  from Cons.prems e obtain ring' where
    ring': "rollup ring now t p = Some (ring', t)" "ring_holds n ring' (hist_rollup h now t p)"
    using rollup_refines [of n ring h now t p] by auto
  show ?case
    using Cons.IH [OF ring'(2), of t] Cons.prems e ring'(1) by (auto simp: dom_hist_rollup)
qed

section \<open>The snapshot\<close>

lemma slot_of_minute:
  assumes "dated h" and "rivals h n i \<noteq> {}"
  shows "mb_minute_epoch (slot_of h n i) = Max (rivals h n i)"
proof -
  have "Max (rivals h n i) \<in> rivals h n i" using assms(2) by (simp add: Max_in)
  then show ?thesis using assms by (auto simp: slot_of_def rivals_def dated_def)
qed

lemma slot_of_date:
  assumes "dated h"
  shows "mb_minute_epoch (slot_of h n i) = 0 \<or> unat (mb_minute_epoch (slot_of h n i)) mod n = i"
proof (cases "rivals h n i = {}")
  case True
  then show ?thesis by (simp add: slot_of_def)
next
  case False
  then have "Max (rivals h n i) \<in> rivals h n i" by (simp add: Max_in)
  then show ?thesis using slot_of_minute [OF assms False] by (auto simp: rivals_def)
qed

lemma distinct_dates:
  assumes "\<forall>i < length ms. ms ! i = 0 \<or> f (ms ! i) = k + i"
  shows "distinct (filter (\<lambda>m. m \<noteq> 0) ms) \<and> (\<forall>m \<in> set (filter (\<lambda>m. m \<noteq> 0) ms). k \<le> f m)"
  using assms
proof (induction ms arbitrary: k)
  case (Cons m ms)
  have "\<forall>i < length ms. ms ! i = 0 \<or> f (ms ! i) = Suc k + i"
    using Cons.prems by force
  note IH = Cons.IH [OF this]
  have m: "m = 0 \<or> f m = k" using Cons.prems by force
  with IH show ?case by (auto simp: Suc_le_eq)
qed simp

lemma ring_snapshot_minutes:
  "map mb_minute_epoch (filter (\<lambda>b. mb_minute_epoch b \<noteq> 0) bs) =
   filter (\<lambda>m. m \<noteq> 0) (map mb_minute_epoch bs)"
  by (simp add: filter_map o_def)

lemma ring_snapshot_ascending:
  assumes "ring_holds n ring h"
  shows "sorted_wrt (<) (map mb_minute_epoch (ring_snapshot ring))"
proof -
  let ?ms = "map mb_minute_epoch (br_buckets ring)"
  have "\<forall>i < length ?ms. ?ms ! i = 0 \<or> unat (?ms ! i) mod n = 0 + i"
    using assms slot_of_date by (auto simp: ring_holds_def)
  from distinct_dates [OF this]
  have "distinct (map mb_minute_epoch (filter (\<lambda>b. mb_minute_epoch b \<noteq> 0) (br_buckets ring)))"
    unfolding ring_snapshot_minutes ..
  moreover have "mset (map mb_minute_epoch (ring_snapshot ring)) =
      mset (map mb_minute_epoch (filter (\<lambda>b. mb_minute_epoch b \<noteq> 0) (br_buckets ring)))"
    by (simp add: ring_snapshot_def)
  ultimately have "distinct (map mb_minute_epoch (ring_snapshot ring))"
    using mset_eq_imp_distinct_iff by blast
  then show ?thesis by (simp add: strict_sorted_iff ring_snapshot_def)
qed

lemma visible_slot:
  assumes "ring_holds n ring h"
  shows "b \<in> set (ring_snapshot ring) \<longleftrightarrow> (\<exists>m \<in> visible h n. h m = Some b)"
proof
  assume "b \<in> set (ring_snapshot ring)"
  then obtain i where i: "i < n" "b = slot_of h n i" "mb_minute_epoch b \<noteq> 0"
    using assms by (auto simp: ring_snapshot_def ring_holds_def in_set_conv_nth)
  then have ne: "rivals h n i \<noteq> {}" by (auto simp: slot_of_def split: if_splits)
  let ?m = "Max (rivals h n i)"
  have "?m \<in> rivals h n i" using ne by (simp add: Max_in)
  then obtain b' where m: "h ?m = Some b'" "unat ?m mod n = i" by (auto simp: rivals_def)
  then have b: "b' = b" using i(2) ne by (simp add: slot_of_def)
  have "\<not> ?m < m'" if "m' \<in> dom h" "unat m' mod n = i" for m'
    using that by (simp add: rivals_def not_less)
  moreover have "?m \<noteq> 0"
    using i ne slot_of_minute [of h n i] assms by (auto simp: ring_holds_def)
  ultimately have "?m \<in> visible h n \<and> h ?m = Some b"
    using m b by (auto simp: visible_def)
  then show "\<exists>m \<in> visible h n. h m = Some b" by blast
next
  assume "\<exists>m \<in> visible h n. h m = Some b"
  then obtain m where m: "m \<in> visible h n" "h m = Some b" by blast
  let ?i = "unat m mod n"
  have "m' \<le> m" if "m' \<in> rivals h n ?i" for m'
    using that m(1) by (force simp: rivals_def visible_def not_le [symmetric])
  then have "Max (rivals h n ?i) = m"
    using m by (intro Max_eqI) (auto simp: rivals_def)
  then have "slot_of h n ?i = b" using m by (auto simp: slot_of_def rivals_def)
  then have "br_buckets ring ! ?i = b" "?i < length (br_buckets ring)"
    using assms by (auto simp: ring_holds_def)
  moreover have "mb_minute_epoch b \<noteq> 0"
    using m assms by (auto simp: visible_def ring_holds_def dated_def)
  ultimately show "b \<in> set (ring_snapshot ring)" by (auto simp: ring_snapshot_def)
qed

lemma ring_snapshot_history:
  assumes "ring_holds n ring h"
  shows "ring_snapshot ring = map (\<lambda>m. the (h m)) (sorted_list_of_set (visible h n))"
proof -
  have dated: "\<forall>m b. h m = Some b \<longrightarrow> mb_minute_epoch b = m"
    using assms by (auto simp: ring_holds_def dated_def)
  then have "m \<in> mb_minute_epoch ` set (ring_snapshot ring) \<longleftrightarrow> m \<in> visible h n" for m
    using visible_slot [OF assms] by (fastforce simp: image_iff visible_def)
  then have "set (map mb_minute_epoch (ring_snapshot ring)) = visible h n" by auto
  then have minutes: "map mb_minute_epoch (ring_snapshot ring) = sorted_list_of_set (visible h n)"
    using ring_snapshot_ascending [OF assms]
    by (metis sorted_list_of_set.idem_if_sorted_distinct strict_sorted_iff)
  have "the (h (mb_minute_epoch b)) = b" if "b \<in> set (ring_snapshot ring)" for b
    using that dated by (auto simp: visible_slot [OF assms])
  then have "ring_snapshot ring = map (\<lambda>b. the (h (mb_minute_epoch b))) (ring_snapshot ring)"
    by (simp add: map_idI)
  then show ?thesis unfolding minutes [symmetric] map_map o_def .
qed

text \<open>C19: The ring never panics and implements the unbounded history: after any sequence of
  rollups whose minutes do not go backwards, the snapshot is exactly the history's buckets,
  in ascending order, of the minutes that no later minute has displaced from their slot.\<close>

theorem ring_refines_history:
  assumes "sorted_wrt (\<le>) (map (\<lambda>e. fst e div 60) evs)"
    and "h = hist_run Map.empty totals_default evs"
  shows "\<exists>ring' p'. ring_run (ring_new w) totals_default evs = Some (ring', p') \<and>
    length (br_buckets ring') = max w 1 \<and>
    ring_snapshot ring' = map (\<lambda>m. the (h m)) (sorted_list_of_set (visible h (max w 1)))"
proof -
  from ring_run_refines [OF ring_new_holds [of w] assms(1), of totals_default]
  obtain ring' p' where "ring_run (ring_new w) totals_default evs = Some (ring', p')"
    and holds: "ring_holds (max w 1) ring' h"
    unfolding assms(2) by auto
  then show ?thesis using ring_snapshot_history [OF holds] by (auto simp: ring_holds_def)
qed

theorem ring_refines_history_witness:
  "\<exists>ring' p'. ring_run (ring_new 2) totals_default [(60, totals_default), (130, totals_default)] =
      Some (ring', p') \<and> length (br_buckets ring') = 2 \<and>
    ring_snapshot ring' = map (\<lambda>m. the (hist_run Map.empty totals_default
      [(60, totals_default), (130, totals_default)] m))
      (sorted_list_of_set (visible (hist_run Map.empty totals_default
        [(60, totals_default), (130, totals_default)]) 2))"
proof -
  have "sorted_wrt (\<le>) (map (\<lambda>e. fst e div 60) [(60 :: u64, totals_default), (130, totals_default)])"
    by simp
  moreover have "max 2 1 = (2 :: nat)" by simp
  ultimately show ?thesis using ring_refines_history [OF _ refl, of _ 2] by metis
qed

section \<open>What a bucket counts\<close>

text \<open>A byte or connection counter of the bucket and the totals it accumulates.\<close>

lemma hist_run_append:
  "hist_run h p (evs @ evs') = hist_run (hist_run h p evs) (last (p # map snd evs)) evs'"
proof (induction evs arbitrary: h p)
  case (Cons e evs)
  then show ?case by (cases e) simp
qed simp

lemma hist_run_other:
  assumes "\<forall>e \<in> set evs. fst e div 60 \<noteq> m"
  shows "hist_run h p evs m = h m"
  using assms
proof (induction evs arbitrary: h p)
  case (Cons e evs)
  then show ?case by (cases e) (auto simp: hist_rollup_def Let_def)
qed simp

locale delta_counter =
  fixes total :: "aggregate_totals \<Rightarrow> u64"
    and counted :: "minute_bucket \<Rightarrow> u64"
  assumes counted_accumulate:
      "counted (accumulate t p b) = counted b + saturating_sub (total t) (total p)"
    and counted_fresh: "counted (fresh_bucket m) = 0"
begin

text \<open>While the totals do not shrink and all rollups fall into minute \<open>m\<close>, the bucket of
  \<open>m\<close> holds the growth of the total since the minute began.\<close>

lemma counted_within:
  assumes "\<forall>e \<in> set evs. fst e div 60 = m" and "sorted_wrt (\<le>) (map total (p # map snd evs))"
    and "h m = Some b" and "unat (counted b) = unat (total p) - unat base" and "base \<le> total p"
  shows "\<exists>b'. hist_run h p evs m = Some b' \<and>
    unat (counted b') = unat (total (last (p # map snd evs))) - unat base"
  using assms
proof (induction evs arbitrary: h p b)
  case Nil
  then show ?case by simp
next
  case (Cons e evs)
  obtain now t where e: "e = (now, t)" by (cases e)
  let ?b = "accumulate t p b"
  have le: "total p \<le> total t" using Cons.prems(2) e by simp
  then have "unat (counted b) + unat (saturating_sub (total t) (total p)) = unat (total t) - unat base"
    using Cons.prems(4,5) by (simp add: unat_saturating_sub word_le_nat_alt)
  moreover from this have "unat (counted b) + unat (saturating_sub (total t) (total p)) < 2 ^ 64"
    using unat_u64 [of "total t"] by simp
  ultimately have "unat (counted ?b) = unat (total t) - unat base"
    by (simp add: counted_accumulate unat_plus_no_wrap)
  moreover have "hist_rollup h now t p m = Some ?b"
    using Cons.prems(1,3) e by (auto simp: hist_rollup_def Let_def)
  ultimately show ?case
    using Cons.IH [of t "hist_rollup h now t p" ?b] Cons.prems(1,2,5) e le by auto
qed

lemma counted_minute:
  assumes "evs = pre @ mid @ post" and "mid \<noteq> []"
    and "\<forall>e \<in> set mid. fst e div 60 = m" and "\<forall>e \<in> set pre \<union> set post. fst e div 60 \<noteq> m"
    and "sorted_wrt (\<le>) (map total (p # map snd evs))" and "h m = None"
    and "hist_run h p evs m = Some b"
  shows "unat (counted b) =
    unat (total (snd (last mid))) - unat (total (last (p # map snd pre)))"
  using assms
proof (induction pre arbitrary: evs h p)
  case Nil
  obtain now t mid' where mid: "mid = (now, t) # mid'" using Nil.prems(2) by (cases mid) auto
  let ?h = "hist_rollup h now t p"
  let ?b = "accumulate t p (fresh_bucket m)"
  have "?h m = Some ?b" using Nil.prems(3,6) mid by (auto simp: hist_rollup_def Let_def)
  moreover have le: "total p \<le> total t" using Nil.prems(1,5) mid by simp
  moreover have "unat (counted ?b) = unat (total t) - unat (total p)"
    by (simp add: counted_accumulate counted_fresh unat_saturating_sub)
  moreover have "sorted_wrt (\<le>) (map total (t # map snd mid'))"
    using Nil.prems(1,5) mid by (simp add: sorted_wrt_append)
  ultimately obtain b' where b': "hist_run ?h t mid' m = Some b'"
    "unat (counted b') = unat (total (last (t # map snd mid'))) - unat (total p)"
    using counted_within [of mid' m t ?h ?b "total p"] Nil.prems(3) mid by auto
  have "hist_run h p (mid @ post) m = hist_run ?h t mid' m"
    using Nil.prems(4) mid hist_run_append [of ?h t mid' post]
    by (simp add: hist_run_other)
  with b' Nil.prems(1,7) mid show ?case by (simp add: last_map split: if_splits)
next
  case (Cons e pre)
  obtain now t where e: "e = (now, t)" by (cases e)
  have "hist_rollup h now t p m = None"
    using Cons.prems(4,6) e by (auto simp: hist_rollup_def Let_def)
  then show ?case
    using Cons.IH [of "pre @ mid @ post" t "hist_rollup h now t p"] Cons.prems e by auto
qed

end

text \<open>A peak of the bucket: the largest value of the gauge seen by a rollup of the minute.\<close>

locale peak_counter =
  fixes total :: "aggregate_totals \<Rightarrow> u64"
    and counted :: "minute_bucket \<Rightarrow> u64"
  assumes counted_accumulate: "counted (accumulate t p b) = max (counted b) (total t)"
    and counted_fresh: "counted (fresh_bucket m) = 0"
begin

lemma peak_within:
  assumes "\<forall>e \<in> set evs. fst e div 60 = m" and "h m = Some b"
  shows "\<exists>b'. hist_run h p evs m = Some b' \<and>
    counted b' = fold max (map (total \<circ> snd) evs) (counted b)"
  using assms
proof (induction evs arbitrary: h p b)
  case Nil
  then show ?case by simp
next
  case (Cons e evs)
  obtain now t where e: "e = (now, t)" by (cases e)
  have "hist_rollup h now t p m = Some (accumulate t p b)"
    using Cons.prems e by (auto simp: hist_rollup_def Let_def)
  then show ?case
    using Cons.IH [of "hist_rollup h now t p" "accumulate t p b" t] Cons.prems(1) e
    by (simp add: counted_accumulate max.commute)
qed

lemma peak_minute:
  assumes "evs = pre @ mid @ post" and "mid \<noteq> []"
    and "\<forall>e \<in> set mid. fst e div 60 = m" and "\<forall>e \<in> set pre \<union> set post. fst e div 60 \<noteq> m"
    and "h m = None" and "hist_run h p evs m = Some b"
  shows "counted b = Max ((total \<circ> snd) ` set mid)"
proof -
  obtain now t mid' where mid: "mid = (now, t) # mid'" using assms(2) by (cases mid) auto
  let ?q = "last (p # map snd pre)"
  let ?g = "hist_rollup (hist_run h p pre) now t ?q"
  have first: "?g m = Some (accumulate t ?q (fresh_bucket m))"
    using assms(3,4,5) mid by (simp add: hist_rollup_def Let_def hist_run_other)
  have "\<forall>e \<in> set mid'. fst e div 60 = m" using assms(3) mid by simp
  from peak_within [of mid' m ?g _ t, OF this first] obtain b' where b': "hist_run ?g t mid' m = Some b'"
    "counted b' = fold max (map (total \<circ> snd) mid') (max 0 (total t))"
    by (auto simp: counted_accumulate counted_fresh)
  have "hist_run h p evs m = hist_run ?g t mid' m"
    using assms(1,4) mid by (simp add: hist_run_append hist_run_other del: last.simps)
  with b' assms(6) have "counted b = fold max (map (total \<circ> snd) mid') (total t)" by simp
  also have "\<dots> = Max (set (total t # map (total \<circ> snd) mid'))"
    by (rule Max.set_eq_fold [symmetric])
  finally show ?thesis using mid by simp
qed

end

lemmas accumulate_eval =
  accumulate_def fresh_bucket_def bucket_default_def

interpretation new_conn: delta_counter at_tcp_accepted mb_tcp_new_conn
  by unfold_locales (simp_all add: accumulate_eval)

interpretation tcp_in: delta_counter at_tcp_in_bytes mb_tcp_in_bytes
  by unfold_locales (simp_all add: accumulate_eval)

interpretation tcp_out: delta_counter at_tcp_out_bytes mb_tcp_out_bytes
  by unfold_locales (simp_all add: accumulate_eval)

interpretation udp_in: delta_counter at_udp_in_bytes mb_udp_in_bytes
  by unfold_locales (simp_all add: accumulate_eval)

interpretation udp_out: delta_counter at_udp_out_bytes mb_udp_out_bytes
  by unfold_locales (simp_all add: accumulate_eval)

interpretation tcp_peak: peak_counter at_tcp_active mb_tcp_active_peak
  by unfold_locales (simp_all add: accumulate_eval)

interpretation flow_peak: peak_counter at_udp_active_flows mb_udp_active_flows_peak
  by unfold_locales (simp_all add: accumulate_eval)

section \<open>The recent minutes\<close>

definition totals_grow :: "aggregate_totals \<Rightarrow> aggregate_totals \<Rightarrow> bool" where
  "totals_grow t t' \<longleftrightarrow>
     at_tcp_accepted t \<le> at_tcp_accepted t' \<and> at_tcp_in_bytes t \<le> at_tcp_in_bytes t' \<and>
     at_tcp_out_bytes t \<le> at_tcp_out_bytes t' \<and> at_udp_in_bytes t \<le> at_udp_in_bytes t' \<and>
     at_udp_out_bytes t \<le> at_udp_out_bytes t'"

definition bucket_counts :: "minute_bucket \<Rightarrow> aggregate_totals \<Rightarrow> aggregate_totals \<Rightarrow> bool" where
  "bucket_counts b t0 t1 \<longleftrightarrow>
     unat (mb_tcp_new_conn b) = unat (at_tcp_accepted t1) - unat (at_tcp_accepted t0) \<and>
     unat (mb_tcp_in_bytes b) = unat (at_tcp_in_bytes t1) - unat (at_tcp_in_bytes t0) \<and>
     unat (mb_tcp_out_bytes b) = unat (at_tcp_out_bytes t1) - unat (at_tcp_out_bytes t0) \<and>
     unat (mb_udp_in_bytes b) = unat (at_udp_in_bytes t1) - unat (at_udp_in_bytes t0) \<and>
     unat (mb_udp_out_bytes b) = unat (at_udp_out_bytes t1) - unat (at_udp_out_bytes t0)"

lemma totals_grow_sorted:
  assumes "sorted_wrt totals_grow ts"
  shows "sorted_wrt (\<le>) (map at_tcp_accepted ts)" and "sorted_wrt (\<le>) (map at_tcp_in_bytes ts)"
    and "sorted_wrt (\<le>) (map at_tcp_out_bytes ts)" and "sorted_wrt (\<le>) (map at_udp_in_bytes ts)"
    and "sorted_wrt (\<le>) (map at_udp_out_bytes ts)"
  using assms by (auto simp: sorted_wrt_map totals_grow_def elim: sorted_wrt_mono_rel [rotated])

lemma dom_hist_run: "dom (hist_run h p evs) = dom h \<union> (\<lambda>e. fst e div 60) ` set evs"
proof (induction evs arbitrary: h p)
  case (Cons e evs)
  then show ?case by (cases e) (auto simp: dom_hist_rollup)
qed simp

lemma other_slot:
  fixes a b n :: nat
  assumes "a < b" and "b < a + n"
  shows "b mod n \<noteq> a mod n"
proof
  assume "b mod n = a mod n"
  then have "n dvd b - a" using assms(1) by (simp add: mod_eq_dvd_iff_nat)
  then have "n \<le> b - a" using assms(1) by (auto dest: dvd_imp_le)
  with assms show False by simp
qed

lemma minute_visible:
  assumes "evs = pre @ mid @ post" and "mid \<noteq> []" and "\<forall>e \<in> set mid. fst e div 60 = m"
    and "sorted_wrt (\<le>) (map (\<lambda>e. fst e div 60) evs)" and "m \<noteq> 0"
    and "\<forall>e \<in> set post. unat (fst e div 60) < unat m + n"
  shows "m \<in> visible (hist_run Map.empty p evs) n"
proof -
  obtain e where e: "e \<in> set mid" "fst e div 60 = m" using assms(2,3) by (cases mid) auto
  have "x \<in> set post" if x: "x \<in> set evs" "m < fst x div 60" for x
  proof (rule ccontr)
    assume "x \<notin> set post"
    with x(1) assms(1) consider "x \<in> set pre" | "x \<in> set mid" by auto
    then have "fst x div 60 \<le> m"
    proof cases
      case 1
      with assms(1,4) e show ?thesis by (auto simp: sorted_wrt_append)
    next
      case 2
      with assms(3) show ?thesis by simp
    qed
    with x(2) show False by simp
  qed
  then have "unat m' mod n \<noteq> unat m mod n" if "m' \<in> (\<lambda>e. fst e div 60) ` set evs" "m < m'" for m'
    using that assms(6) other_slot [of "unat m" "unat m'" n] by (auto simp: word_less_nat_alt)
  moreover have "m \<in> (\<lambda>e. fst e div 60) ` set evs" using e assms(1) by force
  ultimately show ?thesis using assms(5) by (auto simp: visible_def dom_hist_run)
qed

text \<open>C28: Conservation over the window. Take any run of rollups with non-decreasing minutes and
  non-decreasing totals, and a minute \<open>m\<close> that is no more than the window behind the last
  rollup. Then the snapshot has a bucket for \<open>m\<close>; its counters are exactly what was added
  between the last rollup before the minute and the last rollup in it, and its peaks are the
  largest gauge values that a rollup of the minute saw.\<close>

theorem ring_window_counts:
  assumes "evs = pre @ mid @ post" and "mid \<noteq> []" and "m \<noteq> 0"
    and "\<forall>e \<in> set mid. fst e div 60 = m" and "\<forall>e \<in> set pre \<union> set post. fst e div 60 \<noteq> m"
    and "sorted_wrt (\<le>) (map (\<lambda>e. fst e div 60) evs)"
    and "sorted_wrt totals_grow (totals_default # map snd evs)"
    and "\<forall>e \<in> set post. unat (fst e div 60) < unat m + max w 1"
    and "ring_run (ring_new w) totals_default evs = Some (ring', p')"
  shows "\<exists>b \<in> set (ring_snapshot ring'). mb_minute_epoch b = m \<and>
    bucket_counts b (last (totals_default # map snd pre)) (snd (last mid)) \<and>
    mb_tcp_active_peak b = Max ((at_tcp_active \<circ> snd) ` set mid) \<and>
    mb_udp_active_flows_peak b = Max ((at_udp_active_flows \<circ> snd) ` set mid)"
proof -
  let ?h = "hist_run Map.empty totals_default evs"
  from ring_run_refines [OF ring_new_holds [of w] assms(6), of totals_default] assms(9)
  have holds: "ring_holds (max w 1) ring' ?h" by simp
  have vis: "m \<in> visible ?h (max w 1)"
    using minute_visible [OF assms(1,2,4,6,3,8)] .
  then obtain b where b: "?h m = Some b" by (auto simp: visible_def)
  with vis have "b \<in> set (ring_snapshot ring')" using visible_slot [OF holds] by blast
  moreover have "mb_minute_epoch b = m" using holds b by (auto simp: ring_holds_def dated_def)
  moreover have empty: "(Map.empty :: history) m = None" by simp
  note minute = assms(1,2,4,5)
  note grow = totals_grow_sorted [OF assms(7)]
  have "bucket_counts b (last (totals_default # map snd pre)) (snd (last mid))"
    using new_conn.counted_minute [OF minute grow(1) empty b] tcp_in.counted_minute [OF minute grow(2) empty b]
      tcp_out.counted_minute [OF minute grow(3) empty b] udp_in.counted_minute [OF minute grow(4) empty b]
      udp_out.counted_minute [OF minute grow(5) empty b]
    by (simp add: bucket_counts_def)
  moreover note tcp_peak.peak_minute [OF minute empty b] flow_peak.peak_minute [OF minute empty b]
  ultimately show ?thesis by blast
qed

theorem ring_window_counts_witness:
  "\<exists>ring' p'. ring_run (ring_new 4) totals_default
     [(60, totals_default\<lparr>at_tcp_in_bytes := 10, at_tcp_active := 1\<rparr>),
      (120, totals_default\<lparr>at_tcp_in_bytes := 15\<rparr>)] = Some (ring', p') \<and>
    (\<exists>b \<in> set (ring_snapshot ring'). mb_minute_epoch b = 2 \<and> unat (mb_tcp_in_bytes b) = 5)"
proof -
  let ?e1 = "(60 :: u64, totals_default\<lparr>at_tcp_in_bytes := 10, at_tcp_active := 1\<rparr>)"
  let ?e2 = "(120 :: u64, totals_default\<lparr>at_tcp_in_bytes := 15\<rparr>)"
  have minutes: "sorted_wrt (\<le>) (map (\<lambda>e. fst e div 60) [?e1, ?e2])" by simp
  obtain ring' p' where run: "ring_run (ring_new 4) totals_default [?e1, ?e2] = Some (ring', p')"
    using ring_run_refines [OF ring_new_holds [of 4] minutes, of totals_default] by auto
  have grow: "sorted_wrt totals_grow (totals_default # map snd [?e1, ?e2])"
    by (simp add: totals_grow_def totals_default_def)
  have "\<exists>b \<in> set (ring_snapshot ring'). mb_minute_epoch b = 2 \<and>
    bucket_counts b (last (totals_default # map snd [?e1])) (snd (last [?e2])) \<and>
    mb_tcp_active_peak b = Max ((at_tcp_active \<circ> snd) ` set [?e2]) \<and>
    mb_udp_active_flows_peak b = Max ((at_udp_active_flows \<circ> snd) ` set [?e2])"
    by (rule ring_window_counts [OF _ _ _ _ _ minutes grow _ run, of _ _ "[]"]) simp_all
  then show ?thesis using run by (auto simp: bucket_counts_def)
qed

end
