(* ===== verification/Stats_Registry.thy ===== *)
theory Stats_Registry
  imports Rust_Str Ordered Port_Stats Bucket_Ring
begin

text \<open>
  \<open>src/src/stats/mod.rs\<close>: the registry of the ports' counters with its ring of minute
  buckets. An \<open>Arc<PortStats>\<close> that \<open>port\<close> hands out is a reference to the entry of its
  port: the model's handle is the port, and an operation through the handle modifies the
  entry (\<open>port_op\<close>). The clock is an argument. A panic is \<^const>\<open>None\<close>.
\<close>

section \<open>The code\<close>

record stats_registry =
  sr_target :: str
  sr_started_at_epoch :: u64
  sr_window_minutes :: nat
  sr_ports :: "(u16 \<times> port_stats) list"
  sr_buckets :: bucket_ring
  sr_previous_totals :: aggregate_totals

record stats_snapshot =
  ss_target :: str
  ss_started_at_epoch :: u64
  ss_generated_at_epoch :: u64
  ss_window_minutes :: nat
  ss_totals :: aggregate_totals
  ss_ports :: "port_snapshot list"
  ss_minute_buckets :: "minute_bucket list"

definition registry_new :: "u64 \<Rightarrow> u16 list \<Rightarrow> str \<Rightarrow> nat \<Rightarrow> stats_registry" where
  "registry_new unix_now listen_ports target window_minutes =
     \<lparr>sr_target = target, sr_started_at_epoch = unix_now, sr_window_minutes = window_minutes,
      sr_ports = btm_collect (map (\<lambda>port. (port, port_stats_new port)) listen_ports),
      sr_buckets = ring_new window_minutes, sr_previous_totals = totals_default\<rparr>"

definition registry_port :: "stats_registry \<Rightarrow> u16 \<Rightarrow> u16 option" where
  "registry_port reg port = map_option (\<lambda>_. port) (btm_get (sr_ports reg) port)"

definition port_op :: "u16 \<Rightarrow> stats_op \<Rightarrow> stats_registry \<Rightarrow> stats_registry" where
  "port_op port op reg = reg\<lparr>sr_ports := btm_modify port (stats_apply op) (sr_ports reg)\<rparr>"

definition add_snapshot :: "aggregate_totals \<Rightarrow> port_snapshot \<Rightarrow> aggregate_totals" where
  "add_snapshot totals snapshot = totals
     \<lparr>at_tcp_accepted := at_tcp_accepted totals + sn_tcp_accepted snapshot,
      at_tcp_active := at_tcp_active totals + sn_tcp_active snapshot,
      at_tcp_closed := at_tcp_closed totals + sn_tcp_closed snapshot,
      at_udp_active_flows := at_udp_active_flows totals + sn_udp_active_flows snapshot,
      at_tcp_in_bytes := at_tcp_in_bytes totals + sn_tcp_in_bytes snapshot,
      at_tcp_out_bytes := at_tcp_out_bytes totals + sn_tcp_out_bytes snapshot,
      at_udp_in_bytes := at_udp_in_bytes totals + sn_udp_in_bytes snapshot,
      at_udp_out_bytes := at_udp_out_bytes totals + sn_udp_out_bytes snapshot,
      at_udp_dropped := at_udp_dropped totals + sn_udp_dropped snapshot\<rparr>"

definition aggregate_from_snapshots :: "port_snapshot list \<Rightarrow> aggregate_totals" where
  "aggregate_from_snapshots port_snapshots = foldl add_snapshot totals_default port_snapshots"

definition registry_snapshot :: "u64 \<Rightarrow> stats_registry \<Rightarrow> stats_snapshot" where
  "registry_snapshot unix_now reg =
     (let port_snapshots = map port_stats_snapshot (btm_values (sr_ports reg)) in
      \<lparr>ss_target = sr_target reg, ss_started_at_epoch = sr_started_at_epoch reg,
       ss_generated_at_epoch = unix_now, ss_window_minutes = sr_window_minutes reg,
       ss_totals = aggregate_from_snapshots port_snapshots, ss_ports = port_snapshots,
       ss_minute_buckets = ring_snapshot (sr_buckets reg)\<rparr>)"

definition current_totals :: "(u16 \<times> port_stats) list \<Rightarrow> aggregate_totals" where
  "current_totals ports = aggregate_from_snapshots (map port_stats_snapshot (btm_values ports))"

definition rollup_at_epoch :: "u64 \<Rightarrow> stats_registry \<Rightarrow> stats_registry option" where
  "rollup_at_epoch now_epoch_seconds reg =
     (case rollup (sr_buckets reg) now_epoch_seconds (current_totals (sr_ports reg))
             (sr_previous_totals reg) of
        None \<Rightarrow> None
      | Some (buckets, previous_totals) \<Rightarrow>
          Some (reg\<lparr>sr_buckets := buckets, sr_previous_totals := previous_totals\<rparr>))"

text \<open>The system clock in nanoseconds relative to the Unix epoch; before it the code panics.\<close>

definition unix_timestamp_now :: "int \<Rightarrow> u64 option" where
  "unix_timestamp_now clock = (if clock < 0 then None else Some (of_int (clock div 1000000000)))"

definition rollup_now :: "int \<Rightarrow> stats_registry \<Rightarrow> stats_registry option" where
  "rollup_now clock reg =
     (case unix_timestamp_now clock of None \<Rightarrow> None | Some now \<Rightarrow> rollup_at_epoch now reg)"

text \<open>The rollup task: what its \<open>select!\<close> sees, with the clock there, and what other tasks do to the
  counters in the meantime. The result says if it has returned.\<close>

datatype rollup_event = Meanwhile u16 stats_op | RollupTick int | RollupShutdown int

fun run_rollup :: "rollup_event list \<Rightarrow> stats_registry \<Rightarrow> (stats_registry \<times> bool) option" where
  "run_rollup [] reg = Some (reg, False)"
| "run_rollup (Meanwhile port op # evs) reg = run_rollup evs (port_op port op reg)"
| "run_rollup (RollupTick clock # evs) reg =
     (case rollup_now clock reg of None \<Rightarrow> None | Some reg' \<Rightarrow> run_rollup evs reg')"
| "run_rollup (RollupShutdown clock # evs) reg =
     (case rollup_now clock reg of None \<Rightarrow> None | Some reg' \<Rightarrow> Some (reg', True))"

text \<open>What happens to a registry: operations through the ports' handles, and the rollups of
  \<open>run_rollup\<close>, one at every tick and one more after the shutdown.\<close>

datatype registry_event = PortOp u16 stats_op | Rollup u64

fun registry_step :: "registry_event \<Rightarrow> stats_registry \<Rightarrow> stats_registry option" where
  "registry_step (PortOp port op) reg = Some (port_op port op reg)"
| "registry_step (Rollup now) reg = rollup_at_epoch now reg"

fun registry_run :: "registry_event list \<Rightarrow> stats_registry \<Rightarrow> stats_registry option" where
  "registry_run [] reg = Some reg"
| "registry_run (e # evs) reg =
     (case registry_step e reg of None \<Rightarrow> None | Some reg' \<Rightarrow> registry_run evs reg')"

section \<open>Ports\<close>

lemma registry_new_ports:
  "btm_get (sr_ports (registry_new now ports target w)) p =
     (if p \<in> set ports then Some (port_stats_new p) else None)"
proof -
  have "map_of (map (\<lambda>port. (port, port_stats_new port)) xs) p =
      (if p \<in> set xs then Some (port_stats_new p) else None)" for xs
    by (induction xs) auto
  from this [of "rev ports"] show ?thesis
    by (simp add: registry_new_def btm_get_collect rev_map)
qed

lemma registry_run_ports:
  assumes "registry_run evs reg = Some reg'"
  shows "map fst (sr_ports reg') = map fst (sr_ports reg)"
  using assms
proof (induction evs arbitrary: reg)
  case (Cons e evs)
  then show ?case
    by (cases e) (auto simp: port_op_def rollup_at_epoch_def split: option.splits prod.splits)
qed simp

lemma btm_get_keys: "btm_get m k \<noteq> None \<longleftrightarrow> k \<in> set (map fst m)"
  by (auto simp: btm_get_def map_of_eq_None_iff)

text \<open>The registry knows exactly the ports it was built with, for ever: asking for the handle
  of a listen port never panics, asking for any other port always does, and the snapshot
  lists the ports in ascending order, once each.\<close>

lemma registry_ports:
  assumes "registry_run evs (registry_new now ports target w) = Some reg"
  shows "(registry_port reg p = Some p \<longleftrightarrow> p \<in> set ports) \<and>
    (registry_port reg p = None \<longleftrightarrow> p \<notin> set ports) \<and>
    map fst (sr_ports reg) = sorted_list_of_set (set ports) \<and>
    length (ss_ports (registry_snapshot unix_now reg)) = card (set ports)"
proof -
  have keys: "map fst (sr_ports reg) = sorted_list_of_set (set ports)"
    using registry_run_ports [OF assms]
    by (simp add: registry_new_def btm_collect_keys o_def)
  then have "btm_get (sr_ports reg) p \<noteq> None \<longleftrightarrow> p \<in> set ports"
    unfolding btm_get_keys by simp
  moreover have "length (sr_ports reg) = card (set ports)"
    using arg_cong [OF keys, of length] by simp
  ultimately show ?thesis using keys
    by (auto simp: registry_port_def registry_snapshot_def btm_values_def Let_def)
qed

section \<open>Totals\<close>

lemma add_snapshot_fields:
  "at_tcp_accepted (foldl add_snapshot t sns) = at_tcp_accepted t + sum_list (map sn_tcp_accepted sns)"
  "at_tcp_active (foldl add_snapshot t sns) = at_tcp_active t + sum_list (map sn_tcp_active sns)"
  "at_tcp_closed (foldl add_snapshot t sns) = at_tcp_closed t + sum_list (map sn_tcp_closed sns)"
  "at_udp_active_flows (foldl add_snapshot t sns) = at_udp_active_flows t + sum_list (map sn_udp_active_flows sns)"
  "at_tcp_in_bytes (foldl add_snapshot t sns) = at_tcp_in_bytes t + sum_list (map sn_tcp_in_bytes sns)"
  "at_tcp_out_bytes (foldl add_snapshot t sns) = at_tcp_out_bytes t + sum_list (map sn_tcp_out_bytes sns)"
  "at_udp_in_bytes (foldl add_snapshot t sns) = at_udp_in_bytes t + sum_list (map sn_udp_in_bytes sns)"
  "at_udp_out_bytes (foldl add_snapshot t sns) = at_udp_out_bytes t + sum_list (map sn_udp_out_bytes sns)"
  "at_udp_dropped (foldl add_snapshot t sns) = at_udp_dropped t + sum_list (map sn_udp_dropped sns)"
  by (induction sns arbitrary: t) (simp_all add: add_snapshot_def add.assoc)

lemma aggregate_fields:
  "at_tcp_accepted (current_totals ports) = sum_list (map (\<lambda>e. ps_tcp_accepted (snd e)) ports)"
  "at_tcp_active (current_totals ports) = sum_list (map (\<lambda>e. ps_tcp_active (snd e)) ports)"
  "at_tcp_closed (current_totals ports) = sum_list (map (\<lambda>e. ps_tcp_closed (snd e)) ports)"
  "at_udp_active_flows (current_totals ports) = sum_list (map (\<lambda>e. ps_udp_active_flows (snd e)) ports)"
  "at_tcp_in_bytes (current_totals ports) = sum_list (map (\<lambda>e. ps_tcp_in_bytes (snd e)) ports)"
  "at_tcp_out_bytes (current_totals ports) = sum_list (map (\<lambda>e. ps_tcp_out_bytes (snd e)) ports)"
  "at_udp_in_bytes (current_totals ports) = sum_list (map (\<lambda>e. ps_udp_in_bytes (snd e)) ports)"
  "at_udp_out_bytes (current_totals ports) = sum_list (map (\<lambda>e. ps_udp_out_bytes (snd e)) ports)"
  "at_udp_dropped (current_totals ports) = sum_list (map (\<lambda>e. ps_udp_dropped (snd e)) ports)"
  by (simp_all add: current_totals_def aggregate_from_snapshots_def add_snapshot_fields
      totals_default_def btm_values_def port_stats_snapshot_def o_def)

lemma unat_sum_list:
  fixes ws :: "u64 list"
  assumes "sum_list (map unat ws) < 2 ^ 64"
  shows "unat (sum_list ws) = sum_list (map unat ws)"
  using assms
proof (induction ws)
  case (Cons w ws)
  then show ?case by (simp add: unat_plus_no_wrap)
qed simp

end
