(* ===== verification/Stats_Flow.thy ===== *)
theory Stats_Flow
  imports Stats_Registry
begin

text \<open>
  End to end through the statistics: what the ports' operations add, the totals the rollup
  task reads, and the buckets the snapshot serves. The locale \<open>registry_counter\<close> is the
  contract of one counter on this way (a counter of the port, its field of the totals, its
  field of the bucket); it extends the contract of the ring's counters and is interpreted on
  the five counters of the code.
\<close>

section \<open>A run of the registry as a run of the ring\<close>

fun ports_after :: "registry_event list \<Rightarrow> (u16 \<times> port_stats) list \<Rightarrow> (u16 \<times> port_stats) list" where
  "ports_after [] ps = ps"
| "ports_after (PortOp port op # evs) ps = ports_after evs (btm_modify port (stats_apply op) ps)"
| "ports_after (Rollup now # evs) ps = ports_after evs ps"

fun rollups_of :: "registry_event list \<Rightarrow> (u16 \<times> port_stats) list \<Rightarrow> (u64 \<times> aggregate_totals) list" where
  "rollups_of [] ps = []"
| "rollups_of (PortOp port op # evs) ps = rollups_of evs (btm_modify port (stats_apply op) ps)"
| "rollups_of (Rollup now # evs) ps = (now, current_totals ps) # rollups_of evs ps"

lemma rollup_previous: "rollup ring now t p = Some (ring', p') \<Longrightarrow> p' = t"
  by (auto simp: rollup_def Let_def split: if_splits)

lemma registry_run_ring:
  "registry_run evs reg =
     map_option (\<lambda>(ring, p). reg\<lparr>sr_ports := ports_after evs (sr_ports reg), sr_buckets := ring,
        sr_previous_totals := p\<rparr>)
      (ring_run (sr_buckets reg) (sr_previous_totals reg) (rollups_of evs (sr_ports reg)))"
proof (induction evs arbitrary: reg)
  case (Cons e evs)
  show ?case
  proof (cases e)
    case (PortOp port op)
    then show ?thesis using Cons.IH by (simp add: port_op_def)
  next
    case (Rollup now)
    then show ?thesis
      by (auto simp: rollup_at_epoch_def Cons.IH split: option.splits)
  qed
qed simp

fun rollup_minutes :: "registry_event list \<Rightarrow> u64 list" where
  "rollup_minutes [] = []"
| "rollup_minutes (PortOp port op # evs) = rollup_minutes evs"
| "rollup_minutes (Rollup now # evs) = now div 60 # rollup_minutes evs"

lemma minutes_of_rollups: "map (\<lambda>e. fst e div 60) (rollups_of evs ps) = rollup_minutes evs"
  by (induction evs ps rule: rollups_of.induct) simp_all

lemma rollups_of_append:
  "rollups_of (evs @ evs') ps = rollups_of evs ps @ rollups_of evs' (ports_after evs ps)"
  by (induction evs ps rule: rollups_of.induct) simp_all

lemma ports_after_append: "ports_after (evs @ evs') ps = ports_after evs' (ports_after evs ps)"
  by (induction evs ps rule: ports_after.induct) simp_all

lemma keys_ports_after [simp]: "map fst (ports_after evs ps) = map fst ps"
  by (induction evs ps rule: ports_after.induct) simp_all

section \<open>Nothing is lost while the window holds\<close>

lemma visible_in_window:
  assumes "0 \<notin> dom h" and "\<forall>m \<in> dom h. \<forall>m' \<in> dom h. unat m' < unat m + n"
  shows "visible h n = dom h"
  using assms other_slot by (fastforce simp: visible_def word_less_nat_alt)

context delta_counter
begin

lemma hist_sum_step:
  assumes "finite (dom h)" and "total p \<le> total t"
    and "(\<Sum>m \<in> dom h. unat (counted (the (h m)))) = unat (total p)"
  shows "(\<Sum>m \<in> dom (hist_rollup h now t p). unat (counted (the (hist_rollup h now t p m)))) = unat (total t)"
proof -
  let ?m = "now div 60"
  let ?b = "case h ?m of None \<Rightarrow> fresh_bucket ?m | Some b \<Rightarrow> b"
  let ?d = "unat (total t) - unat (total p)"
  let ?rest = "\<Sum>m \<in> dom h - {?m}. unat (counted (the (h m)))"
  have le: "unat (total p) \<le> unat (total t)" using assms(2) by (simp add: word_le_nat_alt)
  have old: "unat (counted ?b) + ?rest = unat (total p)"
  proof (cases "h ?m")
    case None
    then show ?thesis using assms(3) by (simp add: counted_fresh domIff)
  next
    case (Some b)
    then show ?thesis using assms(1,3) sum.remove [of "dom h" ?m "\<lambda>m. unat (counted (the (h m)))"]
      by (auto simp: domIff)
  qed
  have "unat (counted (accumulate t p ?b)) = unat (counted ?b) + ?d"
    using old le unat_u64 [of "total t"]
    by (simp add: counted_accumulate unat_plus_no_wrap unat_saturating_sub)
  moreover have "(\<Sum>m \<in> dom h - {?m}. unat (counted (the (hist_rollup h now t p m)))) = ?rest"
    by (rule sum.cong) (auto simp: hist_rollup_def Let_def)
  moreover have "the (hist_rollup h now t p ?m) = accumulate t p ?b"
    by (simp add: hist_rollup_def Let_def)
  ultimately show ?thesis
    using old le assms(1) by (simp add: dom_hist_rollup sum.insert_remove)
qed

lemma hist_sum:
  assumes "sorted_wrt (\<le>) (map total (p # map snd evs))" and "finite (dom h)"
    and "(\<Sum>m \<in> dom h. unat (counted (the (h m)))) = unat (total p)"
  shows "(\<Sum>m \<in> dom (hist_run h p evs). unat (counted (the (hist_run h p evs m)))) =
    unat (total (last (p # map snd evs)))"
  using assms
proof (induction evs arbitrary: h p)
  case (Cons e evs)
  obtain now t where e: "e = (now, t)" by (cases e)
  then have "sorted_wrt (\<le>) (map total (t # map snd evs))" "total p \<le> total t"
    using Cons.prems(1) by simp_all
  then show ?case
    using Cons.IH [of t "hist_rollup h now t p"] hist_sum_step [OF Cons.prems(2) _ Cons.prems(3), of t now]
      Cons.prems(2) e
    by (simp add: dom_hist_rollup)
qed simp

lemma snapshot_sum:
  assumes "ring_run (ring_new w) p evs = Some (ring', p')" and "total p = 0"
    and "sorted_wrt (\<le>) (map (\<lambda>e. fst e div 60) evs)"
    and "sorted_wrt (\<le>) (map total (p # map snd evs))"
    and "\<forall>e \<in> set evs. fst e div 60 \<noteq> 0"
    and "\<forall>e \<in> set evs. \<forall>e' \<in> set evs. unat (fst e' div 60) < unat (fst e div 60) + max w 1"
  shows "sum_list (map (unat \<circ> counted) (ring_snapshot ring')) = unat (total (last (p # map snd evs)))"
proof -
  let ?h = "hist_run Map.empty p evs"
  from ring_run_refines [OF ring_new_holds [of w] assms(3), of p] assms(1)
  have holds: "ring_holds (max w 1) ring' ?h" by simp
  have dom: "dom ?h = (\<lambda>e. fst e div 60) ` set evs" by (simp add: dom_hist_run)
  then have vis: "visible ?h (max w 1) = dom ?h"
    using assms(5,6) by (intro visible_in_window) auto
  have "sum_list (map (unat \<circ> counted) (ring_snapshot ring')) =
      (\<Sum>m \<in> dom ?h. unat (counted (the (?h m))))"
    unfolding ring_snapshot_history [OF holds] vis
    by (simp add: sum_list_distinct_conv_sum_set o_def)
  then show ?thesis using hist_sum [OF assms(4), of Map.empty] assms(2) by simp
qed

end

section \<open>A counter from the ports to the buckets\<close>

fun added :: "(stats_op \<Rightarrow> nat) \<Rightarrow> u16 set \<Rightarrow> registry_event list \<Rightarrow> nat" where
  "added grow ports [] = 0"
| "added grow ports (PortOp port op # evs) =
     (if port \<in> ports then grow op else 0) + added grow ports evs"
| "added grow ports (Rollup now # evs) = added grow ports evs"

lemma added_append: "added grow ports (evs @ evs') = added grow ports evs + added grow ports evs'"
  by (induction grow ports evs rule: added.induct) simp_all

locale registry_counter = delta_counter total counted
  for total :: "aggregate_totals \<Rightarrow> u64" and counted :: "minute_bucket \<Rightarrow> u64" +
  fixes level :: "port_stats \<Rightarrow> u64" and grow :: "stats_op \<Rightarrow> nat"
  assumes total_sum: "total (current_totals ps) = sum_list (map (\<lambda>e. level (snd e)) ps)"
    and level_apply: "level (stats_apply op s) = level s + of_nat (grow op)"
    and level_new: "level (port_stats_new port) = 0"
    and total_default: "total totals_default = 0"
begin

lemma sum_modify:
  assumes "distinct (map fst ps)"
  shows "sum_list (map (\<lambda>e. level (snd e)) (btm_modify port (stats_apply op) ps)) =
    sum_list (map (\<lambda>e. level (snd e)) ps) + (if port \<in> set (map fst ps) then of_nat (grow op) else 0)"
  using assms
proof (induction ps)
  case (Cons e ps)
  have "btm_modify port (stats_apply op) ps = ps" if "port \<notin> set (map fst ps)"
    using that by (induction ps) (auto simp: btm_modify_def)
  then show ?case using Cons
    by (cases "fst e = port") (auto simp: btm_modify_def level_apply case_prod_unfold)
qed (simp add: btm_modify_def)

lemma total_after:
  assumes "distinct (map fst ps)"
  shows "total (current_totals (ports_after evs ps)) =
    total (current_totals ps) + of_nat (added grow (set (map fst ps)) evs)"
  using assms
proof (induction evs ps rule: ports_after.induct)
  case (2 port op evs ps)
  then have "distinct (map fst (btm_modify port (stats_apply op) ps))" by simp
  from "2.IH" [OF this] show ?case using sum_modify [OF "2.prems", of port op]
    unfolding total_sum by (simp add: add.assoc)
qed simp_all

lemma rollups_sorted:
  assumes "distinct (map fst ps)"
    and "unat (total (current_totals ps)) + added grow (set (map fst ps)) evs < 2 ^ 64"
    and "total p \<le> total (current_totals ps)"
  shows "sorted_wrt (\<le>) (map total (p # map snd (rollups_of evs ps)))"
  using assms
proof (induction evs ps arbitrary: p rule: rollups_of.induct)
  case (2 port op evs ps)
  let ?ps = "btm_modify port (stats_apply op) ps"
  let ?g = "if port \<in> set (map fst ps) then grow op else 0"
  have total: "total (current_totals ?ps) = total (current_totals ps) + of_nat ?g"
    using sum_modify [OF "2.prems"(1), of port op] by (simp add: total_sum)
  have "?g < 2 ^ 64" using "2.prems"(2) by simp
  then have "unat (of_nat ?g :: u64) = ?g" by (simp add: unat_of_nat)
  then have u: "unat (total (current_totals ?ps)) = unat (total (current_totals ps)) + ?g"
    unfolding total using "2.prems"(2) by (subst unat_plus_no_wrap) simp_all
  then have "total p \<le> total (current_totals ?ps)"
    using "2.prems"(3) by (simp add: word_le_nat_alt)
  moreover have "unat (total (current_totals ?ps)) + added grow (set (map fst ?ps)) evs < 2 ^ 64"
    using "2.prems"(2) u by simp
  ultimately show ?case using "2.IH" [of p] "2.prems"(1) by simp
next
  case (3 now evs ps)
  from "3.IH" [of "current_totals ps"] "3.prems" show ?case by auto
qed simp

lemma new_level: "total (current_totals (sr_ports (registry_new start ports target w))) = 0"
proof -
  let ?ps = "sr_ports (registry_new start ports target w)"
  have keys: "distinct (map fst ?ps)" by (simp add: registry_new_def btm_collect_keys o_def)
  have "level (snd e) = 0" if "e \<in> set ?ps" for e
  proof -
    obtain p s where e: "e = (p, s)" by (cases e)
    with that keys have "btm_get ?ps p = Some s" by (simp add: btm_get_def map_of_eq_Some_iff)
    then show ?thesis using e by (auto simp: registry_new_ports level_new split: if_splits)
  qed
  then have "sum_list (map (\<lambda>e. level (snd e)) ?ps) = 0"
    by (simp add: map_idI sum_list_0 cong: map_cong)
  then show ?thesis by (simp add: total_sum)
qed

lemma conserved:
  assumes "registry_run (evs @ [Rollup now]) (registry_new start ports target w) = Some reg"
    and "added grow (set ports) evs < 2 ^ 64"
    and "sorted_wrt (\<le>) (rollup_minutes (evs @ [Rollup now]))"
    and "0 \<notin> set (rollup_minutes (evs @ [Rollup now]))"
    and "\<forall>m \<in> set (rollup_minutes (evs @ [Rollup now])). unat (now div 60) < unat m + max w 1"
  shows "sum_list (map (unat \<circ> counted) (ss_minute_buckets (registry_snapshot t reg))) =
      added grow (set ports) evs \<and>
    unat (total (ss_totals (registry_snapshot t reg))) = added grow (set ports) evs"
proof -
  let ?evs = "evs @ [Rollup now]"
  let ?ps = "sr_ports (registry_new start ports target w)"
  let ?rs = "rollups_of ?evs ?ps"
  have keys: "set (map fst ?ps) = set ports" "distinct (map fst ?ps)"
    by (simp_all add: registry_new_def btm_collect_keys o_def)
  note zero = new_level [of start ports target w]
  have add: "added grow (set (map fst ?ps)) ?evs = added grow (set ports) evs"
    by (simp only: keys added_append) simp
  have sorted: "sorted_wrt (\<le>) (map total (totals_default # map snd ?rs))"
    using assms(2) by (intro rollups_sorted) (simp_all add: keys add zero total_default added_append del: set_map)
  have mins: "(\<lambda>e. fst e div 60) ` set ?rs = set (rollup_minutes ?evs)"
    unfolding minutes_of_rollups [symmetric, of _ ?ps] by simp
  have last: "m \<le> now div 60" if "m \<in> set (rollup_minutes ?evs)" for m
  proof -
    have "rollup_minutes ?evs = rollup_minutes evs @ [now div 60]"
      by (induction evs rule: rollup_minutes.induct) simp_all
    with that assms(3) show ?thesis by (auto simp: sorted_wrt_append)
  qed
  obtain ring p' where run: "ring_run (ring_new w) totals_default ?rs = Some (ring, p')"
    and reg: "sr_buckets reg = ring" "sr_ports reg = ports_after ?evs ?ps"
    using assms(1) by (auto simp: registry_run_ring registry_new_def)
  have final: "last (totals_default # map snd ?rs) = current_totals (sr_ports reg)"
    by (simp add: reg rollups_of_append ports_after_append)
  have total: "unat (total (current_totals (sr_ports reg))) = added grow (set ports) evs"
    using assms(2) total_after [OF keys(2), of ?evs]
    by (simp only: reg add zero) (simp add: unat_of_nat)
  have "sum_list (map (unat \<circ> counted) (ring_snapshot ring)) = unat (total (last (totals_default # map snd ?rs)))"
  proof (rule snapshot_sum [OF run total_default _ sorted])
    show "sorted_wrt (\<le>) (map (\<lambda>e. fst e div 60) ?rs)"
      using assms(3) by (simp only: minutes_of_rollups)
    show "\<forall>e \<in> set ?rs. fst e div 60 \<noteq> 0"
      using assms(4) mins by (metis imageI)
    show "\<forall>e \<in> set ?rs. \<forall>e' \<in> set ?rs. unat (fst e' div 60) < unat (fst e div 60) + max w 1"
    proof (intro ballI)
      fix e e' assume "e \<in> set ?rs" "e' \<in> set ?rs"
      then have "fst e div 60 \<in> set (rollup_minutes ?evs)" "fst e' div 60 \<in> set (rollup_minutes ?evs)"
        using mins by blast+
      then show "unat (fst e' div 60) < unat (fst e div 60) + max w 1"
        using assms(5) last [of "fst e' div 60"] by (force simp: word_le_nat_alt)
    qed
  qed
  then show ?thesis using total final
    by (simp add: registry_snapshot_def Let_def reg(1) current_totals_def)
qed

end

section \<open>The five counters\<close>

fun op_accepts :: "stats_op \<Rightarrow> nat" where
  "op_accepts TcpAccept = 1" | "op_accepts _ = 0"

fun op_tcp_in :: "stats_op \<Rightarrow> nat" where
  "op_tcp_in (TcpBytes i j) = unat i" | "op_tcp_in _ = 0"

fun op_tcp_out :: "stats_op \<Rightarrow> nat" where
  "op_tcp_out (TcpBytes i j) = unat j" | "op_tcp_out _ = 0"

fun op_udp_in :: "stats_op \<Rightarrow> nat" where
  "op_udp_in (UdpIn n) = unat n" | "op_udp_in _ = 0"

fun op_udp_out :: "stats_op \<Rightarrow> nat" where
  "op_udp_out (UdpOut n) = unat n" | "op_udp_out _ = 0"

lemma counters_apply:
  "ps_tcp_accepted (stats_apply op s) = ps_tcp_accepted s + of_nat (op_accepts op)"
  "ps_tcp_in_bytes (stats_apply op s) = ps_tcp_in_bytes s + of_nat (op_tcp_in op)"
  "ps_tcp_out_bytes (stats_apply op s) = ps_tcp_out_bytes s + of_nat (op_tcp_out op)"
  "ps_udp_in_bytes (stats_apply op s) = ps_udp_in_bytes s + of_nat (op_udp_in op)"
  "ps_udp_out_bytes (stats_apply op s) = ps_udp_out_bytes s + of_nat (op_udp_out op)"
  by (cases op; simp add: stats_ops)+

lemmas counter_laws = counters_apply aggregate_fields port_stats_new_def totals_default_def

interpretation reg_accepted: registry_counter at_tcp_accepted mb_tcp_new_conn ps_tcp_accepted op_accepts
  by unfold_locales (simp_all add: counter_laws)

interpretation reg_tcp_in: registry_counter at_tcp_in_bytes mb_tcp_in_bytes ps_tcp_in_bytes op_tcp_in
  by unfold_locales (simp_all add: counter_laws)

interpretation reg_tcp_out: registry_counter at_tcp_out_bytes mb_tcp_out_bytes ps_tcp_out_bytes op_tcp_out
  by unfold_locales (simp_all add: counter_laws)

interpretation reg_udp_in: registry_counter at_udp_in_bytes mb_udp_in_bytes ps_udp_in_bytes op_udp_in
  by unfold_locales (simp_all add: counter_laws)

interpretation reg_udp_out: registry_counter at_udp_out_bytes mb_udp_out_bytes ps_udp_out_bytes op_udp_out
  by unfold_locales (simp_all add: counter_laws)

definition bucket_sum :: "(minute_bucket \<Rightarrow> u64) \<Rightarrow> stats_snapshot \<Rightarrow> nat" where
  "bucket_sum field ss = sum_list (map (unat \<circ> field) (ss_minute_buckets ss))"

text \<open>A run of the rollup task up to its return, as events of the registry: its last one is a rollup.\<close>

fun rollup_trace :: "rollup_event list \<Rightarrow> registry_event list" where
  "rollup_trace [] = []"
| "rollup_trace (Meanwhile port op # evs) = PortOp port op # rollup_trace evs"
| "rollup_trace (RollupTick clock # evs) = Rollup (of_int (clock div 1000000000)) # rollup_trace evs"
| "rollup_trace (RollupShutdown clock # evs) = [Rollup (of_int (clock div 1000000000))]"

lemma run_rollup_trace:
  assumes "run_rollup evs reg = Some (reg', returned)"
  shows "registry_run (rollup_trace evs) reg = Some reg' \<and>
    (returned \<longrightarrow> (\<exists>before now. rollup_trace evs = before @ [Rollup now]))"
  using assms
proof (induction evs reg rule: run_rollup.induct)
  case (2 port op evs reg)
  then show ?case by (auto simp: Cons_eq_append_conv)
next
  case (3 clock evs reg)
  then show ?case
    by (auto simp: rollup_now_def unix_timestamp_now_def Cons_eq_append_conv split: option.splits if_splits)
qed (auto simp: rollup_now_def unix_timestamp_now_def split: option.splits if_splits)

text \<open>C13: Conservation, end to end. Take a new registry and any run of the rollup task until it
  returns, with any operations of other tasks on the counters in between; let the minutes of its rollups
  not go backwards and fit the window, and let no counter overflow 64 bits. Then every connection
  and every byte is in exactly one bucket of the snapshot: for each of the five counters the
  sum over the buckets, the total of the snapshot and the sum of what the operations on the
  listen ports added are the same number.\<close>

theorem snapshot_conserves:
  assumes "run_rollup task (registry_new start ports target w) = Some (reg, True)" and "evs = rollup_trace task"
    and "\<forall>grow \<in> {op_accepts, op_tcp_in, op_tcp_out, op_udp_in, op_udp_out}. added grow (set ports) evs < 2 ^ 64"
    and "sorted_wrt (\<le>) (rollup_minutes evs)" and "0 \<notin> set (rollup_minutes evs)"
    and "\<forall>m \<in> set (rollup_minutes evs). unat (last (rollup_minutes evs)) < unat m + max w 1"
    and "ss = registry_snapshot t reg"
  shows
    "bucket_sum mb_tcp_new_conn ss = added op_accepts (set ports) evs \<and>
     unat (at_tcp_accepted (ss_totals ss)) = added op_accepts (set ports) evs \<and>
     bucket_sum mb_tcp_in_bytes ss = added op_tcp_in (set ports) evs \<and>
     unat (at_tcp_in_bytes (ss_totals ss)) = added op_tcp_in (set ports) evs \<and>
     bucket_sum mb_tcp_out_bytes ss = added op_tcp_out (set ports) evs \<and>
     unat (at_tcp_out_bytes (ss_totals ss)) = added op_tcp_out (set ports) evs \<and>
     bucket_sum mb_udp_in_bytes ss = added op_udp_in (set ports) evs \<and>
     unat (at_udp_in_bytes (ss_totals ss)) = added op_udp_in (set ports) evs \<and>
     bucket_sum mb_udp_out_bytes ss = added op_udp_out (set ports) evs \<and>
     unat (at_udp_out_bytes (ss_totals ss)) = added op_udp_out (set ports) evs"
proof -
  from run_rollup_trace [OF assms(1)] obtain before now where
    evs: "evs = before @ [Rollup now]" and run: "registry_run (before @ [Rollup now]) (registry_new start ports target w) = Some reg"
    unfolding assms(2) by auto
  have "rollup_minutes (before @ [Rollup now]) = rollup_minutes before @ [now div 60]"
    by (induction before rule: rollup_minutes.induct) simp_all
  with assms(6) evs have window: "\<forall>m \<in> set (rollup_minutes (before @ [Rollup now])). unat (now div 60) < unat m + max w 1"
    by simp
  have add: "added grow (set ports) evs = added grow (set ports) before" for grow
    by (simp add: evs added_append)
  note minutes = assms(4,5) [unfolded evs]
  show ?thesis
    using reg_accepted.conserved [OF run _ minutes window, of t] reg_tcp_in.conserved [OF run _ minutes window, of t]
      reg_tcp_out.conserved [OF run _ minutes window, of t] reg_udp_in.conserved [OF run _ minutes window, of t]
      reg_udp_out.conserved [OF run _ minutes window, of t] assms(3)
    unfolding assms(7) bucket_sum_def add by simp
qed

lemma registry_runs:
  assumes "sorted_wrt (\<le>) (rollup_minutes evs)"
  shows "\<exists>reg. registry_run evs (registry_new start ports target w) = Some reg"
proof -
  let ?rs = "rollups_of evs (sr_ports (registry_new start ports target w))"
  have "sorted_wrt (\<le>) (map (\<lambda>e. fst e div 60) ?rs)"
    using assms by (simp only: minutes_of_rollups)
  from ring_run_refines [OF ring_new_holds [of w] this, of totals_default] show ?thesis
    by (auto simp: registry_run_ring registry_new_def)
qed

theorem snapshot_conserves_witness:
  "\<exists>reg. run_rollup [Meanwhile 80 (TcpBytes 10 20), RollupTick 60000000000, Meanwhile 443 (TcpBytes 1 2),
        Meanwhile 81 (TcpBytes 5 5), RollupShutdown 120500000000]
        (registry_new 1 [80, 443] (lit ''t'') 3) = Some (reg, True) \<and>
     bucket_sum mb_tcp_in_bytes (registry_snapshot 130 reg) = 11"
proof -
  let ?task = "[Meanwhile 80 (TcpBytes 10 20), RollupTick 60000000000, Meanwhile 443 (TcpBytes 1 2),
    Meanwhile 81 (TcpBytes 5 5), RollupShutdown 120500000000]"
  have minutes: "sorted_wrt (\<le>) (rollup_minutes (rollup_trace ?task))" by simp
  obtain reg where run: "run_rollup ?task (registry_new 1 [80, 443] (lit ''t'') 3) = Some (reg, True)"
    using registry_runs [OF minutes, of 1 "[80, 443]" "lit ''t''" 3]
    by (auto simp: rollup_now_def unix_timestamp_now_def split: option.splits)
  from snapshot_conserves [OF run refl _ minutes _ _ refl, of 130]
  have "bucket_sum mb_tcp_in_bytes (registry_snapshot 130 reg) = added op_tcp_in (set [80, 443]) (rollup_trace ?task)"
    by simp
  with run show ?thesis by auto
qed

end
