(* ===== verification/Stats_Race.thy ===== *)
theory Stats_Race
  imports Stats_Flow
begin

text \<open>
  Readings of the counters while they move. \<open>PortStats::snapshot\<close> loads the nine atomics of a
  port one after the other, and the registry the ports one after the other
  (\<open>src/src/stats/port.rs\<close>, \<open>src/src/stats/mod.rs\<close>), so a reading mixes values of different
  moments. The model takes the history of all atomic steps on the counters, and for a reading
  the moment of each of its loads: a load sees the steps before its moment.
\<close>

section \<open>Loads\<close>

datatype counter =
    CAccepted | CActive | CClosed | CFlows | CTcpIn | CTcpOut | CUdpIn | CUdpOut | CDropped

fun load :: "counter \<Rightarrow> port_stats \<Rightarrow> u64" where
  "load CAccepted s = ps_tcp_accepted s"
| "load CActive s = ps_tcp_active s"
| "load CClosed s = ps_tcp_closed s"
| "load CFlows s = ps_udp_active_flows s"
| "load CTcpIn s = ps_tcp_in_bytes s"
| "load CTcpOut s = ps_tcp_out_bytes s"
| "load CUdpIn s = ps_udp_in_bytes s"
| "load CUdpOut s = ps_udp_out_bytes s"
| "load CDropped s = ps_udp_dropped s"

type_synonym counter_history = "(u16 \<times> atomic) list"

definition steps_of :: "counter_history \<Rightarrow> nat \<Rightarrow> u16 \<Rightarrow> atomic list" where
  "steps_of hist n port = map snd (filter (\<lambda>e. fst e = port) (take n hist))"

definition stats_at :: "counter_history \<Rightarrow> nat \<Rightarrow> u16 \<times> port_stats \<Rightarrow> port_stats" where
  "stats_at hist n e = atomic_run (steps_of hist n (fst e)) (snd e)"

text \<open>The moments of the loads of one reading.\<close>

type_synonym moments = "u16 \<Rightarrow> counter \<Rightarrow> nat"

definition torn_snapshot :: "counter_history \<Rightarrow> moments \<Rightarrow> u16 \<times> port_stats \<Rightarrow> port_snapshot" where
  "torn_snapshot hist t e =
     (let at = (\<lambda>c. load c (stats_at hist (t (fst e) c) e)) in
      \<lparr>sn_port = ps_port (snd e), sn_tcp_accepted = at CAccepted, sn_tcp_active = at CActive,
       sn_tcp_closed = at CClosed, sn_udp_active_flows = at CFlows, sn_tcp_in_bytes = at CTcpIn,
       sn_tcp_out_bytes = at CTcpOut, sn_udp_in_bytes = at CUdpIn, sn_udp_out_bytes = at CUdpOut,
       sn_udp_dropped = at CDropped\<rparr>)"

definition torn_totals :: "counter_history \<Rightarrow> moments \<Rightarrow> (u16 \<times> port_stats) list \<Rightarrow> aggregate_totals" where
  "torn_totals hist t ps = aggregate_from_snapshots (map (torn_snapshot hist t) ps)"

text \<open>With one moment for all loads it is the reading of \<open>Stats_Registry\<close>.\<close>

lemma atomic_port [simp]: "ps_port (atomic_step a s) = ps_port s"
  by (cases a) simp_all

lemma run_port [simp]: "ps_port (atomic_run as s) = ps_port s"
  by (induction as arbitrary: s) simp_all

lemma torn_at_once:
  "torn_totals hist (\<lambda>_ _. n) ps = current_totals (map (\<lambda>e. (fst e, stats_at hist n e)) ps)"
proof -
  have "torn_snapshot hist (\<lambda>_ _. n) = (\<lambda>e. port_stats_snapshot (stats_at hist n e))"
    by (rule ext) (simp add: torn_snapshot_def port_stats_snapshot_def stats_at_def Let_def)
  then show ?thesis by (simp add: torn_totals_def current_totals_def btm_values_def o_def)
qed

section \<open>Counters that only grow\<close>

fun gain :: "counter \<Rightarrow> atomic \<Rightarrow> nat" where
  "gain CAccepted AddTcpAccepted = 1"
| "gain CClosed AddTcpClosed = 1"
| "gain CTcpIn (AddTcpIn n) = unat n"
| "gain CTcpOut (AddTcpOut n) = unat n"
| "gain CUdpIn (AddUdpIn n) = unat n"
| "gain CUdpOut (AddUdpOut n) = unat n"
| "gain CDropped AddDropped = 1"
| "gain _ _ = 0"

fun gauge_counter :: "counter \<Rightarrow> bool" where
  "gauge_counter CActive \<longleftrightarrow> True"
| "gauge_counter CFlows \<longleftrightarrow> True"
| "gauge_counter _ \<longleftrightarrow> False"

text \<open>What a counter has gained at a port up to a moment.\<close>

definition gained :: "counter \<Rightarrow> counter_history \<Rightarrow> nat \<Rightarrow> u16 \<Rightarrow> nat" where
  "gained c hist n port = sum_list (map (gain c) (steps_of hist n port))"

lemma load_step: "\<not> gauge_counter c \<Longrightarrow> load c (atomic_step a s) = load c s + of_nat (gain c a)"
  by (cases c; cases a) simp_all

lemma load_run: "\<not> gauge_counter c \<Longrightarrow> load c (atomic_run as s) = load c s + of_nat (sum_list (map (gain c) as))"
  by (induction as arbitrary: s) (simp_all add: load_step add.assoc)

lemma gained_mono:
  assumes "n \<le> m"
  shows "gained c hist n port \<le> gained c hist m port"
proof -
  from assms obtain k where "take m hist = take n hist @ take k (drop n hist)"
    using take_add [of n "m - n" hist] by auto
  then show ?thesis by (simp add: gained_def steps_of_def)
qed

definition total_gained :: "counter \<Rightarrow> counter_history \<Rightarrow> moments \<Rightarrow> u16 list \<Rightarrow> nat" where
  "total_gained c hist t ports = sum_list (map (\<lambda>p. gained c hist (t p c) p) ports)"

lemma total_gained_mono:
  "(\<And>p. p \<in> set ports \<Longrightarrow> t p c \<le> t' p c) \<Longrightarrow> total_gained c hist t ports \<le> total_gained c hist t' ports"
  unfolding total_gained_def by (rule sum_list_mono) (simp add: gained_mono)

lemma between:
  assumes "\<forall>p. first \<le> t p c \<and> t p c \<le> final"
  shows "total_gained c hist (\<lambda>_ _. first) ports \<le> total_gained c hist t ports \<and>
    total_gained c hist t ports \<le> total_gained c hist (\<lambda>_ _. final) ports"
  using assms by (intro conjI total_gained_mono) simp_all

lemma total_gained_bound: "total_gained c hist t ports \<le> total_gained c hist (\<lambda>_ _. length hist) ports"
proof -
  have "gained c hist n p \<le> gained c hist (length hist) p" for n p
  proof (cases "n \<le> length hist")
    case False
    then show ?thesis by (simp add: gained_def steps_of_def)
  qed (rule gained_mono)
  then show ?thesis unfolding total_gained_def by (intro sum_list_mono) simp
qed

locale torn_counter = delta_counter total counted
  for total :: "aggregate_totals \<Rightarrow> u64" and counted :: "minute_bucket \<Rightarrow> u64" +
  fixes c :: counter
  assumes torn_total: "total (torn_totals hist t ps) = sum_list (map (\<lambda>e. load c (stats_at hist (t (fst e) c) e)) ps)"
    and no_gauge: "\<not> gauge_counter c"
    and total_zero: "total totals_default = 0"
begin

lemma torn_reading:
  assumes "\<forall>e \<in> set ps. load c (snd e) = 0" and "total_gained c hist (\<lambda>_ _. length hist) (map fst ps) < 2 ^ 64"
  shows "unat (total (torn_totals hist t ps)) = total_gained c hist t (map fst ps)"
proof -
  have loaded: "load c (stats_at hist n e) = of_nat (gained c hist n (fst e))" if "e \<in> set ps" for e n
    using assms(1) that load_run [OF no_gauge] by (simp add: stats_at_def gained_def)
  have sum: "sum_list (map (\<lambda>e. load c (stats_at hist (t (fst e) c) e)) ps) = of_nat (total_gained c hist t (map fst ps))"
    using loaded by (induction ps) (simp_all add: total_gained_def)
  have "total_gained c hist t (map fst ps) < 2 ^ 64"
    by (rule le_less_trans [OF total_gained_bound assms(2)])
  then show ?thesis by (simp only: torn_total sum unat_of_nat) simp
qed

text \<open>Rollups that read one after the other.\<close>

lemma torn_sum:
  assumes "ring_run (ring_new w) totals_default (map (\<lambda>(now, t). (now, torn_totals hist t ps)) rs) = Some (ring, prev)"
    and "\<forall>e \<in> set ps. load c (snd e) = 0" and "total_gained c hist (\<lambda>_ _. length hist) (map fst ps) < 2 ^ 64"
    and "sorted_wrt (\<lambda>r r'. \<forall>p c. snd r p c \<le> snd r' p c) rs" and "rs \<noteq> []"
    and "sorted_wrt (\<le>) (map (\<lambda>r. fst r div 60) rs)" and "\<forall>r \<in> set rs. fst r div 60 \<noteq> 0"
    and "\<forall>r \<in> set rs. \<forall>r' \<in> set rs. unat (fst r' div 60) < unat (fst r div 60) + max w 1"
  shows "sum_list (map (unat \<circ> counted) (ring_snapshot ring)) = unat (total (torn_totals hist (snd (last rs)) ps))"
proof -
  let ?evs = "map (\<lambda>(now, t). (now, torn_totals hist t ps)) rs"
  note reading = torn_reading [OF assms(2,3)]
  have "sorted_wrt (\<le>) (map (\<lambda>r. total (torn_totals hist (snd r) ps)) rs)"
    unfolding sorted_wrt_map
    by (rule sorted_wrt_mono_rel [OF _ assms(4)])
      (use total_gained_mono in \<open>auto simp: word_le_nat_alt reading\<close>)
  then have sorted: "sorted_wrt (\<le>) (map total (totals_default # map snd ?evs))"
    by (simp add: total_zero o_def case_prod_unfold)
  have "sum_list (map (unat \<circ> counted) (ring_snapshot ring)) = unat (total (last (totals_default # map snd ?evs)))"
    by (rule snapshot_sum [OF assms(1) total_zero _ sorted])
      (use assms(6-8) in \<open>auto simp: o_def case_prod_unfold\<close>)
  moreover have "last (totals_default # map snd ?evs) = torn_totals hist (snd (last rs)) ps"
    using assms(5) by (simp add: last_map o_def case_prod_unfold)
  ultimately show ?thesis by simp
qed

lemma torn_between:
  assumes "\<forall>e \<in> set ps. load c (snd e) = 0" and "total_gained c hist (\<lambda>_ _. length hist) (map fst ps) < 2 ^ 64"
    and "\<forall>p. first \<le> t p c \<and> t p c \<le> final"
  shows "unat (total (torn_totals hist (\<lambda>_ _. first) ps)) \<le> unat (total (torn_totals hist t ps)) \<and>
    unat (total (torn_totals hist t ps)) \<le> unat (total (torn_totals hist (\<lambda>_ _. final) ps))"
  using between [of first t c final hist "map fst ps", OF assms(3)] by (simp only: torn_reading [OF assms(1,2)])

end

lemmas torn_fields =
  torn_totals_def aggregate_from_snapshots_def add_snapshot_fields totals_default_def torn_snapshot_def Let_def o_def

interpretation torn_accepted: torn_counter at_tcp_accepted mb_tcp_new_conn CAccepted
  by unfold_locales (simp_all add: torn_fields)

interpretation torn_tcp_in: torn_counter at_tcp_in_bytes mb_tcp_in_bytes CTcpIn
  by unfold_locales (simp_all add: torn_fields)

interpretation torn_tcp_out: torn_counter at_tcp_out_bytes mb_tcp_out_bytes CTcpOut
  by unfold_locales (simp_all add: torn_fields)

interpretation torn_udp_in: torn_counter at_udp_in_bytes mb_udp_in_bytes CUdpIn
  by unfold_locales (simp_all add: torn_fields)

interpretation torn_udp_out: torn_counter at_udp_out_bytes mb_udp_out_bytes CUdpOut
  by unfold_locales (simp_all add: torn_fields)

section \<open>Properties\<close>

definition grown_counters :: "(counter \<times> (aggregate_totals \<Rightarrow> u64) \<times> (minute_bucket \<Rightarrow> u64)) list" where
  "grown_counters =
     [(CAccepted, at_tcp_accepted, mb_tcp_new_conn), (CTcpIn, at_tcp_in_bytes, mb_tcp_in_bytes),
      (CTcpOut, at_tcp_out_bytes, mb_tcp_out_bytes), (CUdpIn, at_udp_in_bytes, mb_udp_in_bytes),
      (CUdpOut, at_udp_out_bytes, mb_udp_out_bytes)]"

text \<open>C14: The statistics conserve what they count although their readings are torn. Take any history of
  atomic steps on the counters of the listen ports, and any rollups that read one after the other,
  each load of a reading at a moment of its own, in minutes that do not go backwards and fit the
  window; let no counter overflow. Then for each of the five counters the sum over all buckets is
  exactly what the last rollup read, nothing is lost or counted twice in between; and what a rollup
  or a snapshot reads is at least what was counted when the reading began and at most what was
  counted when it ended.\<close>

theorem torn_reads_conserve:
  assumes "ps = sr_ports (registry_new start ports target w)"
    and "ring_run (ring_new w) totals_default (map (\<lambda>(now, t). (now, torn_totals hist t ps)) rs) = Some (ring, prev)"
    and "\<forall>x \<in> set grown_counters. total_gained (fst x) hist (\<lambda>_ _. length hist) (map fst ps) < 2 ^ 64"
    and "sorted_wrt (\<lambda>r r'. \<forall>p c. snd r p c \<le> snd r' p c) rs" and "rs \<noteq> []"
    and "sorted_wrt (\<le>) (map (\<lambda>r. fst r div 60) rs)" and "\<forall>r \<in> set rs. fst r div 60 \<noteq> 0"
    and "\<forall>r \<in> set rs. \<forall>r' \<in> set rs. unat (fst r' div 60) < unat (fst r div 60) + max w 1"
  shows "\<forall>(c, total, counted) \<in> set grown_counters.
    sum_list (map (unat \<circ> counted) (ring_snapshot ring)) = unat (total (torn_totals hist (snd (last rs)) ps)) \<and>
    (\<forall>t first final. (\<forall>p. first \<le> t p c \<and> t p c \<le> final) \<longrightarrow>
      unat (total (torn_totals hist (\<lambda>_ _. first) ps)) \<le> unat (total (torn_totals hist t ps)) \<and>
      unat (total (torn_totals hist t ps)) \<le> unat (total (torn_totals hist (\<lambda>_ _. final) ps)))"
proof -
  have zero: "\<forall>e \<in> set ps. load c (snd e) = 0" for c
  proof
    fix e assume e: "e \<in> set ps"
    obtain p s where ps: "e = (p, s)" by (cases e)
    have "distinct (map fst ps)" unfolding assms(1) by (simp add: registry_new_def btm_collect_keys o_def)
    then have "btm_get ps p = Some s" using e ps by (simp add: btm_get_def map_of_eq_Some_iff)
    then have "s = port_stats_new p" unfolding assms(1) by (simp add: registry_new_ports split: if_splits)
    then show "load c (snd e) = 0" unfolding ps by (cases c) (simp_all add: port_stats_new_def)
  qed
  have small: "total_gained c hist (\<lambda>_ _. length hist) (map fst ps) < 2 ^ 64"
    if "(c, total, counted) \<in> set grown_counters" for c total counted
    using assms(3) that by force
  have laws: "torn_counter total counted c" if "(c, total, counted) \<in> set grown_counters" for c total counted
    using that torn_accepted.torn_counter_axioms torn_tcp_in.torn_counter_axioms torn_tcp_out.torn_counter_axioms
      torn_udp_in.torn_counter_axioms torn_udp_out.torn_counter_axioms
    by (auto simp: grown_counters_def)
  show ?thesis
    using torn_counter.torn_sum [OF laws assms(2) zero small assms(4-8)]
      torn_counter.torn_between [OF laws zero small]
    by blast
qed

text \<open>A reading that sees the second step but not the first, and one after all steps.\<close>

abbreviation example_history :: counter_history where
  "example_history \<equiv> [(80, AddTcpIn 10), (443, AddTcpIn 5), (80, AddTcpOut 3)]"

abbreviation example_ports :: "(u16 \<times> port_stats) list" where
  "example_ports \<equiv> sr_ports (registry_new 1 [80, 443] [] 3)"

abbreviation example_readings :: "(u64 \<times> moments) list" where
  "example_readings \<equiv> [(60, \<lambda>p c. if p = 80 then 0 else 2), (120, \<lambda>p c. 3)]"

theorem torn_reads_conserve_witness:
  "\<exists>ring prev. ring_run (ring_new 3) totals_default
       (map (\<lambda>(now, t). (now, torn_totals example_history t example_ports)) example_readings) = Some (ring, prev) \<and>
     sum_list (map (unat \<circ> mb_tcp_in_bytes) (ring_snapshot ring)) =
       unat (at_tcp_in_bytes (torn_totals example_history (\<lambda>p c. 3) example_ports))"
proof -
  let ?evs = "map (\<lambda>(now, t). (now, torn_totals example_history t example_ports)) example_readings"
  have "sorted_wrt (\<le>) (map (\<lambda>e. fst e div 60) ?evs)" by simp
  from ring_run_refines [OF ring_new_holds [of 3] this, of totals_default] obtain ring prev where
    run: "ring_run (ring_new 3) totals_default ?evs = Some (ring, prev)" by auto
  have keys: "map fst example_ports = [80, 443]"
    by (simp add: registry_new_def btm_collect_keys o_def)
  have "\<forall>x \<in> set grown_counters. total_gained (fst x) example_history (\<lambda>_ _. length example_history) (map fst example_ports) < 2 ^ 64"
    unfolding keys by (simp add: grown_counters_def total_gained_def gained_def steps_of_def)
  from torn_reads_conserve [OF refl run this] have "sum_list (map (unat \<circ> mb_tcp_in_bytes) (ring_snapshot ring)) =
      unat (at_tcp_in_bytes (torn_totals example_history (\<lambda>p c. 3) example_ports))"
    by (simp add: grown_counters_def)
  with run show ?thesis by blast
qed

end
