(* ===== verification/Net_Addr.thy ===== *)
theory Net_Addr
  imports Rust_Str
begin

text \<open>
  The socket addresses of the Rust standard library, \<open>std::net\<close>: their data and the parser
  \<open>str::parse::<SocketAddr>\<close>, which the program uses to tell an address literal from a host
  name. Every reader of that parser is atomic (it restores its input when it fails), so a
  reader is a function from the input to an optional result and rest.

  An IPv4 address is its 32-bit number and an IPv6 address its 128-bit number, as
  \<open>Ipv4Addr::from(u32)\<close> and \<open>Ipv6Addr::from(u128)\<close> have them.
\<close>

section \<open>Addresses\<close>

type_synonym ipv4 = u32
type_synonym ipv6 = "128 word"

datatype ip_addr = IpV4 ipv4 | IpV6 ipv6

datatype socket_addr =
    SockV4 ipv4 u16
  | SockV6 ipv6 u16 (flowinfo: u32) (scope_id: u32)

fun addr_ip :: "socket_addr \<Rightarrow> ip_addr" where
  "addr_ip (SockV4 a p) = IpV4 a"
| "addr_ip (SockV6 a p f s) = IpV6 a"

fun addr_port :: "socket_addr \<Rightarrow> u16" where
  "addr_port (SockV4 a p) = p"
| "addr_port (SockV6 a p f s) = p"

fun socket_addr_new :: "ip_addr \<Rightarrow> u16 \<Rightarrow> socket_addr" where
  "socket_addr_new (IpV4 a) p = SockV4 a p"
| "socket_addr_new (IpV6 a) p = SockV6 a p 0 0"

fun is_ipv4 :: "socket_addr \<Rightarrow> bool" where
  "is_ipv4 (SockV4 a p) = True"
| "is_ipv4 (SockV6 a p f s) = False"

lemma addr_new_simps [simp]:
  "addr_port (socket_addr_new ip p) = p" "addr_ip (socket_addr_new ip p) = ip"
  by (cases ip; simp)+

definition ipv4_new :: "u8 \<Rightarrow> u8 \<Rightarrow> u8 \<Rightarrow> u8 \<Rightarrow> ipv4" where
  "ipv4_new a b c d =
     of_nat (unat a * 16777216 + unat b * 65536 + unat c * 256 + unat d)"

definition ipv6_of_groups :: "u16 list \<Rightarrow> ipv6" where
  "ipv6_of_groups gs = foldl (\<lambda>acc g. acc * 65536 + of_nat (unat g)) 0 gs"

section \<open>The parser\<close>

definition read_given_char :: "nat \<Rightarrow> str \<Rightarrow> str option" where
  "read_given_char c s = (case s of [] \<Rightarrow> None | x # r \<Rightarrow> if x = c then Some r else None)"

definition to_digit :: "nat \<Rightarrow> nat \<Rightarrow> nat option" where
  "to_digit radix c =
     (if 48 \<le> c \<and> c \<le> 57 \<and> c - 48 < radix then Some (c - 48)
      else if 97 \<le> c \<and> c \<le> 122 \<and> c - 87 < radix then Some (c - 87)
      else if 65 \<le> c \<and> c \<le> 90 \<and> c - 55 < radix then Some (c - 55)
      else None)"

definition digits_of :: "nat \<Rightarrow> str \<Rightarrow> str" where
  "digits_of radix s = takeWhile (\<lambda>c. to_digit radix c \<noteq> None) s"

definition digits_value :: "nat \<Rightarrow> str \<Rightarrow> nat" where
  "digits_value radix ds = foldl (\<lambda>v c. v * radix + the (to_digit radix c)) 0 ds"

text \<open>\<open>read_number\<close>: the loop reads all digits there are; it fails when there are more than
  \<open>max_digits\<close> of them, when the value does not fit the type (below \<open>limit\<close>), when there is
  none, and on a leading zero that is not allowed.\<close>

definition read_number :: "nat \<Rightarrow> nat \<Rightarrow> nat option \<Rightarrow> bool \<Rightarrow> str \<Rightarrow> (nat \<times> str) option" where
  "read_number limit radix max_digits allow_zero_prefix s =
     (let ds = digits_of radix s; v = digits_value radix ds in
      if (case max_digits of None \<Rightarrow> False | Some m \<Rightarrow> m < length ds) then None
      else if ds = [] then None
      else if \<not> allow_zero_prefix \<and> hd ds = 48 \<and> 1 < length ds then None
      else if v < limit then Some (v, drop (length ds) s) else None)"

definition read_separator ::
    "nat \<Rightarrow> nat \<Rightarrow> (str \<Rightarrow> ('a \<times> str) option) \<Rightarrow> str \<Rightarrow> ('a \<times> str) option" where
  "read_separator sep index inner s =
     (if 0 < index then Option.bind (read_given_char sep s) inner else inner s)"

definition read_octet :: "str \<Rightarrow> (nat \<times> str) option" where
  "read_octet = read_number 256 10 (Some 3) False"

definition read_ipv4_addr :: "str \<Rightarrow> (u8 list \<times> str) option" where
  "read_ipv4_addr s =
     Option.bind (read_octet s) (\<lambda>(a, s).
     Option.bind (read_separator 46 1 read_octet s) (\<lambda>(b, s).
     Option.bind (read_separator 46 2 read_octet s) (\<lambda>(c, s).
     Option.bind (read_separator 46 3 read_octet s) (\<lambda>(d, s).
       Some ([of_nat a, of_nat b, of_nat c, of_nat d], s)))))"

definition be_group :: "u8 \<Rightarrow> u8 \<Rightarrow> u16" where
  "be_group x y = of_nat (unat x * 256 + unat y)"

text \<open>\<open>read_groups\<close>: the loop over at most \<open>limit\<close> groups, with the groups read so far; it
  returns the groups, whether the last two are an embedded IPv4 address, and the rest.\<close>

function read_groups :: "nat \<Rightarrow> u16 list \<Rightarrow> str \<Rightarrow> u16 list \<times> bool \<times> str" where
  "read_groups limit gs s =
     (let i = length gs in
      if limit \<le> i then (gs, False, s)
      else
        (case (if i < limit - 1 then read_separator 58 i read_ipv4_addr s else None) of
           Some (octets, s') \<Rightarrow>
             (gs @ [be_group (octets ! 0) (octets ! 1), be_group (octets ! 2) (octets ! 3)], True, s')
         | None \<Rightarrow>
             (case read_separator 58 i (read_number 65536 16 (Some 4) True) s of
                Some (g, s') \<Rightarrow> read_groups limit (gs @ [of_nat g]) s'
              | None \<Rightarrow> (gs, False, s))))"
  by pat_completeness auto

termination by (relation "measure (\<lambda>(limit, gs, s). limit - length gs)") auto

declare read_groups.simps [simp del]

definition read_ipv6_addr :: "str \<Rightarrow> (ipv6 \<times> str) option" where
  "read_ipv6_addr s =
     (let (head, head_ipv4, s) = read_groups 8 [] s in
      if length head = 8 then Some (ipv6_of_groups head, s)
      else if head_ipv4 then None
      else
        Option.bind (read_given_char 58 s) (\<lambda>s.
        Option.bind (read_given_char 58 s) (\<lambda>s.
          let limit = 8 - (length head + 1);
              (tail, _, s) = read_groups limit [] s
          in Some (ipv6_of_groups (head @ replicate (8 - length head - length tail) 0 @ tail), s))))"

definition read_port :: "str \<Rightarrow> (u16 \<times> str) option" where
  "read_port s =
     Option.bind (read_given_char 58 s) (\<lambda>s.
     Option.bind (read_number 65536 10 None True s) (\<lambda>(p, s). Some (of_nat p, s)))"

definition read_scope_id :: "str \<Rightarrow> (u32 \<times> str) option" where
  "read_scope_id s =
     Option.bind (read_given_char 37 s) (\<lambda>s.
     Option.bind (read_number (2 ^ 32) 10 None True s) (\<lambda>(n, s). Some (of_nat n, s)))"

definition read_socket_addr_v4 :: "str \<Rightarrow> (socket_addr \<times> str) option" where
  "read_socket_addr_v4 s =
     Option.bind (read_ipv4_addr s) (\<lambda>(octets, s).
     Option.bind (read_port s) (\<lambda>(port, s).
       Some (SockV4 (ipv4_new (octets ! 0) (octets ! 1) (octets ! 2) (octets ! 3)) port, s)))"

definition read_socket_addr_v6 :: "str \<Rightarrow> (socket_addr \<times> str) option" where
  "read_socket_addr_v6 s =
     Option.bind (read_given_char 91 s) (\<lambda>s.
     Option.bind (read_ipv6_addr s) (\<lambda>(ip, s).
       let (scope, s) = (case read_scope_id s of None \<Rightarrow> (0, s) | Some r \<Rightarrow> r) in
       Option.bind (read_given_char 93 s) (\<lambda>s.
       Option.bind (read_port s) (\<lambda>(port, s).
         Some (SockV6 ip port 0 scope, s)))))"

definition parse_socket_addr :: "str \<Rightarrow> socket_addr option" where
  "parse_socket_addr s =
     (case (case read_socket_addr_v4 s of None \<Rightarrow> read_socket_addr_v6 s | Some r \<Rightarrow> Some r) of
        Some (addr, []) \<Rightarrow> Some addr
      | _ \<Rightarrow> None)"

lemmas addr_parse_eval =
  read_given_char_def to_digit_def digits_of_def digits_value_def read_number_def
  read_separator_def read_octet_def read_ipv4_addr_def be_group_def read_groups.simps
  read_ipv6_addr_def read_port_def read_scope_id_def read_socket_addr_v4_def
  read_socket_addr_v6_def parse_socket_addr_def ipv4_new_def ipv6_of_groups_def

section \<open>What the readers consume\<close>

text \<open>\<open>consumes R s t\<close>: a reader went from \<open>s\<close> to \<open>t\<close> over characters that satisfy \<open>R\<close>.\<close>

definition consumes :: "(nat \<Rightarrow> bool) \<Rightarrow> str \<Rightarrow> str \<Rightarrow> bool" where
  "consumes R s t \<longleftrightarrow> (\<exists>u. s = u @ t \<and> (\<forall>c \<in> set u. R c))"

lemma consumes_refl [simp]: "consumes R s s"
  by (simp add: consumes_def)

lemma consumes_trans: "consumes R s t \<Longrightarrow> consumes R t u \<Longrightarrow> consumes R s u"
  unfolding consumes_def by (metis Un_iff append.assoc set_append)

lemma consumes_mono: "consumes R s t \<Longrightarrow> (\<And>c. R c \<Longrightarrow> R' c) \<Longrightarrow> consumes R' s t"
  unfolding consumes_def by blast

definition hex_char :: "nat \<Rightarrow> bool" where
  "hex_char c \<longleftrightarrow> to_digit 16 c \<noteq> None"

definition addr_char :: "nat \<Rightarrow> bool" where
  "addr_char c \<longleftrightarrow> hex_char c \<or> c = 46 \<or> c = 58"

lemma read_given_char_Some: "read_given_char c s = Some r \<longleftrightarrow> s = c # r"
  by (auto simp: read_given_char_def split: list.splits)

lemma digit_is_digit: "to_digit 10 c \<noteq> None \<longleftrightarrow> is_digit c"
  by (auto simp: to_digit_def is_digit_def)

lemma to_digit_10: "is_digit c \<Longrightarrow> to_digit 10 c = Some (c - 48)"
  by (auto simp: to_digit_def is_digit_def)

lemma dec_hex: "to_digit 10 c \<noteq> None \<Longrightarrow> hex_char c"
  by (auto simp: to_digit_def hex_char_def split: if_splits)

lemma read_number_Some:
  assumes "read_number limit radix m z s = Some (v, t)"
  shows "\<exists>ds. s = ds @ t \<and> ds \<noteq> [] \<and> (\<forall>c \<in> set ds. to_digit radix c \<noteq> None) \<and>
    v = digits_value radix ds \<and> v < limit \<and> (t = [] \<or> to_digit radix (hd t) = None)"
proof -
  let ?P = "\<lambda>c. to_digit radix c \<noteq> None"
  let ?ds = "digits_of radix s"
  have t: "t = dropWhile ?P s" and rest: "?ds \<noteq> []" "v = digits_value radix ?ds" "v < limit"
    using assms
    by (auto simp: read_number_def Let_def digits_of_def dropWhile_eq_drop split: if_splits option.splits)
  have "s = ?ds @ t" by (simp add: t digits_of_def)
  moreover have "\<forall>c \<in> set ?ds. ?P c" by (auto simp: digits_of_def dest: set_takeWhileD)
  moreover have "t = [] \<or> to_digit radix (hd t) = None"
    using hd_dropWhile [of ?P s] unfolding t by blast
  ultimately show ?thesis using rest by metis
qed

lemma digits_value_dec:
  assumes "\<forall>c \<in> set ds. is_digit c"
  shows "digits_value 10 ds = dec_value 0 ds"
proof -
  have "foldl (\<lambda>v c. v * 10 + the (to_digit 10 c)) a ds = foldl (\<lambda>v c. v * 10 + (c - 48)) a ds" for a
    using assms by (induction ds arbitrary: a) (simp_all add: to_digit_10)
  then show ?thesis by (simp add: digits_value_def dec_value_def)
qed

lemma read_dec_consumes: "read_number limit 10 m z s = Some (v, t) \<Longrightarrow> consumes is_digit s t"
  using read_number_Some [of limit 10 m z s v t] unfolding digit_is_digit consumes_def by blast

lemma read_hex_consumes: "read_number limit 16 m z s = Some (v, t) \<Longrightarrow> consumes hex_char s t"
  using read_number_Some [of limit 16 m z s v t] unfolding hex_char_def consumes_def by blast

lemma read_separator_consumes:
  assumes "read_separator sep i inner s = Some (v, t)"
    and "\<And>s v t. inner s = Some (v, t) \<Longrightarrow> consumes R s t" and "R sep"
  shows "consumes R s t"
proof (cases "0 < i")
  case True
  with assms(1) obtain r where r: "s = sep # r" "inner r = Some (v, t)"
    by (auto simp: read_separator_def bind_eq_Some_conv read_given_char_Some)
  from assms(2) [OF r(2)] have "consumes R r t" .
  with r(1) assms(3) show ?thesis unfolding consumes_def by (metis append_Cons set_ConsD)
qed (use assms in \<open>simp add: read_separator_def\<close>)

definition v4_char :: "nat \<Rightarrow> bool" where
  "v4_char c \<longleftrightarrow> is_digit c \<or> c = 46"

lemma read_octet_consumes: "read_octet s = Some (v, t) \<Longrightarrow> consumes v4_char s t"
  unfolding read_octet_def by (drule read_dec_consumes) (erule consumes_mono, simp add: v4_char_def)

lemma read_dot_octet_consumes: "read_separator 46 i read_octet s = Some (v, t) \<Longrightarrow> consumes v4_char s t"
  by (erule read_separator_consumes) (simp_all add: read_octet_consumes v4_char_def)

lemma read_ipv4_first:
  assumes "read_ipv4_addr s = Some (v, t)"
  obtains a r where "read_octet s = Some (a, r)" and "consumes v4_char r t"
proof -
  from assms obtain a b c d r1 r2 r3 where
    "read_octet s = Some (a, r1)" "read_separator 46 1 read_octet r1 = Some (b, r2)"
    "read_separator 46 2 read_octet r2 = Some (c, r3)" "read_separator 46 3 read_octet r3 = Some (d, t)"
    by (auto simp: read_ipv4_addr_def bind_eq_Some_conv)
  then show ?thesis using that read_dot_octet_consumes consumes_trans by meson
qed

lemma read_ipv4_consumes:
  assumes "read_ipv4_addr s = Some (v, t)"
  shows "\<exists>u. s = u @ t \<and> u \<noteq> [] \<and> (\<forall>c \<in> set u. v4_char c)"
proof -
  from assms obtain a r where a: "read_octet s = Some (a, r)" and r: "consumes v4_char r t"
    by (rule read_ipv4_first)
  from a obtain ds where "s = ds @ r" "ds \<noteq> []"
    unfolding read_octet_def by (auto dest!: read_number_Some)
  moreover from a have "consumes v4_char s r" by (rule read_octet_consumes)
  moreover obtain u' where "r = u' @ t" "\<forall>c \<in> set u'. v4_char c"
    using r by (auto simp: consumes_def)
  ultimately show ?thesis
    by (auto simp: consumes_def intro!: exI [of _ "ds @ u'"])
qed

lemma v4_addr_char: "v4_char c \<Longrightarrow> addr_char c"
  using dec_hex digit_is_digit by (auto simp: v4_char_def addr_char_def)

lemma read_ipv4_consumes_addr: "read_ipv4_addr s = Some (v, t) \<Longrightarrow> consumes addr_char s t"
  using read_ipv4_consumes [of s v t] v4_addr_char unfolding consumes_def by blast

lemma read_group_consumes_addr:
  "read_number l 16 m z s = Some (v, t) \<Longrightarrow> consumes addr_char s t"
  by (drule read_hex_consumes) (erule consumes_mono, simp add: addr_char_def)

lemma read_groups_consumes:
  "read_groups limit gs s = (gs', v4, t) \<Longrightarrow> consumes addr_char s t"
proof (induction limit gs s rule: read_groups.induct)
  case (1 limit gs s)
  let ?i = "length gs"
  let ?v4 = "if ?i < limit - 1 then read_separator 58 ?i read_ipv4_addr s else None"
  let ?n = "read_separator 58 ?i (read_number 65536 16 (Some 4) True) s"
  show ?case
  proof (cases "limit \<le> ?i")
    case True
    then show ?thesis using "1.prems" by (simp add: read_groups.simps [of limit gs s])
  next
    case False
    consider oc s' where "?v4 = Some (oc, s')" | g s' where "?v4 = None" "?n = Some (g, s')"
      | "?v4 = None" "?n = None"
      by (cases ?v4; cases ?n) auto
    then show ?thesis
    proof cases
      case (1 oc s')
      then have "consumes addr_char s s'"
        by (auto intro: read_ipv4_consumes_addr simp: addr_char_def
            elim!: read_separator_consumes split: if_splits)
      with 1 False "1.prems" show ?thesis by (simp add: read_groups.simps [of limit gs s] Let_def)
    next
      case (2 g s')
      then have "consumes addr_char s s'"
        by (auto intro: read_group_consumes_addr simp: addr_char_def elim!: read_separator_consumes)
      moreover from 2 False "1.prems" have "read_groups limit (gs @ [of_nat g]) s' = (gs', v4, t)"
        by (simp add: read_groups.simps [of limit gs s] Let_def)
      ultimately show ?thesis
        using "1.IH" [OF refl False 2(1) 2(2) refl] consumes_trans by metis
    next
      case 3
      with False "1.prems" show ?thesis by (simp add: read_groups.simps [of limit gs s] Let_def)
    qed
  qed
qed

lemma read_given_consumes: "read_given_char c s = Some t \<Longrightarrow> R c \<Longrightarrow> consumes R s t"
  by (auto simp: read_given_char_Some consumes_def intro!: exI [of _ "[c]"])

lemma read_ipv6_consumes:
  assumes "read_ipv6_addr s = Some (a, t)"
  shows "consumes addr_char s t"
proof -
  obtain head v4 s1 where h: "read_groups 8 [] s = (head, v4, s1)" by (cases "read_groups 8 [] s")
  then have c1: "consumes addr_char s s1" by (rule read_groups_consumes)
  show ?thesis
  proof (cases "length head = 8")
    case True
    with assms h c1 show ?thesis by (simp add: read_ipv6_addr_def)
  next
    case False
    with assms h obtain s2 s3 where g: "read_given_char 58 s1 = Some s2" "read_given_char 58 s2 = Some s3"
      and t: "t = snd (snd (read_groups (8 - (length head + 1)) [] s3))"
      by (auto simp: read_ipv6_addr_def bind_eq_Some_conv Let_def case_prod_unfold split: if_splits)
    obtain tail v4' where tail: "read_groups (8 - (length head + 1)) [] s3 = (tail, v4', t)"
      using t by (cases "read_groups (8 - (length head + 1)) [] s3") auto
    have "addr_char 58" by (simp add: addr_char_def)
    then show ?thesis
      using c1 g read_given_consumes read_groups_consumes [OF tail] consumes_trans by metis
  qed
qed

section \<open>The shape of an address literal\<close>

lemma read_port_end:
  assumes "read_port s = Some (p, [])"
  shows "\<exists>ds. s = 58 # ds \<and> ds \<noteq> [] \<and> (\<forall>c \<in> set ds. is_digit c) \<and> dec_value 0 ds = unat p"
proof -
  from assms obtain r v where s: "s = 58 # r" and n: "read_number 65536 10 None True r = Some (v, [])"
    and p: "p = of_nat v"
    by (auto simp: read_port_def bind_eq_Some_conv read_given_char_Some)
  from read_number_Some [OF n] have r: "r \<noteq> []" "\<forall>c \<in> set r. is_digit c" "v = digits_value 10 r" "v < 65536"
    unfolding digit_is_digit by auto
  then have "dec_value 0 r = unat p" by (simp add: p digits_value_dec unat_of_nat_u16)
  with s r show ?thesis by blast
qed

definition port_digits :: "str \<Rightarrow> u16 \<Rightarrow> bool" where
  "port_digits ds p \<longleftrightarrow> ds \<noteq> [] \<and> (\<forall>c \<in> set ds. is_digit c) \<and> dec_value 0 ds = unat p"

lemma port_digits_parse: "port_digits ds p \<Longrightarrow> parse_u16 ds = Inr p"
  unfolding port_digits_def parse_u16_Inr by blast

lemma port_digits_no_colon: "port_digits ds p \<Longrightarrow> 58 \<notin> set ds"
  by (auto simp: port_digits_def is_digit_def)

lemma scope_consumes:
  assumes "read_scope_id s = Some (v, t)"
  shows "consumes (\<lambda>c. c \<noteq> 93) s t"
proof -
  from assms obtain r n where s: "read_given_char 37 s = Some r"
    and n: "read_number (2 ^ 32) 10 None True r = Some (n, t)"
    by (auto simp: read_scope_id_def bind_eq_Some_conv)
  from s have "consumes (\<lambda>c. c \<noteq> 93) s r" by (rule read_given_consumes) simp
  moreover have "consumes (\<lambda>c. c \<noteq> 93) r t"
    using read_dec_consumes [OF n] by (rule consumes_mono) (auto simp: is_digit_def)
  ultimately show ?thesis by (rule consumes_trans)
qed

lemma parse_socket_addr_shape:
  assumes "parse_socket_addr s = Some addr"
  shows "(\<exists>u ds. s = u @ 58 # ds \<and> u \<noteq> [] \<and> 91 \<notin> set u \<and> port_digits ds (addr_port addr)) \<or>
    (\<exists>u ds. s = 91 # u @ 93 # 58 # ds \<and> 93 \<notin> set u \<and> port_digits ds (addr_port addr))"
proof -
  from assms consider "read_socket_addr_v4 s = Some (addr, [])" | "read_socket_addr_v6 s = Some (addr, [])"
    by (auto simp: parse_socket_addr_def split: option.splits list.splits)
  then show ?thesis
  proof cases
    case 1
    then obtain oc r p where ip: "read_ipv4_addr s = Some (oc, r)" and port: "read_port r = Some (p, [])"
      and addr: "addr_port addr = p"
      by (auto simp: read_socket_addr_v4_def bind_eq_Some_conv)
    from read_ipv4_consumes [OF ip] obtain u where u: "s = u @ r" "u \<noteq> []" "\<forall>c \<in> set u. v4_char c" by blast
    then have "91 \<notin> set u" by (auto simp: v4_char_def is_digit_def)
    with u addr read_port_end [OF port] show ?thesis unfolding port_digits_def by blast
  next
    case 2
    then obtain s1 ip s2 where s: "s = 91 # s1" and ip: "read_ipv6_addr s1 = Some (ip, s2)"
      and rest: "(let (scope, s) = (case read_scope_id s2 of None \<Rightarrow> (0, s2) | Some r \<Rightarrow> r) in
        Option.bind (read_given_char 93 s) (\<lambda>s. Option.bind (read_port s) (\<lambda>(port, s).
          Some (SockV6 ip port 0 scope, s)))) = Some (addr, [])"
      by (auto simp: read_socket_addr_v6_def bind_eq_Some_conv read_given_char_Some)
    obtain scope s3 where sc: "(case read_scope_id s2 of None \<Rightarrow> (0, s2) | Some r \<Rightarrow> r) = (scope, s3)"
      by (rule prod.exhaust)
    with rest obtain s4 p where s3: "s3 = 93 # s4" and port: "read_port s4 = Some (p, [])"
      and addr: "addr_port addr = p"
      by (auto simp: bind_eq_Some_conv read_given_char_Some)
    have "consumes (\<lambda>c. c \<noteq> 93) s1 s2"
      using read_ipv6_consumes [OF ip]
      by (rule consumes_mono) (auto simp: addr_char_def hex_char_def to_digit_def)
    moreover have "consumes (\<lambda>c. c \<noteq> 93) s2 s3"
      using sc by (auto split: option.splits intro: scope_consumes)
    ultimately have "consumes (\<lambda>c. c \<noteq> 93) s1 s3" by (rule consumes_trans)
    then obtain u where "s1 = u @ s3" "93 \<notin> set u" by (auto simp: consumes_def)
    with s s3 addr read_port_end [OF port] show ?thesis unfolding port_digits_def by auto
  qed
qed

section \<open>Reading back a printed IPv4 address\<close>

definition show_sock_v4 :: "u8 \<Rightarrow> u8 \<Rightarrow> u8 \<Rightarrow> u8 \<Rightarrow> u16 \<Rightarrow> str" where
  "show_sock_v4 a b c d p =
     show_nat (unat a) @ 46 # show_nat (unat b) @ 46 # show_nat (unat c) @ 46 # show_nat (unat d) @
     58 # show_nat (unat p)"

lemma hd_show_nat: "0 < n \<Longrightarrow> hd (show_nat n) \<noteq> 48"
proof (induction n rule: show_nat.induct)
  case (1 n)
  show ?case
  proof (cases "n < 10")
    case False
    then have "hd (show_nat (n div 10)) \<noteq> 48" using "1.IH" by simp
    with False show ?thesis by (simp add: show_nat.simps [of n])
  qed (use "1.prems" in \<open>simp add: show_nat.simps [of n]\<close>)
qed

lemma show_nat_no_leading_zero: "hd (show_nat n) = 48 \<Longrightarrow> length (show_nat n) = 1"
  by (cases "n = 0") (auto dest: hd_show_nat simp: show_nat.simps [of 0])

lemma length_show_nat: "n < 10 ^ Suc k \<Longrightarrow> length (show_nat n) \<le> Suc k"
proof (induction k arbitrary: n)
  case 0
  then show ?case by (simp add: show_nat.simps [of n])
next
  case (Suc k)
  then have "n div 10 < 10 ^ Suc k" by (simp add: div_less_iff_less_mult)
  from Suc.IH [OF this] show ?case by (simp add: show_nat.simps [of n])
qed

lemma read_number_show:
  assumes "n < limit" and "t = [] \<or> \<not> is_digit (hd t)"
    and "case m of None \<Rightarrow> True | Some k \<Rightarrow> length (show_nat n) \<le> k"
  shows "read_number limit 10 m z (show_nat n @ t) = Some (n, t)"
proof -
  have dig: "\<forall>c \<in> set (show_nat n). is_digit c" using show_nat_digits by blast
  have "digits_of 10 (show_nat n @ t) = show_nat n"
    unfolding digits_of_def digit_is_digit
    by (subst takeWhile_append2) (use dig assms(2) in \<open>cases t; auto\<close>)+
  moreover have "digits_value 10 (show_nat n) = n"
    using dig by (simp add: digits_value_dec dec_value_show)
  ultimately show ?thesis
    using assms show_nat_no_leading_zero [of n]
    by (auto simp: read_number_def Let_def split: option.splits)
qed

lemma read_octet_show:
  fixes a :: u8
  assumes "t = [] \<or> \<not> is_digit (hd t)"
  shows "read_octet (show_nat (unat a) @ t) = Some (unat a, t)"
proof -
  have a: "unat a < 256" using unat_bound [of a] by simp
  then have "length (show_nat (unat a)) \<le> Suc 2" by (intro length_show_nat) simp
  with a assms show ?thesis unfolding read_octet_def by (intro read_number_show) auto
qed

lemma read_given_head [simp]: "read_given_char c (c # s) = Some s"
  by (simp add: read_given_char_def)

lemma parse_show_sock_v4:
  "parse_socket_addr (show_sock_v4 a b c d p) = Some (SockV4 (ipv4_new a b c d) p)"
proof -
  have sep: "\<not> is_digit 46" "\<not> is_digit 58" by (simp_all add: is_digit_def)
  let ?port = "show_nat (unat p)"
  have "read_ipv4_addr (show_sock_v4 a b c d p) = Some ([a, b, c, d], 58 # ?port)"
    unfolding show_sock_v4_def read_ipv4_addr_def read_separator_def
    by (simp add: read_octet_show sep)
  moreover have "read_port (58 # ?port) = Some (p, [])"
    using read_number_show [of "unat p" 65536 "[]" None True] unat_u16 [of p]
    by (simp add: read_port_def)
  ultimately show ?thesis by (simp add: parse_socket_addr_def read_socket_addr_v4_def)
qed

end
