(* ===== verification/Target.thy ===== *)
theory Target
  imports Net_Addr
begin

text \<open>
  \<open>src/src/target.rs\<close>: where the traffic goes. A target is an address literal
  (\<open>Static\<close>) or a host name whose address is cached with a deadline (\<open>Dynamic\<close>) and
  refreshed by a background task when a caller finds it expired.

  The resolver library is a parameter: how a resolver is built, and what each of its lookups
  answers. An error is the list of its messages, outermost context first, as \<open>anyhow\<close>
  prints its chain. Instants and durations are natural numbers of nanoseconds; the clock is
  an argument of each operation that reads it.
\<close>

section \<open>The code: splitting the target\<close>

type_synonym anyhow = "str list"

definition with_context :: "str \<Rightarrow> anyhow + 'a \<Rightarrow> anyhow + 'a" where
  "with_context c r = map_err (\<lambda>ms. c # ms) r"

definition invalid_target :: "str \<Rightarrow> str \<Rightarrow> anyhow" where
  "invalid_target raw why = [lit ''invalid target `'' @ raw @ lit ''`: '' @ why]"

definition parse_target_port :: "str \<Rightarrow> str \<Rightarrow> anyhow + u16" where
  "parse_target_port port_part raw =
     rbind (map_err (\<lambda>_. invalid_target raw (lit ''`'' @ port_part @ lit ''` is not a valid port''))
             (parse_u16 port_part))
       (\<lambda>port.
          if port = 0 then Inl (invalid_target raw (lit ''port must be non-zero''))
          else Inr port)"

definition split_host_port :: "str \<Rightarrow> anyhow + (str \<times> u16)" where
  "split_host_port raw =
     (case strip_prefix (of_char CHR ''['') raw of
        Some rest \<Rightarrow>
          rbind (ok_or (invalid_target raw (lit ''missing `]` in bracketed host''))
                  (find_char (of_char CHR '']'') rest)) (\<lambda>end.
          let host = take end rest;
              after = drop (end + 1) rest in
          rbind (ok_or (invalid_target raw (lit ''expected `:port` after `]`''))
                  (strip_prefix (of_char CHR '':'') after)) (\<lambda>port_part.
          rbind (parse_target_port port_part raw) (\<lambda>port. Inr (host, port))))
      | None \<Rightarrow>
          rbind (ok_or (invalid_target raw (lit ''expected `host:port`''))
                  (rsplit_once (of_char CHR '':'') raw)) (\<lambda>(host, port_part).
          if host = [] then Inl (invalid_target raw (lit ''host is empty''))
          else rbind (parse_target_port port_part raw) (\<lambda>port. Inr (host, port))))"

section \<open>The code: resolving\<close>

definition secs :: "nat \<Rightarrow> nat" where
  "secs n = n * 1000000000"

definition dns_positive_min_ttl :: nat where "dns_positive_min_ttl = secs 5"

definition dns_positive_max_ttl :: nat where "dns_positive_max_ttl = secs 600"

definition dns_failure_refresh :: nat where "dns_failure_refresh = secs 30"

record resolved =
  rv_addr :: socket_addr
  rv_valid_until :: nat

text \<open>A lookup answers the addresses and the instant until which they are valid.\<close>

type_synonym lookup_answer = "ip_addr list \<times> nat"
type_synonym lookup = "str \<Rightarrow> anyhow + lookup_answer"

definition clamp :: "nat \<Rightarrow> nat \<Rightarrow> nat \<Rightarrow> nat" where
  "clamp x lo hi = (if x < lo then lo else if hi < x then hi else x)"

definition resolve_once :: "lookup \<Rightarrow> nat \<Rightarrow> str \<Rightarrow> u16 \<Rightarrow> anyhow + (resolved \<times> nat)" where
  "resolve_once lookup_ip now host port =
     rbind (with_context (lit ''DNS lookup for `'' @ host @ lit ''` failed'') (lookup_ip host))
       (\<lambda>(ips, ttl_deadline).
     rbind (ok_or [lit ''DNS lookup for `'' @ host @ lit ''` returned no records'']
             (case ips of [] \<Rightarrow> None | ip # _ \<Rightarrow> Some ip)) (\<lambda>addr.
       let raw_ttl = ttl_deadline - now;
           clamped_ttl = clamp raw_ttl dns_positive_min_ttl dns_positive_max_ttl
       in Inr (\<lparr>rv_addr = socket_addr_new addr port, rv_valid_until = now + clamped_ttl\<rparr>, clamped_ttl)))"

text \<open>The resolver library: a resolver from explicit name servers (address, port, and whether
  negative answers are trusted) or from the system's configuration, and its lookups.\<close>

record 'r resolver_lib =
  rl_with_config :: "ip_addr list \<Rightarrow> u16 \<Rightarrow> bool \<Rightarrow> 'r"
  rl_system :: "anyhow + 'r"
  rl_lookup :: "'r \<Rightarrow> lookup"

definition build_resolver :: "'r resolver_lib \<Rightarrow> socket_addr option \<Rightarrow> anyhow + 'r" where
  "build_resolver lib dns_server =
     (case dns_server of
        Some addr \<Rightarrow> Inr (rl_with_config lib [addr_ip addr] (addr_port addr) True)
      | None \<Rightarrow> with_context (lit ''failed to initialize system DNS resolver'') (rl_system lib))"

record 'r dynamic_target =
  dt_raw :: str
  dt_host :: str
  dt_port :: u16
  dt_resolver :: 'r
  dt_current :: resolved
  dt_refresh_inflight :: bool

record static_target =
  st_raw :: str
  st_addr :: socket_addr

datatype 'r target_addr = Static static_target | Dynamic "'r dynamic_target"

definition target_bind ::
    "'r resolver_lib \<Rightarrow> nat \<Rightarrow> str \<Rightarrow> socket_addr option \<Rightarrow> anyhow + 'r target_addr" where
  "target_bind lib now raw dns_server =
     rbind (split_host_port raw) (\<lambda>(host, port).
     case parse_socket_addr raw of
       Some addr \<Rightarrow> Inr (Static \<lparr>st_raw = raw, st_addr = addr\<rparr>)
     | None \<Rightarrow>
         rbind (build_resolver lib dns_server) (\<lambda>resolver.
         rbind (with_context (lit ''failed to resolve target host `'' @ host @ lit ''`'')
                 (resolve_once (rl_lookup lib resolver) now host port)) (\<lambda>(resolved, _).
           Inr (Dynamic \<lparr>dt_raw = raw, dt_host = host, dt_port = port, dt_resolver = resolver,
                 dt_current = resolved, dt_refresh_inflight = False\<rparr>))))"

section \<open>The code: the cached address and its refresh\<close>

text \<open>The \<open>compare_exchange\<close> of the flag: the caller that wins spawns the refresh task.\<close>

definition try_spawn_refresh :: "'r dynamic_target \<Rightarrow> 'r dynamic_target \<times> bool" where
  "try_spawn_refresh t =
     (if dt_refresh_inflight t then (t, False) else (t\<lparr>dt_refresh_inflight := True\<rparr>, True))"

text \<open>After \<open>current\<close> has copied the cache entry: the expiry test and the answer.\<close>

definition answer_current :: "nat \<Rightarrow> resolved \<Rightarrow> 'r dynamic_target \<Rightarrow> socket_addr \<times> 'r dynamic_target \<times> bool" where
  "answer_current now resolved t =
     (rv_addr resolved, if rv_valid_until resolved \<le> now then try_spawn_refresh t else (t, False))"

definition dynamic_current :: "nat \<Rightarrow> 'r dynamic_target \<Rightarrow> socket_addr \<times> 'r dynamic_target \<times> bool" where
  "dynamic_current now t = answer_current now (dt_current t) t"

fun target_current :: "nat \<Rightarrow> 'r target_addr \<Rightarrow> socket_addr \<times> 'r target_addr \<times> bool" where
  "target_current now (Static s) = (st_addr s, Static s, False)"
| "target_current now (Dynamic d) =
     (case dynamic_current now d of (addr, d', spawned) \<Rightarrow> (addr, Dynamic d', spawned))"

fun target_display :: "'r target_addr \<Rightarrow> str" where
  "target_display (Static s) = st_raw s"
| "target_display (Dynamic d) = dt_raw d"

text \<open>The spawned task between its awaits and locks: it waits for the lookup; when that
  failed it reads the stale address; it writes the cache; it clears the flag.\<close>

datatype refresh_task = Resolving | Failed | Publishing resolved | Releasing

fun refresh_task_step ::
    "lookup \<Rightarrow> nat \<Rightarrow> refresh_task \<Rightarrow> 'r dynamic_target \<Rightarrow> refresh_task option \<times> 'r dynamic_target" where
  "refresh_task_step lookup_ip now Resolving t =
     (case resolve_once lookup_ip now (dt_host t) (dt_port t) of
        Inr (resolved, ttl) \<Rightarrow> (Some (Publishing resolved), t)
      | Inl e \<Rightarrow> (Some Failed, t))"
| "refresh_task_step lookup_ip now Failed t =
     (Some (Publishing \<lparr>rv_addr = rv_addr (dt_current t), rv_valid_until = now + dns_failure_refresh\<rparr>), t)"
| "refresh_task_step lookup_ip now (Publishing next) t =
     (Some Releasing, t\<lparr>dt_current := next\<rparr>)"
| "refresh_task_step lookup_ip now Releasing t = (None, t\<lparr>dt_refresh_inflight := False\<rparr>)"

section \<open>Splitting\<close>

lemma target_char_codes [simp]: "(of_char CHR ''['' :: nat) = 91" "(of_char CHR '']'' :: nat) = 93"
    "(of_char CHR '':'' :: nat) = 58"
  by simp_all

lemma with_context_Inr [simp]: "with_context c r = Inr x \<longleftrightarrow> r = Inr x"
  by (simp add: with_context_def)

lemma parse_target_port_Inr:
  "parse_target_port s raw = Inr p \<longleftrightarrow> parse_u16 s = Inr p \<and> p \<noteq> 0"
  by (auto simp: parse_target_port_def)

lemma split_plain:
  assumes "strip_prefix 91 raw = None"
  shows "split_host_port raw = Inr (host, port) \<longleftrightarrow>
     (\<exists>ds. (raw = 91 # host @ 93 # 58 # ds \<and> 93 \<notin> set host \<or>
            raw = host @ 58 # ds \<and> host \<noteq> [] \<and> hd host \<noteq> 91 \<and> 58 \<notin> set ds) \<and>
          parse_u16 ds = Inr port \<and> port \<noteq> 0)"
proof -
  have no: "raw \<noteq> 91 # r" for r using assms by (metis strip_prefix_Cons option.distinct(1))
  show ?thesis
  proof (cases "rsplit_once 58 raw")
    case None
    then have "58 \<notin> set raw" by (simp add: rsplit_once_None)
    with None assms show ?thesis by (auto simp: split_host_port_def lit_def)
  next
    case (Some ab)
    obtain a b where ab: "ab = (a, b)" by (cases ab)
    with Some have raw: "raw = a @ 58 # b" "58 \<notin> set b" by (auto simp: rsplit_once_Some)
    have cut: "raw = h @ 58 # t \<and> 58 \<notin> set t \<longleftrightarrow> h = a \<and> t = b" for h t
      using raw last_sep_unique [of a 58 b h t] by auto
    have hd: "a \<noteq> [] \<Longrightarrow> hd a \<noteq> 91" using no raw(1) by (cases a) auto
    have shape: "(raw = 91 # host @ 93 # 58 # ds \<and> 93 \<notin> set host \<or>
          raw = host @ 58 # ds \<and> host \<noteq> [] \<and> hd host \<noteq> 91 \<and> 58 \<notin> set ds) \<longleftrightarrow>
        host = a \<and> ds = b \<and> a \<noteq> []" for ds
      using no [of "host @ 93 # 58 # ds"] cut [of host ds] hd by metis
    have "split_host_port raw = Inr (host, port) \<longleftrightarrow>
        host = a \<and> a \<noteq> [] \<and> parse_u16 b = Inr port \<and> port \<noteq> 0"
      by (auto simp: split_host_port_def assms Some ab parse_target_port_Inr)
    then show ?thesis unfolding shape by blast
  qed
qed

lemma split_bracketed:
  assumes "strip_prefix 91 raw = Some rest"
  shows "split_host_port raw = Inr (host, port) \<longleftrightarrow>
     (\<exists>ds. (raw = 91 # host @ 93 # 58 # ds \<and> 93 \<notin> set host \<or>
            raw = host @ 58 # ds \<and> host \<noteq> [] \<and> hd host \<noteq> 91 \<and> 58 \<notin> set ds) \<and>
          parse_u16 ds = Inr port \<and> port \<noteq> 0)"
proof -
  have raw: "raw = 91 # rest" using assms by simp
  have hd: "\<not> (raw = host @ 58 # ds \<and> host \<noteq> [] \<and> hd host \<noteq> 91)" for ds
    using raw by (cases host) auto
  show ?thesis
  proof (cases "find_char 93 rest")
    case None
    then have "93 \<notin> set rest" by (simp add: find_char_None)
    with None assms raw hd show ?thesis by (auto simp: split_host_port_def lit_def)
  next
    case (Some e)
    from find_char_Some [OF this] have e: "93 \<notin> set (take e rest)" "rest = take e rest @ 93 # drop (Suc e) rest"
      by auto
    have cut: "rest = h @ 93 # t \<and> 93 \<notin> set h \<longleftrightarrow> h = take e rest \<and> t = drop (Suc e) rest" for h t
    proof
      assume asm: "rest = h @ 93 # t \<and> 93 \<notin> set h"
      then have "e = length h" using Some find_char_append [of 93 h t] by simp
      with asm show "h = take e rest \<and> t = drop (Suc e) rest" by simp
    qed (use e in auto)
    have shape: "(raw = 91 # host @ 93 # 58 # ds \<and> 93 \<notin> set host \<or>
          raw = host @ 58 # ds \<and> host \<noteq> [] \<and> hd host \<noteq> 91 \<and> 58 \<notin> set ds) \<longleftrightarrow>
        host = take e rest \<and> drop (Suc e) rest = 58 # ds" for ds
      using cut [of host "58 # ds"] raw hd [of ds] by (metis list.inject)
    have "split_host_port raw = Inr (host, port) \<longleftrightarrow>
        (\<exists>ds. (host = take e rest \<and> drop (Suc e) rest = 58 # ds) \<and> parse_u16 ds = Inr port \<and> port \<noteq> 0)"
      by (auto simp: split_host_port_def Let_def parse_target_port_Inr Some assms raw)
    then show ?thesis unfolding shape .
  qed
qed

lemma split_shape:
  "split_host_port raw = Inr (host, port) \<longleftrightarrow>
     (\<exists>ds. (raw = 91 # host @ 93 # 58 # ds \<and> 93 \<notin> set host \<or>
            raw = host @ 58 # ds \<and> host \<noteq> [] \<and> hd host \<noteq> 91 \<and> 58 \<notin> set ds) \<and>
          parse_u16 ds = Inr port \<and> port \<noteq> 0)"
  by (cases "strip_prefix 91 raw") (rule split_plain split_bracketed, assumption)+

text \<open>C33: What \<open>split_host_port\<close> accepts: either a bracketed host up to the first closing bracket,
  then a colon and the port, or a non-empty host that does not start with a bracket, up to the
  last colon, then the port. The port is a decimal number between 1 and 65535. Everything else
  is an error. (A bracketed host may be empty, unlike one without brackets.)\<close>

theorem split_host_port_spec:
  "split_host_port raw = Inr (host, port) \<longleftrightarrow>
     (\<exists>ds. (raw = lit ''['' @ host @ lit '']:'' @ ds \<and> of_char CHR '']'' \<notin> set host \<or>
            raw = host @ lit '':'' @ ds \<and> host \<noteq> [] \<and> hd host \<noteq> of_char CHR ''['' \<and> of_char CHR '':'' \<notin> set ds) \<and>
          parse_u16 ds = Inr port \<and> port \<noteq> 0)"
  by (simp add: split_shape lit_def)

text \<open>Writing a host and a port in either form and splitting it gives them back.\<close>

lemma split_host_port_roundtrip:
  assumes "port \<noteq> 0" and "of_char CHR '']'' \<notin> set host"
    and "host \<noteq> []" and "hd host \<noteq> of_char CHR ''[''"
  shows "split_host_port (lit ''['' @ host @ lit '']:'' @ show_nat (unat port)) = Inr (host, port) \<and>
    split_host_port (host @ lit '':'' @ show_nat (unat port)) = Inr (host, port)"
proof -
  have parse: "parse_u16 (show_nat (unat port)) = Inr port"
    using parse_u16_show [of "unat port"] unat_u16 [of port] by simp
  have "58 \<notin> set (show_nat (unat port))" using show_nat_digits [of 58 "unat port"] by (auto simp: is_digit_def)
  with parse assms show ?thesis unfolding split_shape
    by (intro conjI exI [of _ "show_nat (unat port)"]) (simp_all add: lit_def)
qed

text \<open>The check for an empty host is made for one form only.\<close>

lemma empty_bracketed_host:
  "split_host_port (lit ''[]:443'') = Inr ([], 443) \<and> (\<exists>e. split_host_port (lit '':443'') = Inl e)"
proof
  show "split_host_port (lit ''[]:443'') = Inr ([], 443)"
    using parse_u16_show [of 443] unfolding split_shape
    by (intro conjI exI [of _ "show_nat 443"]) (simp_all add: lit_def show_nat.simps)
  have "split_host_port (lit '':443'') \<noteq> Inr hp" for hp
    by (cases hp) (auto simp: split_shape lit_def Cons_eq_append_conv)
  then show "\<exists>e. split_host_port (lit '':443'') = Inl e" by (cases "split_host_port (lit '':443'')") auto
qed

section \<open>Binding a target\<close>

lemma literal_splits:
  assumes "parse_socket_addr raw = Some addr" and "addr_port addr \<noteq> 0"
  shows "\<exists>host. split_host_port raw = Inr (host, addr_port addr)"
  using parse_socket_addr_shape [OF assms(1)] assms(2)
proof (elim disjE exE conjE)
  fix u ds assume "raw = u @ 58 # ds" "u \<noteq> []" "91 \<notin> set u" "port_digits ds (addr_port addr)"
  then show ?thesis using assms(2)
    by (intro exI [of _ u])
      (auto simp: split_shape lit_def port_digits_parse port_digits_no_colon neq_Nil_conv)
next
  fix u ds assume "raw = 91 # u @ 93 # 58 # ds" "93 \<notin> set u" "port_digits ds (addr_port addr)"
  then show ?thesis using assms(2)
    by (intro exI [of _ u]) (auto simp: split_shape lit_def port_digits_parse)
qed

lemma literal_split_port:
  assumes "parse_socket_addr raw = Some addr" and "split_host_port raw = Inr (host, port)"
  shows "port = addr_port addr"
proof (cases "addr_port addr = 0")
  case False
  with literal_splits [OF assms(1)] assms(2) show ?thesis by auto
next
  case True
  from parse_socket_addr_shape [OF assms(1)] obtain ds where
    ds: "port_digits ds 0" "(\<exists>u. raw = u @ 58 # ds \<and> 91 \<notin> set u) \<or> (\<exists>u. raw = 91 # u @ 93 # 58 # ds \<and> 93 \<notin> set u)"
    unfolding True by blast
  have no: "58 \<notin> set ds" "parse_u16 ds = Inr 0"
    using ds(1) port_digits_no_colon port_digits_parse by blast+
  from assms(2) obtain es where es: "parse_u16 es = Inr port" "port \<noteq> 0"
    "raw = 91 # host @ 93 # 58 # es \<and> 93 \<notin> set host \<or> raw = host @ 58 # es \<and> hd host \<noteq> 91 \<and> host \<noteq> [] \<and> 58 \<notin> set es"
    unfolding split_shape by blast
  from ds(2) es(3) have "es = ds"
  proof (elim disjE exE conjE)
    fix u assume "raw = u @ 58 # ds" "raw = host @ 58 # es" "58 \<notin> set es"
    then show ?thesis using last_sep_unique [of u 58 ds host es] no(1) by simp
  next
    fix u assume "raw = 91 # u @ 93 # 58 # ds" "raw = 91 # host @ 93 # 58 # es" "93 \<notin> set host" "93 \<notin> set u"
    then show ?thesis using first_sep_unique [of u 93 "58 # ds" host "58 # es"] by simp
  next
    fix u assume "raw = u @ 58 # ds" "91 \<notin> set u" "raw = 91 # host @ 93 # 58 # es"
    then show ?thesis by (cases u) auto
  next
    fix u assume "raw = 91 # u @ 93 # 58 # ds" "raw = host @ 58 # es" "hd host \<noteq> 91" "host \<noteq> []"
    then show ?thesis by (cases host) auto
  qed
  with es(1,2) no(2) show ?thesis by simp
qed

text \<open>A target that is an address literal with a non-zero port is bound without the resolver:
  whatever the resolver library does, the target is static and its address is the literal's;
  with port 0 it is rejected.\<close>

lemma bind_literal:
  assumes "parse_socket_addr raw = Some addr"
  shows "(addr_port addr \<noteq> 0 \<longrightarrow>
      target_bind lib now raw dns = Inr (Static \<lparr>st_raw = raw, st_addr = addr\<rparr>)) \<and>
    (addr_port addr = 0 \<longrightarrow> (\<exists>e. target_bind lib now raw dns = Inl e))"
proof (intro conjI impI)
  assume "addr_port addr \<noteq> 0"
  with literal_splits [OF assms] assms
  show "target_bind lib now raw dns = Inr (Static \<lparr>st_raw = raw, st_addr = addr\<rparr>)"
    by (auto simp: target_bind_def)
next
  assume "addr_port addr = 0"
  with literal_split_port [OF assms] have "split_host_port raw \<noteq> Inr (host, port)" if "port \<noteq> 0" for host port
    using that by auto
  moreover have "split_host_port raw \<noteq> Inr (host, 0)" for host by (simp add: split_shape)
  ultimately have "split_host_port raw \<noteq> Inr r" for r by (cases r) metis
  then show "\<exists>e. target_bind lib now raw dns = Inl e"
    by (cases "split_host_port raw") (auto simp: target_bind_def)
qed

text \<open>Every target that binds keeps the text it was configured with and forwards to the port
  written in it, whatever the resolver answers.\<close>

lemma bound_target:
  assumes "target_bind lib now raw dns = Inr t" and "target_current now' t = (addr, t', spawned)"
  shows "target_display t = raw \<and> (\<exists>host. split_host_port raw = Inr (host, addr_port addr)) \<and> addr_port addr \<noteq> 0"
proof -
  from assms(1) obtain host port where split: "split_host_port raw = Inr (host, port)"
    by (auto simp: target_bind_def)
  then have nz: "port \<noteq> 0" by (auto simp: split_shape)
  show ?thesis
  proof (cases "parse_socket_addr raw")
    case (Some a)
    with assms(1) split have "t = Static \<lparr>st_raw = raw, st_addr = a\<rparr>" by (simp add: target_bind_def)
    with assms(2) literal_split_port [OF Some split] split nz show ?thesis by auto
  next
    case None
    with assms(1) split obtain d where d: "t = Dynamic d" "dt_raw d = raw"
      "addr_port (rv_addr (dt_current d)) = port"
      by (auto simp: target_bind_def resolve_once_def Let_def)
    with assms(2) split nz show ?thesis
      by (auto simp: dynamic_current_def answer_current_def split: if_splits prod.splits)
  qed
qed

end
