(* ===== verification/Target_Refresh.thy ===== *)
theory Target_Refresh
  imports Target
begin

text \<open>
  The refresh of a dynamic target as a state machine: any number of callers of \<open>current\<close>,
  each between its read of the cache and its expiry test, and the refresh tasks, each
  between its awaits and locks. The steps are those of \<open>Target\<close>; a lookup may answer
  anything from the set \<open>L\<close>, and the clock anything at all.
\<close>

section \<open>The deadline of an answer\<close>

lemma clamp_bounds: "lo \<le> hi \<Longrightarrow> lo \<le> clamp x lo hi \<and> clamp x lo hi \<le> hi \<and> (lo \<le> x \<and> x \<le> hi \<longrightarrow> clamp x lo hi = x)"
  by (simp add: clamp_def)

lemma ttl_bounds: "dns_positive_min_ttl \<le> dns_positive_max_ttl"
  by (simp add: dns_positive_min_ttl_def dns_positive_max_ttl_def secs_def)

text \<open>A lookup resolves exactly when it answers at least one address; the first one is used,
  with the configured port. The cache entry is kept at least 5 and at most 600 seconds, and
  until the answer's own deadline when that lies in between.\<close>

lemma resolve_once_spec:
  "resolve_once lookup_ip now host port = Inr (r, ttl) \<longleftrightarrow>
     (\<exists>ip ips deadline. lookup_ip host = Inr (ip # ips, deadline) \<and>
        rv_addr r = socket_addr_new ip port \<and> rv_valid_until r = now + ttl \<and>
        ttl = max (secs 5) (min (secs 600) (deadline - now)))"
proof -
  have clamp: "clamp x dns_positive_min_ttl dns_positive_max_ttl = max (secs 5) (min (secs 600) x)" for x
    by (auto simp: clamp_def dns_positive_min_ttl_def dns_positive_max_ttl_def secs_def)
  show ?thesis
  proof (cases "lookup_ip host")
    case (Inl e)
    then show ?thesis by (simp add: resolve_once_def with_context_def)
  next
    case (Inr a)
    obtain ips d where a: "a = (ips, d)" by (cases a)
    with Inr show ?thesis
      by (cases ips; cases r) (auto simp: resolve_once_def with_context_def clamp Let_def)
  qed
qed

lemma resolve_once_first:
  assumes "resolve_once lookup_ip now host port = Inr (r, ttl)"
  shows "\<exists>ip ips d. lookup_ip host = Inr (ip # ips, d) \<and> rv_addr r = socket_addr_new ip port"
proof -
  from assms obtain ips d where "lookup_ip host = Inr (ips, d)" by (auto simp: resolve_once_def)
  with assms show ?thesis by (cases ips) (auto simp: resolve_once_def with_context_def Let_def)
qed

section \<open>The state machine\<close>

definition remove_nth :: "nat \<Rightarrow> 'a list \<Rightarrow> 'a list" where
  "remove_nth i xs = take i xs @ drop (Suc i) xs"

record 'r refresh_state =
  rf_target :: "'r dynamic_target"
  rf_callers :: "resolved list"
  rf_tasks :: "refresh_task list"
  rf_returned :: "socket_addr list"

definition refresh_init :: "'r dynamic_target \<Rightarrow> 'r refresh_state" where
  "refresh_init t = \<lparr>rf_target = t, rf_callers = [], rf_tasks = [], rf_returned = []\<rparr>"

inductive refresh_step :: "lookup set \<Rightarrow> 'r refresh_state \<Rightarrow> 'r refresh_state \<Rightarrow> bool"
  for L :: "lookup set" where
  read: "refresh_step L s (s\<lparr>rf_callers := rf_callers s @ [dt_current (rf_target s)]\<rparr>)"
| answer: "i < length (rf_callers s) \<Longrightarrow>
    answer_current now (rf_callers s ! i) (rf_target s) = (addr, t', spawned) \<Longrightarrow>
    refresh_step L s
      (s\<lparr>rf_target := t', rf_callers := remove_nth i (rf_callers s),
         rf_tasks := rf_tasks s @ (if spawned then [Resolving] else []),
         rf_returned := rf_returned s @ [addr]\<rparr>)"
| task: "j < length (rf_tasks s) \<Longrightarrow> lookup_ip \<in> L \<Longrightarrow>
    refresh_task_step lookup_ip now (rf_tasks s ! j) (rf_target s) = (k, t') \<Longrightarrow>
    refresh_step L s
      (s\<lparr>rf_target := t',
         rf_tasks := (case k of None \<Rightarrow> remove_nth j (rf_tasks s) | Some k' \<Rightarrow> (rf_tasks s)[j := k'])\<rparr>)"

inductive refresh_reach :: "lookup set \<Rightarrow> 'r refresh_state \<Rightarrow> 'r refresh_state \<Rightarrow> bool"
  for L :: "lookup set" and s0 :: "'r refresh_state" where
  here: "refresh_reach L s0 s0"
| step: "refresh_reach L s0 s \<Longrightarrow> refresh_step L s s' \<Longrightarrow> refresh_reach L s0 s'"

inductive_cases refresh_stepE: "refresh_step L s s'"

text \<open>The addresses a target may ever hand out: the one it was bound with and the first
  addresses of answers to its host.\<close>

definition answers :: "lookup set \<Rightarrow> 'r dynamic_target \<Rightarrow> socket_addr set" where
  "answers L t = {rv_addr (dt_current t)} \<union>
     {socket_addr_new ip (dt_port t) | ip lookup_ip ips d.
        lookup_ip \<in> L \<and> lookup_ip (dt_host t) = Inr (ip # ips, d)}"

fun task_ok :: "socket_addr set \<Rightarrow> refresh_task \<Rightarrow> bool" where
  "task_ok A (Publishing r) \<longleftrightarrow> rv_addr r \<in> A"
| "task_ok A _ \<longleftrightarrow> True"

definition refresh_inv :: "lookup set \<Rightarrow> 'r dynamic_target \<Rightarrow> 'r refresh_state \<Rightarrow> bool" where
  "refresh_inv L t0 s \<longleftrightarrow>
     length (rf_tasks s) = (if dt_refresh_inflight (rf_target s) then 1 else 0) \<and>
     dt_raw (rf_target s) = dt_raw t0 \<and> dt_host (rf_target s) = dt_host t0 \<and>
     dt_port (rf_target s) = dt_port t0 \<and> dt_resolver (rf_target s) = dt_resolver t0 \<and>
     rv_addr (dt_current (rf_target s)) \<in> answers L t0 \<and>
     rv_addr ` set (rf_callers s) \<subseteq> answers L t0 \<and>
     (\<forall>k \<in> set (rf_tasks s). task_ok (answers L t0) k) \<and>
     set (rf_returned s) \<subseteq> answers L t0"

lemma set_remove_nth: "set (remove_nth i xs) \<subseteq> set xs"
  by (auto simp: remove_nth_def dest: in_set_takeD in_set_dropD)

lemma refresh_inv_task:
  assumes "refresh_inv L t0 s" and "j < length (rf_tasks s)" and "lookup_ip \<in> L"
    and "refresh_task_step lookup_ip now (rf_tasks s ! j) (rf_target s) = (k, t')"
  shows "refresh_inv L t0 (s\<lparr>rf_target := t',
    rf_tasks := (case k of None \<Rightarrow> remove_nth j (rf_tasks s) | Some k' \<Rightarrow> (rf_tasks s)[j := k'])\<rparr>)"
proof -
  have "length (rf_tasks s) = 1" "j = 0" and busy: "dt_refresh_inflight (rf_target s)"
    using assms(1,2) by (auto simp: refresh_inv_def split: if_splits)
  then obtain k0 where k0: "rf_tasks s = [k0]" "j = 0" by (auto simp: length_Suc_conv)
  with assms(4) have run: "refresh_task_step lookup_ip now k0 (rf_target s) = (k, t')" by simp
  have ok: "task_ok (answers L t0) k0" and same: "dt_host (rf_target s) = dt_host t0"
      "dt_port (rf_target s) = dt_port t0" "rv_addr (dt_current (rf_target s)) \<in> answers L t0"
    using assms(1) k0 by (simp_all add: refresh_inv_def)
  note inv = assms(1) [unfolded refresh_inv_def]
  show ?thesis
  proof (cases k0)
    case Resolving
    show ?thesis
    proof (cases "resolve_once lookup_ip now (dt_host t0) (dt_port t0)")
      case (Inl e)
      with run Resolving same have "k = Some Failed" "t' = rf_target s" by simp_all
      with inv busy k0 show ?thesis by (simp add: refresh_inv_def)
    next
      case (Inr q)
      obtain r ttl where q: "q = (r, ttl)" by (cases q)
      with Inr obtain ip ips d where "lookup_ip (dt_host t0) = Inr (ip # ips, d)"
        "rv_addr r = socket_addr_new ip (dt_port t0)"
        using resolve_once_first by blast
      with assms(3) have "rv_addr r \<in> answers L t0" by (auto simp: answers_def)
      moreover from run Resolving same Inr q have "k = Some (Publishing r)" "t' = rf_target s"
        by simp_all
      ultimately show ?thesis using inv busy k0 by (simp add: refresh_inv_def)
    qed
  next
    case Failed
    with run have "k = Some (Publishing \<lparr>rv_addr = rv_addr (dt_current (rf_target s)),
        rv_valid_until = now + dns_failure_refresh\<rparr>)" "t' = rf_target s" by auto
    with inv busy k0 same show ?thesis by (simp add: refresh_inv_def)
  next
    case (Publishing r)
    with run have "k = Some Releasing" "t' = rf_target s\<lparr>dt_current := r\<rparr>" by simp_all
    with inv busy k0 ok Publishing show ?thesis by (simp add: refresh_inv_def)
  next
    case Releasing
    with run have "k = None" "t' = rf_target s\<lparr>dt_refresh_inflight := False\<rparr>" by simp_all
    with inv k0 show ?thesis by (simp add: refresh_inv_def remove_nth_def)
  qed
qed

lemma refresh_inv_answer:
  assumes "refresh_inv L t0 s" and "i < length (rf_callers s)"
    and "answer_current now (rf_callers s ! i) (rf_target s) = (addr, t', spawned)"
  shows "refresh_inv L t0 (s\<lparr>rf_target := t', rf_callers := remove_nth i (rf_callers s),
    rf_tasks := rf_tasks s @ (if spawned then [Resolving] else []), rf_returned := rf_returned s @ [addr]\<rparr>)"
proof -
  have "rv_addr (rf_callers s ! i) \<in> answers L t0"
    using assms(1,2) nth_mem [OF assms(2)] by (auto simp: refresh_inv_def)
  moreover have "rv_addr ` set (remove_nth i (rf_callers s)) \<subseteq> answers L t0"
    using assms(1) set_remove_nth [of i "rf_callers s"] by (auto simp: refresh_inv_def)
  ultimately show ?thesis
    using assms by (auto simp: refresh_inv_def answer_current_def try_spawn_refresh_def split: if_splits)
qed

lemma refresh_inv_step:
  assumes "refresh_step L s s'" and "refresh_inv L t0 s"
  shows "refresh_inv L t0 s'"
  using assms(1)
proof (cases rule: refresh_step.cases)
  case read
  with assms(2) show ?thesis by (simp add: refresh_inv_def)
next
  case (answer i now addr t' spawned)
  with refresh_inv_answer [OF assms(2)] show ?thesis by simp
next
  case (task j lookup_ip now k t')
  with refresh_inv_task [OF assms(2)] show ?thesis by simp
qed

lemma refresh_inv_reach:
  assumes "refresh_reach L (refresh_init t0) s" and "\<not> dt_refresh_inflight t0"
  shows "refresh_inv L t0 s"
  using assms
proof (induction rule: refresh_reach.induct)
  case here
  then show ?case by (simp add: refresh_inv_def refresh_init_def answers_def)
next
  case (step s s')
  then show ?case using refresh_inv_step by blast
qed

text \<open>C16: Under every interleaving of callers and refresh tasks, at most one refresh is in flight,
  and there is one exactly while the flag is set, so the flag cannot be left set behind. The
  host and the port never change, and every address that a caller was given is the one the
  target was bound with or the first address of some answer, with the configured port.\<close>

theorem refresh_single_flight:
  assumes "refresh_reach L (refresh_init t0) s" and "\<not> dt_refresh_inflight t0"
  shows "length (rf_tasks s) = (if dt_refresh_inflight (rf_target s) then 1 else 0) \<and>
    dt_host (rf_target s) = dt_host t0 \<and> dt_port (rf_target s) = dt_port t0 \<and>
    set (rf_returned s) \<subseteq> {rv_addr (dt_current t0)} \<union>
      {socket_addr_new ip (dt_port t0) | ip lookup_ip ips d.
        lookup_ip \<in> L \<and> lookup_ip (dt_host t0) = Inr (ip # ips, d)}"
  using refresh_inv_reach [OF assms] by (simp add: refresh_inv_def answers_def)

theorem refresh_single_flight_witness:
  "\<exists>s :: unit refresh_state. refresh_reach {\<lambda>_. Inl []} (refresh_init \<lparr>dt_raw = lit ''h:1'', dt_host = lit ''h'', dt_port = 1,
      dt_resolver = (), dt_current = \<lparr>rv_addr = SockV4 5 1, rv_valid_until = 10\<rparr>, dt_refresh_inflight = False\<rparr>) s \<and>
    dt_refresh_inflight (rf_target s) \<and> rf_returned s = [SockV4 5 1] \<and> length (rf_tasks s) = 1"
proof -
  let ?t = "\<lparr>dt_raw = lit ''h:1'', dt_host = lit ''h'', dt_port = 1,
      dt_resolver = (), dt_current = \<lparr>rv_addr = SockV4 5 1, rv_valid_until = 10\<rparr>, dt_refresh_inflight = False\<rparr>"
  let ?L = "{\<lambda>_. Inl []} :: lookup set"
  let ?s0 = "refresh_init ?t"
  let ?s1 = "?s0\<lparr>rf_callers := rf_callers ?s0 @ [dt_current (rf_target ?s0)]\<rparr>"
  let ?s2 = "?s1\<lparr>rf_target := ?t\<lparr>dt_refresh_inflight := True\<rparr>, rf_callers := remove_nth 0 (rf_callers ?s1),
     rf_tasks := rf_tasks ?s1 @ (if True then [Resolving] else []), rf_returned := rf_returned ?s1 @ [SockV4 5 1]\<rparr>"
  have "refresh_reach ?L ?s0 ?s1"
    by (rule refresh_reach.step [OF refresh_reach.here refresh_step.read])
  moreover have "refresh_step ?L ?s1 ?s2"
    by (rule refresh_step.answer [of 0 _ 10])
      (simp_all add: refresh_init_def answer_current_def try_spawn_refresh_def)
  ultimately have reach: "refresh_reach ?L ?s0 ?s2" by (rule refresh_reach.step)
  from refresh_single_flight [OF this] have "length (rf_tasks ?s2) = 1" by simp
  then show ?thesis using reach by (intro exI [of _ ?s2]) (simp add: refresh_init_def)
qed

section \<open>One refresh from start to end\<close>

text \<open>The steps of one task until it ends, the lookup answering at one time; it takes four.\<close>

fun refresh_task_run ::
    "nat \<Rightarrow> lookup \<Rightarrow> nat \<Rightarrow> refresh_task \<Rightarrow> 'r dynamic_target \<Rightarrow> 'r dynamic_target option" where
  "refresh_task_run 0 lookup_ip now k t = None"
| "refresh_task_run (Suc n) lookup_ip now k t =
     (case refresh_task_step lookup_ip now k t of
        (None, t') \<Rightarrow> Some t'
      | (Some k', t') \<Rightarrow> refresh_task_run n lookup_ip now k' t')"

text \<open>A refresh whose lookup returns always ends, within four steps, with the flag cleared, so
  the next expiry can start another one. A successful answer replaces the cache entry; a failed
  one keeps the stale address for another 30 seconds. Nothing else of the target changes.\<close>

lemma refresh_completes:
  "refresh_task_run 4 lookup_ip now Resolving t = Some
     (t\<lparr>dt_refresh_inflight := False,
        dt_current := (case resolve_once lookup_ip now (dt_host t) (dt_port t) of
          Inr (r, _) \<Rightarrow> r
        | Inl _ \<Rightarrow> \<lparr>rv_addr = rv_addr (dt_current t), rv_valid_until = now + secs 30\<rparr>)\<rparr>)"
  by (auto simp: numeral_eq_Suc dns_failure_refresh_def split: sum.splits prod.splits)

text \<open>Asking a dynamic target for its address never blocks on DNS and never fails: it answers
  the cached address, expired or not; it starts a refresh exactly when the entry has expired
  and no refresh is in flight, and changes nothing but the flag.\<close>

lemma dynamic_current_spec:
  "dynamic_current now t =
     (let spawn = rv_valid_until (dt_current t) \<le> now \<and> \<not> dt_refresh_inflight t in
      (rv_addr (dt_current t), t\<lparr>dt_refresh_inflight := dt_refresh_inflight t \<or> spawn\<rparr>, spawn))"
  by (cases t) (simp add: dynamic_current_def answer_current_def try_spawn_refresh_def)

end
