(* ===== verification/Dash_Map.thy ===== *)
theory Dash_Map
  imports Base "HOL-Library.DAList"
begin

text \<open>
  The concurrent hash map of the crate \<open>dashmap\<close>, a parameter of the model: the operations
  the session table calls, as a record, and the laws that its documentation promises, as a
  locale. Each operation locks its shard, so it is one atomic step. A sharded hash table
  with any hash function satisfies the laws.
\<close>

record ('k, 'v, 'm) dashmap_ops =
  dm_empty :: 'm
  dm_get :: "'m \<Rightarrow> 'k \<Rightarrow> 'v option"
  dm_insert :: "'m \<Rightarrow> 'k \<Rightarrow> 'v \<Rightarrow> 'm"
  dm_remove_if :: "'m \<Rightarrow> 'k \<Rightarrow> ('v \<Rightarrow> bool) \<Rightarrow> 'm \<times> 'v option"
  dm_iter :: "'m \<Rightarrow> ('k \<times> 'v) list"
  dm_shards :: nat
  dm_at :: "'k \<Rightarrow> nat"
  dm_shard :: "'m \<Rightarrow> nat \<Rightarrow> ('k \<times> 'v) list"

text \<open>The iterator goes through the shards in order and holds the lock of the one it is at, so
  other tasks may change the map between two shards; \<open>dm_iter\<close> is what it yields when nobody does.\<close>

locale dashmap =
  fixes D :: "('k, 'v, 'm) dashmap_ops"
  assumes get_empty: "dm_get D (dm_empty D) = Map.empty"
    and get_insert: "dm_get D (dm_insert D m k v) = (dm_get D m)(k \<mapsto> v)"
    and get_remove: "dm_get D (fst (dm_remove_if D m k P)) =
      (case dm_get D m k of
         None \<Rightarrow> dm_get D m
       | Some v \<Rightarrow> if P v then (dm_get D m)(k := None) else dm_get D m)"
    and remove_result: "snd (dm_remove_if D m k P) =
      (case dm_get D m k of None \<Rightarrow> None | Some v \<Rightarrow> if P v then Some v else None)"
    and iter_get: "map_of (dm_iter D m) = dm_get D m"
    and iter_distinct: "distinct (map fst (dm_iter D m))"
    and iter_shards: "dm_iter D m = concat (map (dm_shard D m) [0..<dm_shards D])"
    and at_shards: "dm_at D k < dm_shards D"
    and shard_get: "i < dm_shards D \<Longrightarrow>
      (k, v) \<in> set (dm_shard D m i) \<longleftrightarrow> dm_at D k = i \<and> dm_get D m k = Some v"
begin

definition entries :: "'m \<Rightarrow> nat" where
  "entries m = card (dom (dm_get D m))"

lemma finite_dom [simp]: "finite (dom (dm_get D m))"
  unfolding iter_get [symmetric] by (rule finite_dom_map_of)

lemma set_iter: "(k, v) \<in> set (dm_iter D m) \<longleftrightarrow> dm_get D m k = Some v"
  using iter_distinct [of m] by (simp flip: iter_get add: map_of_eq_Some_iff)

lemma entries_iter: "length (dm_iter D m) = entries m"
proof -
  have "dom (dm_get D m) = set (map fst (dm_iter D m))"
    unfolding iter_get [symmetric] by (simp add: dom_map_of_conv_image_fst)
  then show ?thesis
    using distinct_card [OF iter_distinct [of m]] by (simp add: entries_def)
qed

lemma entries_empty: "entries (dm_empty D) = 0"
  by (simp add: entries_def get_empty)

lemma entries_insert: "dm_get D m k = None \<Longrightarrow> entries (dm_insert D m k v) = Suc (entries m)"
  by (simp add: entries_def get_insert domIff)

lemma entries_remove: "snd (dm_remove_if D m k P) = Some v \<Longrightarrow> entries m = Suc (entries (fst (dm_remove_if D m k P)))"
  using card.remove [OF finite_dom [of m], of k]
  by (auto simp: entries_def get_remove remove_result simp del: card_Diff_insert card_Diff_singleton
      split: option.splits if_splits)

end

section \<open>A sharded hash table\<close>

type_synonym ('k, 'v) shards = "nat \<Rightarrow> ('k, 'v) alist"

text \<open>The table has \<open>n + 1\<close> shards; a key lives in the shard that its hash selects.\<close>

definition shard_of :: "('k \<Rightarrow> nat) \<Rightarrow> nat \<Rightarrow> 'k \<Rightarrow> nat" where
  "shard_of hash n k = hash k mod Suc n"

definition sharded :: "('k \<Rightarrow> nat) \<Rightarrow> nat \<Rightarrow> ('k, 'v, ('k, 'v) shards) dashmap_ops" where
  "sharded hash n =
     (let sh = shard_of hash n in
      \<lparr>dm_empty = (\<lambda>_. DAList.empty),
       dm_get = (\<lambda>m k. DAList.lookup (m (sh k)) k),
       dm_insert = (\<lambda>m k v. m(sh k := DAList.update k v (m (sh k)))),
       dm_remove_if = (\<lambda>m k P. case DAList.lookup (m (sh k)) k of
           None \<Rightarrow> (m, None)
         | Some v \<Rightarrow> if P v then (m(sh k := DAList.delete k (m (sh k))), Some v) else (m, None)),
       dm_iter = (\<lambda>m. concat (map (\<lambda>i. filter (\<lambda>e. sh (fst e) = i) (DAList.impl_of (m i))) [0..<Suc n])),
       dm_shards = Suc n, dm_at = sh,
       dm_shard = (\<lambda>m i. filter (\<lambda>e. sh (fst e) = i) (DAList.impl_of (m i)))\<rparr>)"

lemma shard_bound: "shard_of hash n k < Suc n"
  by (simp add: shard_of_def)

lemma map_of_filter_key: "map_of (filter (\<lambda>e. P (fst e)) xs) k = (if P k then map_of xs k else None)"
  by (induction xs) auto

lemma map_of_shards:
  "map_of (concat (map (\<lambda>i. filter (\<lambda>e. h (fst e) = i) (f i)) [0..<N])) k =
     (if h k < N then map_of (f (h k)) k else None)"
proof (induction N)
  case (Suc N)
  then show ?case
    using map_of_filter_key [of "\<lambda>x. h x = N" "f N" k] by (auto simp: map_add_def less_Suc_eq split: option.splits)
qed simp

lemma distinct_shards:
  assumes "\<And>i. distinct (map fst (f i))"
  shows "distinct (map fst (concat (map (\<lambda>i. filter (\<lambda>e. h (fst e) = i) (f i)) [0..<N])))"
proof (induction N)
  case (Suc N)
  have "distinct (map fst (filter (\<lambda>e. h (fst e) = N) (f N)))"
    using assms [of N] by (simp add: distinct_map_filter)
  with Suc show ?case by auto
qed simp

interpretation sharded: dashmap "sharded hash n" for hash :: "'k \<Rightarrow> nat" and n :: nat
proof unfold_locales
  fix m :: "('k, 'v) shards"
  have dist: "distinct (map fst (DAList.impl_of (m i)))" for i
    using DAList.impl_of [of "m i"] by simp
  show "map_of (dm_iter (sharded hash n) m) = dm_get (sharded hash n) m"
    using shard_bound [of hash n]
    by (auto simp: sharded_def Let_def map_of_shards [of "shard_of hash n"] DAList.lookup_def fun_eq_iff simp del: upt_Suc)
  show "distinct (map fst (dm_iter (sharded hash n) m))"
    using distinct_shards [where h = "shard_of hash n" and N = "Suc n", OF dist]
    by (simp add: sharded_def Let_def del: upt_Suc)
  show "i < dm_shards (sharded hash n) \<Longrightarrow> (k, v) \<in> set (dm_shard (sharded hash n) m i) \<longleftrightarrow>
      dm_at (sharded hash n) k = i \<and> dm_get (sharded hash n) m k = Some v" for i k v
    using map_of_eq_Some_iff [OF dist [of i], of k v]
    by (auto simp: sharded_def Let_def DAList.lookup_def)
qed (auto simp: sharded_def Let_def DAList.lookup_update DAList.lookup_delete DAList.lookup_empty shard_bound
    fun_eq_iff split: option.splits)

end
