(* ===== verification/Socket.thy ===== *)
theory Socket
  imports Net_Addr
begin

text \<open>
  \<open>src/src/socket.rs\<close>: how the listeners and the upstream sockets are made. The library
  \<open>socket2\<close> and the kernel below it are a parameter: an oracle that says, for each system
  call of one construction, whether it fails. A construction is a sequence of calls that
  stops at the first failure (the operator \<open>?\<close>); the model returns the calls that were made
  beside the result.
\<close>

section \<open>Input and output errors\<close>

text \<open>The kinds of \<open>std::io::ErrorKind\<close> that the program tells apart, and all the others.\<close>

datatype io_error =
    ConnectionRefused | HostUnreachable | NetworkUnreachable | WouldBlock | Interrupted
  | OtherError nat

section \<open>The code\<close>

datatype domain = DomainIPv4 | DomainIPv6
datatype sock_type = Stream | Dgram
datatype protocol = Tcp | Udp

datatype syscall =
    NewSocket domain sock_type protocol
  | SetReuseAddress
  | SetSendBufferSize nat
  | SetRecvBufferSize nat
  | BindAddr socket_addr
  | Listen nat
  | Connect socket_addr
  | SetNonblocking
  | RegisterRuntime

type_synonym kernel = "syscall \<Rightarrow> io_error option"

text \<open>A socket that was made: what it is bound to and connected to.\<close>

record sock =
  sk_type :: sock_type
  sk_local :: socket_addr
  sk_peer :: "socket_addr option"

fun run_calls :: "kernel \<Rightarrow> syscall list \<Rightarrow> syscall list \<times> io_error option" where
  "run_calls sys [] = ([], None)"
| "run_calls sys (c # cs) =
     (case sys c of
        Some e \<Rightarrow> ([c], Some e)
      | None \<Rightarrow> (case run_calls sys cs of (done, r) \<Rightarrow> (c # done, r)))"

definition made :: "syscall list \<times> io_error option \<Rightarrow> sock \<Rightarrow> syscall list \<times> (io_error + sock)" where
  "made r s = (fst r, case snd r of Some e \<Rightarrow> Inl e | None \<Rightarrow> Inr s)"

definition udp_socket_buffer_bytes :: nat where
  "udp_socket_buffer_bytes = 4 * 1024 * 1024"

definition domain_for :: "socket_addr \<Rightarrow> domain" where
  "domain_for address = (if is_ipv4 address then DomainIPv4 else DomainIPv6)"

definition configure_udp_socket :: "syscall list" where
  "configure_udp_socket =
     [SetSendBufferSize udp_socket_buffer_bytes, SetRecvBufferSize udp_socket_buffer_bytes]"

definition bind_tcp_listener :: "kernel \<Rightarrow> socket_addr \<Rightarrow> syscall list \<times> (io_error + sock)" where
  "bind_tcp_listener sys address =
     made (run_calls sys
       [NewSocket (domain_for address) Stream Tcp, SetReuseAddress, BindAddr address, Listen 1024,
        SetNonblocking, RegisterRuntime])
      \<lparr>sk_type = Stream, sk_local = address, sk_peer = None\<rparr>"

definition bind_udp_socket :: "kernel \<Rightarrow> socket_addr \<Rightarrow> syscall list \<times> (io_error + sock)" where
  "bind_udp_socket sys address =
     made (run_calls sys
       ([NewSocket (domain_for address) Dgram Udp, SetReuseAddress] @ configure_udp_socket @
        [BindAddr address, SetNonblocking, RegisterRuntime]))
      \<lparr>sk_type = Dgram, sk_local = address, sk_peer = None\<rparr>"

definition unspecified_for :: "socket_addr \<Rightarrow> socket_addr" where
  "unspecified_for target =
     (case target of
        SockV4 _ _ \<Rightarrow> SockV4 0 0
      | SockV6 _ _ _ _ \<Rightarrow> SockV6 0 0 0 0)"

definition new_connected_udp_socket :: "kernel \<Rightarrow> socket_addr \<Rightarrow> syscall list \<times> (io_error + sock)" where
  "new_connected_udp_socket sys target =
     made (run_calls sys
       ([NewSocket (domain_for target) Dgram Udp] @ configure_udp_socket @
        [BindAddr (unspecified_for target), Connect target, SetNonblocking, RegisterRuntime]))
      \<lparr>sk_type = Dgram, sk_local = unspecified_for target, sk_peer = Some target\<rparr>"

section \<open>What a construction does\<close>

lemma run_calls_ok: "snd (run_calls sys cs) = None \<longleftrightarrow> (\<forall>c \<in> set cs. sys c = None)"
  by (induction cs) (auto split: option.splits prod.splits)

lemma run_calls_done: "snd (run_calls sys cs) = None \<Longrightarrow> fst (run_calls sys cs) = cs"
  by (induction cs) (auto split: option.splits prod.splits)

lemma run_calls_failed:
  assumes "snd (run_calls sys cs) = Some e"
  shows "\<exists>pre c post. cs = pre @ c # post \<and> fst (run_calls sys cs) = pre @ [c] \<and> sys c = Some e \<and>
    (\<forall>c' \<in> set pre. sys c' = None)"
  using assms
proof (induction cs)
  case (Cons c cs)
  show ?case
  proof (cases "sys c")
    case (Some e')
    with Cons.prems show ?thesis by (intro exI [of _ "[]"]) auto
  next
    case None
    with Cons.prems have "snd (run_calls sys cs) = Some e" by (auto split: prod.splits)
    from Cons.IH [OF this] obtain pre c' post where "cs = pre @ c' # post"
      "fst (run_calls sys cs) = pre @ [c']" "sys c' = Some e" "\<forall>c' \<in> set pre. sys c' = None" by blast
    with None show ?thesis
      by (intro exI [of _ "c # pre"] exI [of _ c'] exI [of _ post]) (auto split: prod.splits)
  qed
qed simp

text \<open>The address families of a list of calls: of its sockets, its binds and its connects.\<close>

fun call_domain :: "syscall \<Rightarrow> domain option" where
  "call_domain (NewSocket d t p) = Some d"
| "call_domain (BindAddr a) = Some (domain_for a)"
| "call_domain (Connect a) = Some (domain_for a)"
| "call_domain c = None"



lemma connected_peer: "snd (new_connected_udp_socket sys target) = Inr s \<Longrightarrow> sk_peer s = Some target"
  by (auto simp: new_connected_udp_socket_def made_def split: option.splits)

end
