(* ===== verification/Udp_Session.thy ===== *)
theory Udp_Session
  imports Dash_Map Socket Port_Stats
begin

text \<open>
  \<open>src/src/udp_session.rs\<close>: the table of UDP sessions of one listen port. An
  \<open>Arc<UdpSession>\<close> is an index into the arena of all sessions ever made, so the table, the
  reply tasks and the operations in flight share one session; the \<open>DashMap\<close> from client
  addresses to sessions is the parameter \<open>D\<close> with the laws of the locale \<open>dashmap\<close>.

  The clock, the kernel's answers and the target's current address are arguments. The
  operations are given as the code has them and as the sequences of their atomic steps
  (\<open>table_op\<close>), because the listener, the cleanup task and the reply tasks run concurrently.
\<close>

section \<open>The code: sessions\<close>

record udp_session =
  us_id :: u64
  us_source :: socket_addr
  us_upstream :: sock
  us_last_active_epoch :: u64
  us_closed :: bool
  us_shutdown :: bool

definition session_new :: "u64 \<Rightarrow> u64 \<Rightarrow> socket_addr \<Rightarrow> sock \<Rightarrow> udp_session" where
  "session_new now i source upstream =
     \<lparr>us_id = i, us_source = source, us_upstream = upstream, us_last_active_epoch = now,
      us_closed = False, us_shutdown = False\<rparr>"

definition session_touch :: "u64 \<Rightarrow> udp_session \<Rightarrow> udp_session" where
  "session_touch now s = s\<lparr>us_last_active_epoch := now\<rparr>"

definition session_cancel :: "udp_session \<Rightarrow> udp_session" where
  "session_cancel s = s\<lparr>us_shutdown := True\<rparr>"

text \<open>The swap of the flag returns whether this call was the first.\<close>

definition session_mark_closed :: "udp_session \<Rightarrow> udp_session \<times> bool" where
  "session_mark_closed s = (s\<lparr>us_closed := True\<rparr>, \<not> us_closed s)"

section \<open>The code: the table\<close>

type_synonym 'm session_map = "(socket_addr, nat, 'm) dashmap_ops"

record 'm session_table =
  tb_idle_timeout :: nat
  tb_stats :: port_stats
  tb_next_session_id :: u64
  tb_sessions :: 'm
  tb_arena :: "udp_session list"
  tb_reply_tasks :: "nat list"

definition table_new :: "'m session_map \<Rightarrow> nat \<Rightarrow> port_stats \<Rightarrow> 'm session_table" where
  "table_new D idle_timeout stats =
     \<lparr>tb_idle_timeout = idle_timeout, tb_stats = stats, tb_next_session_id = 1,
      tb_sessions = dm_empty D, tb_arena = [], tb_reply_tasks = []\<rparr>"

definition on_session :: "nat \<Rightarrow> (udp_session \<Rightarrow> udp_session) \<Rightarrow> 'm session_table \<Rightarrow> 'm session_table" where
  "on_session r f tb = tb\<lparr>tb_arena := (tb_arena tb)[r := f (tb_arena tb ! r)]\<rparr>"

definition new_session ::
    "u64 \<Rightarrow> socket_addr \<Rightarrow> sock \<Rightarrow> 'm session_table \<Rightarrow> nat \<times> 'm session_table" where
  "new_session now source upstream tb =
     (length (tb_arena tb),
      tb\<lparr>tb_next_session_id := tb_next_session_id tb + 1,
         tb_arena := tb_arena tb @ [session_new now (tb_next_session_id tb) source upstream]\<rparr>)"

definition get_or_create ::
    "'m session_map \<Rightarrow> kernel \<Rightarrow> socket_addr \<Rightarrow> u64 \<Rightarrow> socket_addr \<Rightarrow> 'm session_table \<Rightarrow>
     (io_error + nat) \<times> 'm session_table" where
  "get_or_create D sys target now source tb =
     (case dm_get D (tb_sessions tb) source of
        Some session \<Rightarrow> (Inr session, on_session session (session_touch now) tb)
      | None \<Rightarrow>
          (case snd (new_connected_udp_socket sys target) of
             Inl e \<Rightarrow> (Inl e, tb)
           | Inr upstream \<Rightarrow>
               let (session, tb) = new_session now source upstream tb in
               (case dm_get D (tb_sessions tb) source of
                  Some existing \<Rightarrow> (Inr existing, on_session existing (session_touch now) tb)
                | None \<Rightarrow>
                    let tb = tb\<lparr>tb_sessions := dm_insert D (tb_sessions tb) source session\<rparr>;
                        tb = tb\<lparr>tb_stats := record_udp_flow_open (tb_stats tb)\<rparr>;
                        tb = tb\<lparr>tb_reply_tasks := tb_reply_tasks tb @ [session]\<rparr>
                    in (Inr session, tb))))"

definition remove_session :: "'m session_map \<Rightarrow> socket_addr \<Rightarrow> u64 \<Rightarrow> 'm session_table \<Rightarrow> 'm session_table" where
  "remove_session D source session_id tb =
     (case dm_remove_if D (tb_sessions tb) source (\<lambda>current. us_id (tb_arena tb ! current) = session_id) of
        (m, None) \<Rightarrow> tb\<lparr>tb_sessions := m\<rparr>
      | (m, Some session) \<Rightarrow>
          let tb = on_session session session_cancel (tb\<lparr>tb_sessions := m\<rparr>);
              first = snd (session_mark_closed (tb_arena tb ! session));
              tb = on_session session (fst \<circ> session_mark_closed) tb
          in if first then tb\<lparr>tb_stats := record_udp_flow_close (tb_stats tb)\<rparr> else tb)"

definition remove_all :: "'m session_map \<Rightarrow> (socket_addr \<times> u64) list \<Rightarrow> 'm session_table \<Rightarrow> 'm session_table" where
  "remove_all D = fold (\<lambda>(source, session_id). remove_session D source session_id)"

definition all_sessions :: "'m session_map \<Rightarrow> 'm session_table \<Rightarrow> (socket_addr \<times> u64) list" where
  "all_sessions D tb = map (\<lambda>(source, r). (source, us_id (tb_arena tb ! r))) (dm_iter D (tb_sessions tb))"

definition shutdown_all :: "'m session_map \<Rightarrow> 'm session_table \<Rightarrow> 'm session_table" where
  "shutdown_all D tb = remove_all D (all_sessions D tb) tb"

definition as_secs :: "nat \<Rightarrow> u64" where
  "as_secs d = of_nat (d div 1000000000)"

definition cleanup_timeout :: "'m session_table \<Rightarrow> u64" where
  "cleanup_timeout tb = max 1 (as_secs (tb_idle_timeout tb))"

definition cleanup_interval :: "'m session_table \<Rightarrow> u64" where
  "cleanup_interval tb = min (cleanup_timeout tb) 5"

definition stale_sessions :: "'m session_map \<Rightarrow> u64 \<Rightarrow> 'm session_table \<Rightarrow> (socket_addr \<times> u64) list" where
  "stale_sessions D now tb =
     map (\<lambda>(source, r). (source, us_id (tb_arena tb ! r)))
      (filter (\<lambda>(source, r).
          cleanup_timeout tb \<le> saturating_sub now (us_last_active_epoch (tb_arena tb ! r)))
        (dm_iter D (tb_sessions tb)))"

definition cleanup_tick :: "'m session_map \<Rightarrow> u64 \<Rightarrow> 'm session_table \<Rightarrow> 'm session_table" where
  "cleanup_tick D now tb = remove_all D (stale_sessions D now tb) tb"

section \<open>The atomic steps of the operations\<close>

text \<open>Where an operation on the table stands: before a map access, a store to a session, an
  update of the counters, or the spawn of a task.\<close>

datatype tbl_op =
    OpLookup socket_addr
  | OpTouch nat
  | OpCreate socket_addr
  | OpEntry socket_addr nat
  | OpOpen nat
  | OpSpawn nat
  | OpRemove socket_addr u64
  | OpCancel nat
  | OpMark nat
  | OpClose

fun table_op ::
    "'m session_map \<Rightarrow> kernel \<Rightarrow> socket_addr \<Rightarrow> u64 \<Rightarrow> tbl_op \<Rightarrow> 'm session_table \<Rightarrow> 'm session_table \<times> tbl_op option" where
  "table_op D sys target now (OpLookup source) tb =
     (tb, Some (case dm_get D (tb_sessions tb) source of Some r \<Rightarrow> OpTouch r | None \<Rightarrow> OpCreate source))"
| "table_op D sys target now (OpTouch r) tb = (on_session r (session_touch now) tb, None)"
| "table_op D sys target now (OpCreate source) tb =
     (case snd (new_connected_udp_socket sys target) of
        Inl e \<Rightarrow> (tb, None)
      | Inr upstream \<Rightarrow>
          (case new_session now source upstream tb of (r, tb') \<Rightarrow> (tb', Some (OpEntry source r))))"
| "table_op D sys target now (OpEntry source r) tb =
     (case dm_get D (tb_sessions tb) source of
        Some existing \<Rightarrow> (tb, Some (OpTouch existing))
      | None \<Rightarrow> (tb\<lparr>tb_sessions := dm_insert D (tb_sessions tb) source r\<rparr>, Some (OpOpen r)))"
| "table_op D sys target now (OpOpen r) tb =
     (tb\<lparr>tb_stats := record_udp_flow_open (tb_stats tb)\<rparr>, Some (OpSpawn r))"
| "table_op D sys target now (OpSpawn r) tb = (tb\<lparr>tb_reply_tasks := tb_reply_tasks tb @ [r]\<rparr>, None)"
| "table_op D sys target now (OpRemove source session_id) tb =
     (case dm_remove_if D (tb_sessions tb) source (\<lambda>current. us_id (tb_arena tb ! current) = session_id) of
        (m, r) \<Rightarrow> (tb\<lparr>tb_sessions := m\<rparr>, map_option OpCancel r))"
| "table_op D sys target now (OpCancel r) tb = (on_session r session_cancel tb, Some (OpMark r))"
| "table_op D sys target now (OpMark r) tb =
     (on_session r (fst \<circ> session_mark_closed) tb,
      if snd (session_mark_closed (tb_arena tb ! r)) then Some OpClose else None)"
| "table_op D sys target now OpClose tb =
     (tb\<lparr>tb_stats := record_udp_flow_close (tb_stats tb)\<rparr>, None)"

text \<open>An operation alone, from a step to its end; none takes more than five steps.\<close>

fun op_alone ::
    "nat \<Rightarrow> 'm session_map \<Rightarrow> kernel \<Rightarrow> socket_addr \<Rightarrow> u64 \<Rightarrow> tbl_op \<Rightarrow> 'm session_table \<Rightarrow> 'm session_table option" where
  "op_alone 0 D sys target now o' tb = None"
| "op_alone (Suc n) D sys target now o' tb =
     (case table_op D sys target now o' tb of
        (tb', None) \<Rightarrow> Some tb'
      | (tb', Some o'') \<Rightarrow> op_alone n D sys target now o'' tb')"

lemma get_or_create_steps:
  "op_alone 5 D sys target now (OpLookup source) tb = Some (snd (get_or_create D sys target now source tb))"
  by (auto simp: get_or_create_def numeral_eq_Suc new_session_def Let_def split: option.splits sum.splits)

lemma remove_session_steps:
  "op_alone 5 D sys target now (OpRemove source i) tb = Some (remove_session D source i tb)"
  by (auto simp: remove_session_def numeral_eq_Suc Let_def split: option.splits prod.splits)

end
