(* ===== verification/Udp_Session_Inv.thy ===== *)
theory Udp_Session_Inv
  imports Udp_Session "HOL-Library.Multiset"
begin

text \<open>
  The session table under concurrency. The state is the table and the multiset of the
  operations in flight, each standing before its next atomic step; any operation may start
  at any time and any of them may take the next step. The invariants say who owns a session
  that is not (or no longer) in the table, and that the gauge of active flows counts exactly
  the sessions whose opening was recorded and whose closing was not.
\<close>

section \<open>The transition system\<close>

text \<open>The code inserts a session before it records the flow as opened. A step is in time when it
  does not remove a session between the two.\<close>

fun in_time :: "'m session_map \<Rightarrow> tbl_op \<Rightarrow> 'm session_table \<Rightarrow> tbl_op multiset \<Rightarrow> bool" where
  "in_time D (OpRemove source i) tb ops \<longleftrightarrow>
     (case dm_get D (tb_sessions tb) source of
        None \<Rightarrow> True
      | Some r \<Rightarrow> us_id (tb_arena tb ! r) = i \<longrightarrow> OpOpen r \<notin># ops)"
| "in_time D o' tb ops \<longleftrightarrow> True"

inductive table_step ::
    "'m session_map \<Rightarrow> bool \<Rightarrow> 'm session_table \<Rightarrow> tbl_op multiset \<Rightarrow> 'm session_table \<Rightarrow> tbl_op multiset \<Rightarrow> bool"
  for D :: "'m session_map" and timely :: bool where
  start_get: "table_step D timely tb ops tb (add_mset (OpLookup source) ops)"
| start_remove: "table_step D timely tb ops tb (add_mset (OpRemove source i) ops)"
| act: "table_op D sys target now o' tb = (tb', k) \<Longrightarrow> (timely \<Longrightarrow> in_time D o' tb ops) \<Longrightarrow>
    table_step D timely tb (add_mset o' ops) tb' (case k of None \<Rightarrow> ops | Some o'' \<Rightarrow> add_mset o'' ops)"

inductive table_reach ::
    "'m session_map \<Rightarrow> bool \<Rightarrow> 'm session_table \<Rightarrow> 'm session_table \<Rightarrow> tbl_op multiset \<Rightarrow> bool"
  for D :: "'m session_map" and timely :: bool and tb0 :: "'m session_table" where
  here: "table_reach D timely tb0 tb0 {#}"
| step: "table_reach D timely tb0 tb ops \<Longrightarrow> table_step D timely tb ops tb' ops' \<Longrightarrow>
    table_reach D timely tb0 tb' ops'"

section \<open>Ownership\<close>

fun owns :: "nat \<Rightarrow> tbl_op \<Rightarrow> bool" where
  "owns r (OpEntry s r') \<longleftrightarrow> r' = r"
| "owns r (OpCancel r') \<longleftrightarrow> r' = r"
| "owns r (OpMark r') \<longleftrightarrow> r' = r"
| "owns r _ \<longleftrightarrow> False"

fun closing :: "tbl_op \<Rightarrow> bool" where
  "closing (OpCancel r) \<longleftrightarrow> True"
| "closing (OpMark r) \<longleftrightarrow> True"
| "closing OpClose \<longleftrightarrow> True"
| "closing _ \<longleftrightarrow> False"

fun uncounted :: "tbl_op \<Rightarrow> bool" where
  "uncounted (OpEntry s r) \<longleftrightarrow> True"
| "uncounted (OpOpen r) \<longleftrightarrow> True"
| "uncounted _ \<longleftrightarrow> False"

definition listed :: "'m session_map \<Rightarrow> 'm session_table \<Rightarrow> nat \<Rightarrow> bool" where
  "listed D tb r \<longleftrightarrow> (\<exists>k. dm_get D (tb_sessions tb) k = Some r)"

fun op_ok :: "'m session_map \<Rightarrow> 'm session_table \<Rightarrow> tbl_op \<Rightarrow> bool" where
  "op_ok D tb (OpEntry s r) \<longleftrightarrow> r < length (tb_arena tb) \<and> \<not> listed D tb r \<and>
     us_source (tb_arena tb ! r) = s \<and> \<not> us_closed (tb_arena tb ! r) \<and> \<not> us_shutdown (tb_arena tb ! r)"
| "op_ok D tb (OpCancel r) \<longleftrightarrow> r < length (tb_arena tb) \<and> \<not> listed D tb r \<and> \<not> us_closed (tb_arena tb ! r)"
| "op_ok D tb (OpMark r) \<longleftrightarrow> r < length (tb_arena tb) \<and> \<not> listed D tb r \<and> \<not> us_closed (tb_arena tb ! r)"
| "op_ok D tb (OpTouch r) \<longleftrightarrow> r < length (tb_arena tb)"
| "op_ok D tb (OpOpen r) \<longleftrightarrow> r < length (tb_arena tb)"
| "op_ok D tb (OpSpawn r) \<longleftrightarrow> r < length (tb_arena tb)"
| "op_ok D tb _ \<longleftrightarrow> True"

definition sessions_ok :: "'m session_map \<Rightarrow> 'm session_table \<Rightarrow> bool" where
  "sessions_ok D tb \<longleftrightarrow>
     (\<forall>k r. dm_get D (tb_sessions tb) k = Some r \<longrightarrow>
        r < length (tb_arena tb) \<and> us_source (tb_arena tb ! r) = k \<and>
        \<not> us_closed (tb_arena tb ! r) \<and> \<not> us_shutdown (tb_arena tb ! r))"

definition ids_ok :: "'m session_table \<Rightarrow> bool" where
  "ids_ok tb \<longleftrightarrow> tb_next_session_id tb = of_nat (Suc (length (tb_arena tb))) \<and>
     (\<forall>r < length (tb_arena tb). us_id (tb_arena tb ! r) = of_nat (Suc r))"

definition table_inv :: "'m session_map \<Rightarrow> 'm session_table \<Rightarrow> tbl_op multiset \<Rightarrow> bool" where
  "table_inv D tb ops \<longleftrightarrow> sessions_ok D tb \<and> ids_ok tb \<and> (\<forall>o' \<in># ops. op_ok D tb o') \<and>
     (\<forall>r. size (filter_mset (owns r) ops) \<le> 1)"

lemma on_session_simps [simp]:
  "tb_sessions (on_session r f tb) = tb_sessions tb"
  "tb_stats (on_session r f tb) = tb_stats tb"
  "tb_next_session_id (on_session r f tb) = tb_next_session_id tb"
  "length (tb_arena (on_session r f tb)) = length (tb_arena tb)"
  "i < length (tb_arena tb) \<Longrightarrow>
    tb_arena (on_session r f tb) ! i = (if i = r then f (tb_arena tb ! r) else tb_arena tb ! i)"
  by (simp_all add: on_session_def nth_list_update)

lemma session_simps [simp]:
  "us_id (session_touch now s) = us_id s" "us_source (session_touch now s) = us_source s"
  "us_closed (session_touch now s) = us_closed s" "us_shutdown (session_touch now s) = us_shutdown s"
  "us_id (session_cancel s) = us_id s" "us_source (session_cancel s) = us_source s"
  "us_closed (session_cancel s) = us_closed s" "us_shutdown (session_cancel s)"
  "us_id (fst (session_mark_closed s)) = us_id s" "us_source (fst (session_mark_closed s)) = us_source s"
  "us_closed (fst (session_mark_closed s))"
  "us_upstream (session_touch now s) = us_upstream s" "us_upstream (session_cancel s) = us_upstream s"
  "us_upstream (fst (session_mark_closed s)) = us_upstream s"
  by (simp_all add: session_touch_def session_cancel_def session_mark_closed_def)

lemma unowned: "size (filter_mset (owns r) (add_mset o' ops)) \<le> 1 \<Longrightarrow> owns r o' \<Longrightarrow> p \<in># ops \<Longrightarrow> \<not> owns r p"
  by (auto dest!: multi_member_split)

text \<open>An operation that does not own the session \<open>r\<close> is not disturbed by a change of its flags.\<close>

lemma op_ok_update:
  assumes "op_ok D tb p" and "\<not> owns r p"
    and "\<And>s. us_source (f s) = us_source s"
  shows "op_ok D (on_session r f tb) p"
  using assms by (cases p) (auto simp: listed_def)

lemma op_ok_touch: "op_ok D tb p \<Longrightarrow> op_ok D (on_session r (session_touch now) tb) p"
  by (cases p) (auto simp: listed_def)

locale session_dashmap = dashmap D for D :: "'m session_map"
begin

lemma listed_insert:
  "listed D (tb\<lparr>tb_sessions := dm_insert D (tb_sessions tb) s r\<rparr>) r' \<Longrightarrow> r' = r \<or> listed D tb r'"
  by (auto simp: listed_def get_insert split: if_splits)

lemma listed_remove:
  "listed D (tb\<lparr>tb_sessions := fst (dm_remove_if D (tb_sessions tb) s P)\<rparr>) r' \<Longrightarrow> listed D tb r'"
  by (auto simp: listed_def get_remove split: option.splits if_splits)

lemma op_ok_remove:
  "op_ok D tb p \<Longrightarrow> op_ok D (tb\<lparr>tb_sessions := fst (dm_remove_if D (tb_sessions tb) s P)\<rparr>) p"
  by (cases p) (auto dest: listed_remove)

lemma op_ok_insert:
  "op_ok D tb p \<Longrightarrow> \<not> owns r p \<Longrightarrow> op_ok D (tb\<lparr>tb_sessions := dm_insert D (tb_sessions tb) s r\<rparr>) p"
  by (cases p) (auto dest: listed_insert)

lemma op_ok_stats: "op_ok D (tb\<lparr>tb_stats := st\<rparr>) p = op_ok D tb p"
  by (cases p) (simp_all add: listed_def)

lemma op_ok_tasks: "op_ok D (tb\<lparr>tb_reply_tasks := ts\<rparr>) p = op_ok D tb p"
  by (cases p) (simp_all add: listed_def)

lemma op_ok_new:
  assumes "op_ok D tb p" and "new_session now s up tb = (r, tb')"
  shows "op_ok D tb' p"
  using assms by (cases p) (auto simp: new_session_def listed_def nth_append)

text \<open>The invariant gives an operation about to act, and leaves the others, what they need.\<close>

lemma inv_facts:
  assumes "table_inv D tb (add_mset o' ops)"
  shows "sessions_ok D tb" "ids_ok tb" "op_ok D tb o'" "p \<in># ops \<Longrightarrow> op_ok D tb p"
    "size (filter_mset (owns r) ops) \<le> 1" "owns r o' \<Longrightarrow> p \<in># ops \<Longrightarrow> \<not> owns r p"
    "size (filter_mset (owns r) (add_mset o' ops)) \<le> 1"
proof -
  have one: "size (filter_mset (owns r) (add_mset o' ops)) \<le> 1" for r
    using assms by (simp add: table_inv_def)
  show "size (filter_mset (owns r) (add_mset o' ops)) \<le> 1" by (rule one)
  show "size (filter_mset (owns r) ops) \<le> 1" by (rule le_trans [OF _ one [of r]]) simp
  show "owns r o' \<Longrightarrow> p \<in># ops \<Longrightarrow> \<not> owns r p" by (rule unowned [OF one])
qed (use assms in \<open>auto simp: table_inv_def\<close>)

lemma inv_create:
  assumes "table_inv D tb (add_mset (OpCreate source) ops)" and "new_session now source up tb = (r, tb')"
  shows "table_inv D tb' (add_mset (OpEntry source r) ops)"
proof -
  note ok = inv_facts [OF assms(1)]
  have r: "r = length (tb_arena tb)" "\<not> listed D tb' r"
    using assms(2) ok(1) by (fastforce simp: new_session_def listed_def sessions_ok_def)+
  have "\<not> owns r p" if "p \<in># ops" for p using ok(4) [OF that] r(1) by (cases p) auto
  then have "filter_mset (owns r) ops = {#}" by simp
  moreover have "op_ok D tb' (OpEntry source r)" "sessions_ok D tb'" "ids_ok tb'"
    using assms(2) r ok(1,2)
    by (auto simp: new_session_def session_new_def sessions_ok_def ids_ok_def nth_append less_Suc_eq)
  ultimately show ?thesis using ok(4,5) op_ok_new [OF _ assms(2)] by (auto simp: table_inv_def)
qed

lemma inv_entry:
  assumes "table_inv D tb (add_mset (OpEntry source r) ops)" and "dm_get D (tb_sessions tb) source = None"
  shows "table_inv D (tb\<lparr>tb_sessions := dm_insert D (tb_sessions tb) source r\<rparr>) (add_mset (OpOpen r) ops)"
    (is "table_inv D ?tb' _")
proof -
  note ok = inv_facts [OF assms(1)]
  have "op_ok D ?tb' p" if "p \<in># ops" for p using op_ok_insert ok(4) [OF that] ok(6) [OF _ that, of r] by simp
  moreover have "sessions_ok D ?tb'" using ok(1,3) by (auto simp: sessions_ok_def get_insert)
  ultimately show ?thesis using ok(2,3,5) by (auto simp: table_inv_def ids_ok_def)
qed

lemma inv_remove:
  assumes "table_inv D tb (add_mset (OpRemove source i) ops)"
    and "dm_remove_if D (tb_sessions tb) source P = (m, k)"
  shows "table_inv D (tb\<lparr>tb_sessions := m\<rparr>) (case map_option OpCancel k of None \<Rightarrow> ops | Some o'' \<Rightarrow> add_mset o'' ops)"
proof -
  let ?tb' = "tb\<lparr>tb_sessions := m\<rparr>"
  note ok = inv_facts [OF assms(1)]
  have m: "m = fst (dm_remove_if D (tb_sessions tb) source P)" by (simp add: assms(2))
  have keep: "op_ok D ?tb' p" if "p \<in># ops" for p unfolding m by (rule op_ok_remove [OF ok(4) [OF that]])
  have sess: "sessions_ok D ?tb'" using ok(1)
    by (auto simp: m sessions_ok_def get_remove split: option.splits if_splits)
  have ids: "ids_ok ?tb'" using ok(2) by (simp add: ids_ok_def)
  show ?thesis
  proof (cases k)
    case None
    with keep sess ids ok(5) show ?thesis by (simp add: table_inv_def)
  next
    case (Some r)
    then have "snd (dm_remove_if D (tb_sessions tb) source P) = Some r" by (simp add: assms(2))
    then have r: "dm_get D (tb_sessions tb) source = Some r" "P r"
      by (auto simp: remove_result split: option.splits if_splits)
    then have "listed D tb r" by (auto simp: listed_def)
    then have "\<not> owns r p" if "p \<in># ops" for p using ok(4) [OF that] by (cases p) auto
    then have none: "filter_mset (owns r) ops = {#}" by simp
    have "\<not> listed D ?tb' r"
      using r ok(1) by (auto simp: m listed_def get_remove sessions_ok_def split: if_splits)
    then have "op_ok D ?tb' (OpCancel r)" using r(1) ok(1) by (auto simp: sessions_ok_def)
    with keep sess ids ok(5) none Some show ?thesis by (auto simp: table_inv_def)
  qed
qed

lemma inv_flags:
  assumes "table_inv D tb (add_mset o' ops)" and "owns r o'" and "\<not> listed D tb r"
    and "\<And>s. us_source (f s) = us_source s" and "\<And>s. us_id (f s) = us_id s"
    and "op_ok D (on_session r f tb) o''" and "\<And>r'. owns r' o'' \<Longrightarrow> r' = r"
  shows "table_inv D (on_session r f tb) (add_mset o'' ops)"
proof -
  note ok = inv_facts [OF assms(1)]
  have "op_ok D (on_session r f tb) p" if "p \<in># ops" for p
    by (rule op_ok_update [OF ok(4) [OF that] ok(6) [OF assms(2) that] assms(4)])
  then have "\<forall>p \<in># add_mset o'' ops. op_ok D (on_session r f tb) p" using assms(6) by simp
  moreover have "sessions_ok D (on_session r f tb)" using ok(1) assms(3) by (auto simp: sessions_ok_def listed_def)
  moreover have "ids_ok (on_session r f tb)" using ok(2) assms(5) by (simp add: ids_ok_def)
  moreover have "size (filter_mset (owns r') (add_mset o'' ops)) \<le> 1" for r'
    using ok(5) [of r'] ok(7) [of r] assms(2) assms(7) [of r'] by (cases "owns r' o''") auto
  ultimately show ?thesis unfolding table_inv_def by blast
qed

lemma inv_act:
  assumes "table_inv D tb (add_mset o' ops)" and "table_op D sys target now o' tb = (tb', k)"
  shows "table_inv D tb' (case k of None \<Rightarrow> ops | Some o'' \<Rightarrow> add_mset o'' ops)"
proof -
  note ok = inv_facts [OF assms(1)]
  show ?thesis
  proof (cases o')
    case (OpCreate source)
    then show ?thesis using assms ok(1-5) inv_create [of tb source ops]
      by (auto simp: table_inv_def split: sum.splits prod.splits)
  next
    case (OpEntry source r)
    then show ?thesis using assms ok(1-5) inv_entry [of tb source r ops]
      by (auto simp: table_inv_def sessions_ok_def split: option.splits)
  next
    case (OpRemove source i)
    then show ?thesis using assms inv_remove [of tb source i ops] by (auto split: prod.splits)
  next
    case (OpCancel r)
    have "table_inv D (on_session r session_cancel tb) (add_mset (OpMark r) ops)"
      by (rule inv_flags [OF assms(1)]) (use ok(3) OpCancel in \<open>auto simp: listed_def\<close>)
    then show ?thesis using assms(2) OpCancel by auto
  next
    case (OpMark r)
    have "table_inv D (on_session r (fst \<circ> session_mark_closed) tb) (add_mset OpClose ops)"
      by (rule inv_flags [OF assms(1)]) (use ok(3) OpMark in \<open>auto simp: listed_def\<close>)
    then show ?thesis using assms(2) ok(3) OpMark by (auto simp: session_mark_closed_def)
  qed (use assms(2) ok(1-5) in \<open>auto simp: table_inv_def sessions_ok_def ids_ok_def op_ok_stats op_ok_tasks
      op_ok_touch split: option.splits if_splits\<close>)
qed

lemma inv_reach:
  assumes "table_reach D timely (table_new D d st) tb ops"
  shows "table_inv D tb ops"
  using assms
proof (induction rule: table_reach.induct)
  case here
  then show ?case
    by (simp add: table_inv_def table_new_def sessions_ok_def ids_ok_def get_empty)
next
  case (step tb ops tb' ops')
  from step.hyps(2) step.IH show ?case
  proof (cases rule: table_step.cases)
    case (act sys target now o' k ops0)
    with step.IH inv_act show ?thesis by simp
  qed (auto simp: table_inv_def)
qed

end

section \<open>The gauge of active flows\<close>

definition opened :: "'m session_map \<Rightarrow> 'm session_table \<Rightarrow> tbl_op multiset \<Rightarrow> socket_addr set" where
  "opened D tb ops = {k. \<exists>r. dm_get D (tb_sessions tb) k = Some r \<and> OpOpen r \<notin># ops}"

definition flows :: "'m session_table \<Rightarrow> nat" where
  "flows tb = unat (ps_udp_active_flows (tb_stats tb))"

definition gauge_inv :: "'m session_map \<Rightarrow> 'm session_table \<Rightarrow> tbl_op multiset \<Rightarrow> bool" where
  "gauge_inv D tb ops \<longleftrightarrow>
     flows tb = card (opened D tb ops) + size (filter_mset closing ops) \<and>
     flows tb + size (filter_mset uncounted ops) \<le> length (tb_arena tb) \<and>
     (\<forall>r. OpOpen r \<in># ops \<longrightarrow> dm_get D (tb_sessions tb) (us_source (tb_arena tb ! r)) = Some r) \<and>
     (\<forall>r. count ops (OpOpen r) \<le> 1)"

lemma arena_grows:
  assumes "table_op D sys target now o' tb = (tb', k)"
  shows "length (tb_arena tb) \<le> length (tb_arena tb')"
  using assms by (cases o') (auto simp: new_session_def split: option.splits sum.splits prod.splits)

lemma flows_open: "flows tb < 2 ^ 64 - 1 \<Longrightarrow> flows (tb\<lparr>tb_stats := record_udp_flow_open (tb_stats tb)\<rparr>) = Suc (flows tb)"
  by (simp add: flows_def record_udp_flow_open_def unat_plus_no_wrap)

lemma flows_close: "flows (tb\<lparr>tb_stats := record_udp_flow_close (tb_stats tb)\<rparr>) = flows tb - 1"
  by (simp add: flows_def record_udp_flow_close_def unat_atomic_dec)

context session_dashmap
begin

lemma finite_opened: "finite (opened D tb ops)"
  by (rule finite_subset [OF _ finite_dom [of "tb_sessions tb"]]) (auto simp: opened_def)

text \<open>A step that leaves the map, the counters and the pending openings alone.\<close>

lemma gauge_same:
  assumes "gauge_inv D tb (add_mset o' ops)" and "tb_sessions tb' = tb_sessions tb"
    and "flows tb' = flows tb" and "length (tb_arena tb) \<le> length (tb_arena tb')"
    and "\<And>r. r < length (tb_arena tb) \<Longrightarrow> us_source (tb_arena tb' ! r) = us_source (tb_arena tb ! r)"
    and "\<And>r. OpOpen r \<in># ops \<Longrightarrow> r < length (tb_arena tb)"
    and "\<forall>r. o' \<noteq> OpOpen r" and "\<forall>r. k \<noteq> Some (OpOpen r)"
    and "closing o' \<longleftrightarrow> (\<exists>p. k = Some p \<and> closing p)"
    and "(\<exists>p. k = Some p \<and> uncounted p) \<Longrightarrow> uncounted o' \<or> length (tb_arena tb) < length (tb_arena tb')"
  shows "gauge_inv D tb' (case k of None \<Rightarrow> ops | Some o'' \<Rightarrow> add_mset o'' ops)"
proof -
  let ?ops' = "case k of None \<Rightarrow> ops | Some o'' \<Rightarrow> add_mset o'' ops"
  have pend: "OpOpen r \<in># ?ops' \<longleftrightarrow> OpOpen r \<in># ops" "count ?ops' (OpOpen r) = count ops (OpOpen r)"
    "OpOpen r \<in># add_mset o' ops \<longleftrightarrow> OpOpen r \<in># ops" "count (add_mset o' ops) (OpOpen r) = count ops (OpOpen r)" for r
    using assms(7,8) by (auto split: option.splits)
  have "opened D tb' ?ops' = opened D tb (add_mset o' ops)"
    by (simp only: opened_def assms(2) pend)
  moreover have "size (filter_mset closing ?ops') = size (filter_mset closing (add_mset o' ops))"
    using assms(9) by (cases k) auto
  moreover have "flows tb + size (filter_mset uncounted ?ops') \<le> length (tb_arena tb')"
    using assms(1,4,10) by (cases k) (auto simp: gauge_inv_def split: if_splits)
  moreover have "count ?ops' (OpOpen r) \<le> 1" for r
    using assms(1) unfolding pend(2) pend(4) [symmetric] gauge_inv_def by blast
  moreover have "dm_get D (tb_sessions tb') (us_source (tb_arena tb' ! r)) = Some r" if "OpOpen r \<in># ?ops'" for r
    using that assms(1,2,5,6) by (simp add: gauge_inv_def pend(1))
  moreover have "flows tb = card (opened D tb (add_mset o' ops)) + size (filter_mset closing (add_mset o' ops))"
    using assms(1) unfolding gauge_inv_def by blast
  ultimately show ?thesis unfolding gauge_inv_def assms(3) by metis
qed

lemma gauge_facts:
  assumes "gauge_inv D tb ops"
  shows "flows tb = card (opened D tb ops) + size (filter_mset closing ops)"
    "flows tb + size (filter_mset uncounted ops) \<le> length (tb_arena tb)"
    "OpOpen r \<in># ops \<Longrightarrow> dm_get D (tb_sessions tb) (us_source (tb_arena tb ! r)) = Some r"
    "count ops (OpOpen r) \<le> 1"
  using assms unfolding gauge_inv_def by blast+

lemma gauge_entry:
  assumes "gauge_inv D tb (add_mset (OpEntry source r) ops)" and "op_ok D tb (OpEntry source r)"
    and "dm_get D (tb_sessions tb) source = None"
  shows "gauge_inv D (tb\<lparr>tb_sessions := dm_insert D (tb_sessions tb) source r\<rparr>) (add_mset (OpOpen r) ops)"
    (is "gauge_inv D ?tb' ?ops'")
proof -
  note gauge = gauge_facts [OF assms(1)]
  have fresh: "OpOpen r \<notin># ops" using gauge(3) [of r] assms(2) by (auto simp: listed_def)
  have other: "dm_get D (tb_sessions tb) k' \<noteq> Some r" for k' using assms(2) by (auto simp: listed_def)
  have "opened D ?tb' ?ops' = opened D tb (add_mset (OpEntry source r) ops)"
    using assms(3) other by (auto simp: opened_def get_insert)
  moreover have "flows ?tb' = flows tb" by (simp add: flows_def)
  moreover have "count ops (OpOpen r') \<le> 1" for r' using gauge(4) [of r'] by simp
  moreover have "dm_get D (tb_sessions ?tb') (us_source (tb_arena ?tb' ! r')) = Some r'" if "OpOpen r' \<in># ?ops'" for r'
    using that gauge(3) [of r'] assms(2,3) by (auto simp: get_insert)
  ultimately show ?thesis using gauge(1,2) fresh by (auto simp: gauge_inv_def not_in_iff)
qed

lemma gauge_open:
  assumes "gauge_inv D tb (add_mset (OpOpen r) ops)" and "sessions_ok D tb" and "length (tb_arena tb) < 2 ^ 64"
  shows "gauge_inv D (tb\<lparr>tb_stats := record_udp_flow_open (tb_stats tb)\<rparr>) (add_mset (OpSpawn r) ops)"
    (is "gauge_inv D ?tb' ?ops'")
proof -
  note gauge = gauge_facts [OF assms(1)]
  let ?s = "us_source (tb_arena tb ! r)"
  have gone: "OpOpen r \<notin># ops" using gauge(4) [of r] by (simp add: not_in_iff)
  have r: "dm_get D (tb_sessions tb) ?s = Some r" using gauge(3) [of r] by simp
  have uniq: "k' = ?s" if "dm_get D (tb_sessions tb) k' = Some r" for k'
    using that assms(2) by (simp add: sessions_ok_def)
  have "k' \<in> opened D ?tb' ?ops' \<longleftrightarrow> k' \<in> insert ?s (opened D tb (add_mset (OpOpen r) ops))" for k'
  proof (cases "dm_get D (tb_sessions tb) k'")
    case (Some r')
    then show ?thesis using uniq [of k'] r gone by (cases "r' = r") (auto simp: opened_def)
  qed (use r in \<open>auto simp: opened_def\<close>)
  then have "opened D ?tb' ?ops' = insert ?s (opened D tb (add_mset (OpOpen r) ops))" by blast
  moreover have "?s \<notin> opened D tb (add_mset (OpOpen r) ops)" using r by (auto simp: opened_def)
  ultimately have "card (opened D ?tb' ?ops') = Suc (card (opened D tb (add_mset (OpOpen r) ops)))"
    using finite_opened by simp
  moreover have "flows ?tb' = Suc (flows tb)" by (rule flows_open) (use gauge(2) assms(3) in simp)
  moreover have "count ops (OpOpen r') \<le> 1" for r' using gauge(4) [of r'] by (auto split: if_splits)
  ultimately show ?thesis using gauge(1-3) by (simp add: gauge_inv_def)
qed

lemma gauge_remove:
  assumes "gauge_inv D tb (add_mset (OpRemove source i) ops)"
    and "in_time D (OpRemove source i) tb ops"
    and "dm_remove_if D (tb_sessions tb) source (\<lambda>current. us_id (tb_arena tb ! current) = i) = (m, k)"
  shows "gauge_inv D (tb\<lparr>tb_sessions := m\<rparr>) (case map_option OpCancel k of None \<Rightarrow> ops | Some o'' \<Rightarrow> add_mset o'' ops)"
proof -
  let ?tb' = "tb\<lparr>tb_sessions := m\<rparr>" and ?P = "\<lambda>current. us_id (tb_arena tb ! current) = i"
  note gauge = gauge_facts [OF assms(1)]
  have res: "m = fst (dm_remove_if D (tb_sessions tb) source ?P)" "k = snd (dm_remove_if D (tb_sessions tb) source ?P)"
    by (simp_all add: assms(3))
  have flow: "flows ?tb' = flows tb" by (simp add: flows_def)
  have cnt: "count ops (OpOpen r') \<le> 1" for r' using gauge(4) [of r'] by simp
  show ?thesis
  proof (cases k)
    case None
    then have "dm_get D m = dm_get D (tb_sessions tb)"
      by (auto simp: res get_remove remove_result split: option.splits if_splits)
    with None flow gauge(1-3) cnt show ?thesis by (auto simp: gauge_inv_def opened_def)
  next
    case (Some r)
    then have r: "dm_get D (tb_sessions tb) source = Some r" "?P r"
      by (auto simp: res remove_result split: option.splits if_splits)
    then have get': "dm_get D m = (dm_get D (tb_sessions tb))(source := None)" by (simp add: res get_remove)
    have open': "OpOpen r \<notin># ops" using assms(2) r by simp
    then have "opened D tb (add_mset (OpRemove source i) ops) = insert source (opened D ?tb' ops)"
      using r(1) by (auto simp: opened_def get')
    moreover have "source \<notin> opened D ?tb' ops" by (simp add: opened_def get')
    ultimately have "card (opened D tb (add_mset (OpRemove source i) ops)) = Suc (card (opened D ?tb' ops))"
      using finite_opened by simp
    moreover have "opened D ?tb' (add_mset (OpCancel r) ops) = opened D ?tb' ops" by (simp add: opened_def)
    moreover have "dm_get D m (us_source (tb_arena tb ! r')) = Some r'" if "OpOpen r' \<in># ops" for r'
    proof -
      have g: "dm_get D (tb_sessions tb) (us_source (tb_arena tb ! r')) = Some r'" using gauge(3) [of r'] that by simp
      with r(1) open' that have "us_source (tb_arena tb ! r') \<noteq> source" by auto
      with g show ?thesis by (simp add: get')
    qed
    ultimately show ?thesis using Some flow gauge(1,2) cnt by (simp add: gauge_inv_def)
  qed
qed

lemma gauge_close:
  assumes "gauge_inv D tb (add_mset OpClose ops)"
  shows "gauge_inv D (tb\<lparr>tb_stats := record_udp_flow_close (tb_stats tb)\<rparr>) ops"
proof -
  note gauge = gauge_facts [OF assms]
  have "opened D (tb\<lparr>tb_stats := record_udp_flow_close (tb_stats tb)\<rparr>) ops = opened D tb (add_mset OpClose ops)"
    by (simp add: opened_def)
  moreover have "count ops (OpOpen r') \<le> 1" for r' using gauge(4) [of r'] by simp
  ultimately show ?thesis using gauge(1-3) by (auto simp: gauge_inv_def flows_close)
qed

lemma gauge_act:
  assumes "table_inv D tb (add_mset o' ops)" and "gauge_inv D tb (add_mset o' ops)"
    and "table_op D sys target now o' tb = (tb', k)" and "in_time D o' tb ops"
    and "length (tb_arena tb') < 2 ^ 64"
  shows "gauge_inv D tb' (case k of None \<Rightarrow> ops | Some o'' \<Rightarrow> add_mset o'' ops)"
proof -
  note ok = inv_facts [OF assms(1)]
  have pending: "r < length (tb_arena tb)" if "OpOpen r \<in># ops" for r
    using ok(4) [OF that] by simp
  note same = gauge_same [OF assms(2)]
  show ?thesis
  proof (cases o')
    case (OpCreate source)
    then show ?thesis using assms(3) pending
      by (intro same) (auto simp: new_session_def flows_def nth_append split: sum.splits)
  next
    case (OpEntry source r)
    show ?thesis
    proof (cases "dm_get D (tb_sessions tb) source")
      case (Some existing)
      with OpEntry assms(3) have "tb' = tb" "k = Some (OpTouch existing)" by simp_all
      then show ?thesis using OpEntry pending by (intro same) auto
    next
      case None
      with OpEntry gauge_entry [of tb source r ops] assms(2,3) ok(3) show ?thesis by auto
    qed
  next
    case (OpOpen r)
    then have "gauge_inv D (tb\<lparr>tb_stats := record_udp_flow_open (tb_stats tb)\<rparr>) (add_mset (OpSpawn r) ops)"
      using assms(2,3,5) by (intro gauge_open ok(1)) auto
    with OpOpen assms(3) show ?thesis by auto
  next
    case (OpRemove source i)
    with gauge_remove [of tb source i ops] assms(2-4) show ?thesis by (auto simp del: in_time.simps split: prod.splits)
  next
    case OpClose
    with gauge_close [of tb ops] assms(2,3) show ?thesis by auto
  next
    case (OpMark r)
    have "snd (session_mark_closed (tb_arena tb ! r))" using ok(3) OpMark by (simp add: session_mark_closed_def)
    then show ?thesis using OpMark assms(3) pending by (intro same) (auto simp: flows_def)
  next
    case (OpLookup source)
    then show ?thesis using assms(3) pending by (intro same) (auto split: option.splits)
  qed (use assms(3) pending in \<open>intro same; auto simp: flows_def\<close>)+
qed

end

end
