(* ===== verification/Udp_Session_Spec.thy ===== *)
theory Udp_Session_Spec
  imports Udp_Session_Inv
begin

text \<open>
  What the session table promises: the invariants of every reachable state, and what each
  operation does when it runs alone, in terms of the map from client addresses to sessions.
\<close>

section \<open>Reachable states\<close>

lemma in_time_alone: "in_time D o' tb {#}"
  by (cases o') (auto split: option.splits)

lemma reach_alone:
  assumes "table_reach D timely tb0 tb {#o'#}" and "op_alone n D sys target now o' tb = Some tb'"
  shows "table_reach D timely tb0 tb' {#}"
  using assms
proof (induction n arbitrary: o' tb)
  case (Suc n)
  obtain tb1 k where op: "table_op D sys target now o' tb = (tb1, k)" by (cases "table_op D sys target now o' tb")
  have "table_reach D timely tb0 tb1 (case k of None \<Rightarrow> {#} | Some o'' \<Rightarrow> {#o''#})"
    using table_reach.step [OF Suc.prems(1) table_step.act [OF op in_time_alone]] .
  with Suc op show ?case by (cases k) auto
qed simp

lemma reach_get_or_create:
  "table_reach D timely tb0 tb {#} \<Longrightarrow>
   table_reach D timely tb0 (snd (get_or_create D sys target now source tb)) {#}"
  by (rule reach_alone [OF _ get_or_create_steps]) (rule table_reach.step [OF _ table_step.start_get])

lemma reach_remove_session:
  "table_reach D timely tb0 tb {#} \<Longrightarrow> table_reach D timely tb0 (remove_session D source i tb) {#}"
  by (rule reach_alone [OF _ remove_session_steps]) (rule table_reach.step [OF _ table_step.start_remove])

lemma reach_remove_all:
  "table_reach D timely tb0 tb {#} \<Longrightarrow> table_reach D timely tb0 (remove_all D xs tb) {#}"
  unfolding remove_all_def
  by (induction xs arbitrary: tb) (auto intro: reach_remove_session)

section \<open>Removals\<close>

context session_dashmap
begin

lemma remove_session_cases:
  "remove_session D source i tb =
     (case dm_get D (tb_sessions tb) source of
        Some r \<Rightarrow>
          if us_id (tb_arena tb ! r) = i then
            let m = fst (dm_remove_if D (tb_sessions tb) source (\<lambda>r. us_id (tb_arena tb ! r) = i));
                tb1 = on_session r session_cancel (tb\<lparr>tb_sessions := m\<rparr>);
                tb2 = on_session r (fst \<circ> session_mark_closed) tb1
            in if \<not> us_closed (tb_arena tb1 ! r) then tb2\<lparr>tb_stats := record_udp_flow_close (tb_stats tb2)\<rparr> else tb2
          else tb\<lparr>tb_sessions := fst (dm_remove_if D (tb_sessions tb) source (\<lambda>r. us_id (tb_arena tb ! r) = i))\<rparr>
      | None \<Rightarrow> tb\<lparr>tb_sessions := fst (dm_remove_if D (tb_sessions tb) source (\<lambda>r. us_id (tb_arena tb ! r) = i))\<rparr>)"
proof -
  let ?res = "dm_remove_if D (tb_sessions tb) source (\<lambda>r. us_id (tb_arena tb ! r) = i)"
  obtain m v where res: "?res = (m, v)" by (cases ?res)
  with remove_result [of "tb_sessions tb" source "\<lambda>r. us_id (tb_arena tb ! r) = i"] show ?thesis
    by (auto simp: remove_session_def Let_def session_mark_closed_def split: option.splits)
qed

lemma remove_session_ids [simp]:
  "length (tb_arena (remove_session D source i tb)) = length (tb_arena tb)"
  "r < length (tb_arena tb) \<Longrightarrow> us_id (tb_arena (remove_session D source i tb) ! r) = us_id (tb_arena tb ! r)"
  by (auto simp: remove_session_cases Let_def split: option.splits)

lemma remove_session_get:
  "dm_get D (tb_sessions (remove_session D source i tb)) k =
     (case dm_get D (tb_sessions tb) k of
        None \<Rightarrow> None
      | Some r \<Rightarrow> if k = source \<and> us_id (tb_arena tb ! r) = i then None else Some r)"
  by (auto simp: remove_session_cases Let_def get_remove split: option.splits)

lemma remove_session_flags:
  assumes "sessions_ok D tb" and "r < length (tb_arena tb)"
  shows "tb_arena (remove_session D source i tb) ! r =
    (if dm_get D (tb_sessions tb) source = Some r \<and> us_id (tb_arena tb ! r) = i
     then (tb_arena tb ! r)\<lparr>us_shutdown := True, us_closed := True\<rparr> else tb_arena tb ! r)"
  using assms
  by (auto simp: remove_session_cases Let_def session_cancel_def session_mark_closed_def split: option.splits)

lemma sessions_ok_remove: "sessions_ok D tb \<Longrightarrow> sessions_ok D (remove_session D source i tb)"
  unfolding sessions_ok_def
  by (auto simp: remove_session_get remove_session_flags [unfolded sessions_ok_def] split: option.splits if_splits)

lemma remove_all_get:
  assumes "sessions_ok D tb"
  shows "dm_get D (tb_sessions (remove_all D xs tb)) k =
    (case dm_get D (tb_sessions tb) k of
       None \<Rightarrow> None
     | Some r \<Rightarrow> if (k, us_id (tb_arena tb ! r)) \<in> set xs then None else Some r)"
  using assms
proof (induction xs arbitrary: tb)
  case Nil
  then show ?case by (auto simp: remove_all_def split: option.splits)
next
  case (Cons x xs)
  obtain source i where x: "x = (source, i)" by (cases x)
  let ?tb = "remove_session D source i tb"
  have "remove_all D (x # xs) tb = remove_all D xs ?tb" by (simp add: remove_all_def x)
  moreover have "us_id (tb_arena ?tb ! r) = us_id (tb_arena tb ! r)"
    if "dm_get D (tb_sessions tb) k = Some r" for r
    using Cons.prems that by (auto simp: sessions_ok_def)
  ultimately show ?case
    using Cons.IH [OF sessions_ok_remove [OF Cons.prems]]
    by (auto simp: remove_session_get x split: option.splits)
qed

lemma remove_all_flags:
  assumes "sessions_ok D tb" and "dm_get D (tb_sessions tb) k = Some r"
    and "(k, us_id (tb_arena tb ! r)) \<in> set xs"
  shows "us_shutdown (tb_arena (remove_all D xs tb) ! r) \<and> us_closed (tb_arena (remove_all D xs tb) ! r)"
proof -
  have keep: "us_shutdown (tb_arena (remove_all D ys tb1) ! r) \<and> us_closed (tb_arena (remove_all D ys tb1) ! r)"
    if "sessions_ok D tb1" "r < length (tb_arena tb1)" "us_shutdown (tb_arena tb1 ! r)" "us_closed (tb_arena tb1 ! r)"
    for ys tb1
    using that
    by (induction ys arbitrary: tb1) (auto simp: remove_all_def sessions_ok_remove remove_session_flags)
  have "r < length (tb_arena tb)" using assms(1,2) by (auto simp: sessions_ok_def)
  then show ?thesis using assms
  proof (induction xs arbitrary: tb)
    case (Cons x xs)
    obtain source i where x: "x = (source, i)" by (cases x)
    let ?tb = "remove_session D source i tb"
    have step: "remove_all D (x # xs) tb = remove_all D xs ?tb" by (simp add: remove_all_def x)
    show ?case
    proof (cases "source = k \<and> i = us_id (tb_arena tb ! r)")
      case True
      then show ?thesis unfolding step using Cons.prems
        by (intro keep) (simp_all add: sessions_ok_remove remove_session_flags)
    next
      case False
      with Cons.prems x have "dm_get D (tb_sessions ?tb) k = Some r" "(k, us_id (tb_arena ?tb ! r)) \<in> set xs"
        by (auto simp: remove_session_get)
      then show ?thesis unfolding step using Cons.IH [of ?tb] Cons.prems by (simp add: sessions_ok_remove)
    qed
  qed simp
qed

lemma gauge_reach:
  assumes "table_reach D True (table_new D d (port_stats_new port)) tb ops" and "length (tb_arena tb) < 2 ^ 64"
  shows "gauge_inv D tb ops"
  using assms
proof (induction rule: table_reach.induct)
  case here
  then show ?case
    by (simp add: gauge_inv_def table_new_def opened_def flows_def port_stats_new_def get_empty)
next
  case (step tb ops tb' ops')
  from step.hyps(2) show ?case
  proof (cases rule: table_step.cases)
    case (start_get source)
    with step show ?thesis by (simp add: gauge_inv_def opened_def)
  next
    case (start_remove source i)
    with step show ?thesis by (simp add: gauge_inv_def opened_def)
  next
    case (act sys target now o' k ops0)
    have "length (tb_arena tb) < 2 ^ 64" using arena_grows [OF act(3)] step.prems by simp
    with step.IH have "gauge_inv D tb (add_mset o' ops0)" unfolding act(1) by simp
    moreover have "table_inv D tb (add_mset o' ops0)" using inv_reach [OF step.hyps(1)] unfolding act(1) .
    ultimately show ?thesis using gauge_act act step.prems by simp
  qed
qed

end

section \<open>Properties\<close>

lemmas session_laws = session_dashmap.intro

interpretation sharded_sessions: session_dashmap "sharded hash n" for hash :: "socket_addr \<Rightarrow> nat" and n :: nat
  by unfold_locales

text \<open>C12: In every state that the operations of the listener, the cleanup task and the reply tasks
  can reach together, step by step in any order: a session in the table belongs to the client
  address it is listed under and is neither cancelled nor closed; no session is listed twice;
  the \<open>n\<close>-th session ever made has identifier \<open>n\<close>, so identifiers are not reused within
  \<open>2 ^ 64\<close> sessions; and whoever removed or has not yet published a session is its only owner.\<close>

theorem sessions_sound:
  assumes "dashmap D" and "table_reach D timely (table_new D d st) tb ops"
  shows "(\<forall>k r. dm_get D (tb_sessions tb) k = Some r \<longrightarrow>
      r < length (tb_arena tb) \<and> us_source (tb_arena tb ! r) = k \<and> us_id (tb_arena tb ! r) = of_nat (Suc r) \<and>
      \<not> us_closed (tb_arena tb ! r) \<and> \<not> us_shutdown (tb_arena tb ! r) \<and>
      (\<forall>k'. dm_get D (tb_sessions tb) k' = Some r \<longrightarrow> k' = k) \<and> (\<forall>o' \<in># ops. \<not> owns r o')) \<and>
    (\<forall>r. size (filter_mset (owns r) ops) \<le> 1)"
proof -
  from session_dashmap.inv_reach [OF session_laws [OF assms(1)] assms(2)]
  have inv: "sessions_ok D tb" "ids_ok tb" "\<forall>o' \<in># ops. op_ok D tb o'" "\<forall>r. size (filter_mset (owns r) ops) \<le> 1"
    by (auto simp: table_inv_def)
  have "\<not> owns r o'" if "dm_get D (tb_sessions tb) k = Some r" "o' \<in># ops" for k r o'
    using inv(3) that by (cases o') (auto simp: listed_def)
  moreover have "k' = k" if "dm_get D (tb_sessions tb) k = Some r" "dm_get D (tb_sessions tb) k' = Some r" for k k' r
    using inv(1) that by (metis sessions_ok_def)
  ultimately show ?thesis using inv by (auto simp: sessions_ok_def ids_ok_def)
qed

text \<open>C11: The gauge of active flows is exact. As long as no session is removed between its insertion
  and the recording of its opening, then at every moment, under every interleaving, the gauge is
  the number of listed sessions whose opening was recorded plus the number of removals whose
  closing is still to be recorded; when no operation is in flight, it is the number of sessions
  in the table.\<close>

theorem flow_gauge_exact:
  assumes "dashmap D" and "table_reach D True (table_new D d (port_stats_new port)) tb ops"
    and "length (tb_arena tb) < 2 ^ 64"
  shows "unat (ps_udp_active_flows (tb_stats tb)) =
      card {k. \<exists>r. dm_get D (tb_sessions tb) k = Some r \<and> OpOpen r \<notin># ops} + size (filter_mset closing ops) \<and>
    (ops = {#} \<longrightarrow> unat (ps_udp_active_flows (tb_stats tb)) = card (dom (dm_get D (tb_sessions tb))))"
  using session_dashmap.gauge_reach [OF session_laws [OF assms(1)] assms(2,3)]
  by (auto simp: gauge_inv_def flows_def opened_def dom_def)

lemma made_ok: "snd (new_connected_udp_socket (\<lambda>_. None) target) = Inr
   \<lparr>sk_type = Dgram, sk_local = unspecified_for target, sk_peer = Some target\<rparr>"
  by (auto simp: new_connected_udp_socket_def made_def configure_udp_socket_def)

abbreviation example_map :: "(socket_addr, nat) shards session_map" where
  "example_map \<equiv> sharded (\<lambda>a. unat (addr_port a)) 3"

abbreviation example_table :: "(socket_addr, nat) shards session_table" where
  "example_table \<equiv> table_new example_map 120000000000 (port_stats_new 443)"

abbreviation example_get :: "u64 \<Rightarrow> socket_addr \<Rightarrow> (socket_addr, nat) shards session_table \<Rightarrow> (socket_addr, nat) shards session_table" where
  "example_get now source tb \<equiv> snd (get_or_create example_map (\<lambda>_. None) (SockV4 1 9000) now source tb)"

lemmas session_eval =
  get_or_create_def table_new_def new_session_def Let_def made_ok session_new_def
  sharded.get_empty sharded.get_insert

theorem sessions_sound_witness:
  "dm_get example_map (tb_sessions (example_get 7 (SockV4 5 1000) example_table)) (SockV4 5 1000) = Some 0 \<and>
   \<not> us_closed (tb_arena (example_get 7 (SockV4 5 1000) example_table) ! 0)"
proof -
  let ?tb = "example_get 7 (SockV4 5 1000) example_table"
  have "table_reach example_map True example_table ?tb {#}"
    by (rule reach_get_or_create [OF table_reach.here])
  from sessions_sound [OF sharded.dashmap_axioms this]
  have "\<not> us_closed (tb_arena ?tb ! r)" if "dm_get example_map (tb_sessions ?tb) k = Some r" for k r
    using that by blast
  moreover have "dm_get example_map (tb_sessions ?tb) (SockV4 5 1000) = Some 0"
    by (simp add: session_eval)
  ultimately show ?thesis by blast
qed

theorem flow_gauge_exact_witness:
  "unat (ps_udp_active_flows (tb_stats (example_get 8 (SockV4 5 1001) (example_get 7 (SockV4 5 1000) example_table)))) = 2"
proof -
  let ?tb = "example_get 8 (SockV4 5 1001) (example_get 7 (SockV4 5 1000) example_table)"
  have reach: "table_reach example_map True example_table ?tb {#}"
    by (intro reach_get_or_create table_reach.here)
  have arena: "length (tb_arena ?tb) < 2 ^ 64" by (simp add: session_eval)
  have "dm_get example_map (tb_sessions ?tb) = [SockV4 5 1000 \<mapsto> 0, SockV4 5 1001 \<mapsto> 1]"
    by (simp add: session_eval fun_eq_iff)
  then have "card (dom (dm_get example_map (tb_sessions ?tb))) = 2" by simp
  then show ?thesis using flow_gauge_exact [OF sharded.dashmap_axioms reach arena] by simp
qed

section \<open>The operations, one at a time\<close>

text \<open>A packet of a client whose session is in the table refreshes that session's time and
  nothing else. Without a session, a socket that cannot be made is the caller's error and leaves
  the table as it was; otherwise exactly one session is made, with the next identifier, the
  packet's source and a socket connected to the current target, it is listed under the source,
  one flow is counted and one reply task is started.\<close>

lemma get_or_create_spec:
  assumes "dashmap D" and "get_or_create D sys target now source tb = (r, tb')"
  shows "case dm_get D (tb_sessions tb) source of
      Some s \<Rightarrow> r = Inr s \<and> tb' = on_session s (session_touch now) tb
    | None \<Rightarrow>
        (case r of
           Inl e \<Rightarrow> snd (new_connected_udp_socket sys target) = Inl e \<and> tb' = tb
         | Inr s \<Rightarrow> s = length (tb_arena tb) \<and>
             dm_get D (tb_sessions tb') = (dm_get D (tb_sessions tb))(source \<mapsto> s) \<and>
             (\<exists>up. sk_peer up = Some target \<and>
                tb_arena tb' = tb_arena tb @ [session_new now (tb_next_session_id tb) source up]) \<and>
             tb_next_session_id tb' = tb_next_session_id tb + 1 \<and>
             tb_stats tb' = record_udp_flow_open (tb_stats tb) \<and>
             tb_reply_tasks tb' = tb_reply_tasks tb @ [s])"
proof (cases "dm_get D (tb_sessions tb) source")
  case (Some s)
  with assms(2) show ?thesis by (simp add: get_or_create_def)
next
  case None
  show ?thesis
  proof (cases "snd (new_connected_udp_socket sys target)")
    case (Inl e)
    with None assms(2) show ?thesis by (auto simp: get_or_create_def)
  next
    case (Inr up)
    from connected_peer [OF Inr] None Inr assms(2) show ?thesis
      by (auto simp: get_or_create_def new_session_def Let_def dashmap.get_insert [OF assms(1)])
  qed
qed

text \<open>A removal names a session by client address and identifier. If the table lists another
  session for the address, or none, nothing changes: a late removal of an old session cannot
  hurt its successor. If it lists that session, exactly that entry goes, the session is
  cancelled and closed, and the gauge goes down by one.\<close>

lemma remove_session_spec:
  assumes "dashmap D" and "table_reach D timely (table_new D d st) tb {#}"
    and "tb' = remove_session D source i tb"
  shows "(if \<exists>r. dm_get D (tb_sessions tb) source = Some r \<and> us_id (tb_arena tb ! r) = i
      then (\<exists>r. dm_get D (tb_sessions tb) source = Some r \<and>
          dm_get D (tb_sessions tb') = (dm_get D (tb_sessions tb))(source := None) \<and>
          tb_arena tb' = (tb_arena tb)[r := (tb_arena tb ! r)\<lparr>us_shutdown := True, us_closed := True\<rparr>] \<and>
          tb_stats tb' = record_udp_flow_close (tb_stats tb))
      else dm_get D (tb_sessions tb') = dm_get D (tb_sessions tb) \<and> tb_arena tb' = tb_arena tb \<and>
        tb_stats tb' = tb_stats tb) \<and>
    tb_next_session_id tb' = tb_next_session_id tb"
proof -
  note laws = session_laws [OF assms(1)]
  have ok: "sessions_ok D tb"
    using session_dashmap.inv_reach [OF laws assms(2)] by (simp add: table_inv_def)
  have get: "dm_get D (tb_sessions tb') = (\<lambda>k. case dm_get D (tb_sessions tb) k of None \<Rightarrow> None
      | Some r \<Rightarrow> if k = source \<and> us_id (tb_arena tb ! r) = i then None else Some r)"
    unfolding assms(3) by (rule ext) (rule session_dashmap.remove_session_get [OF laws])
  show ?thesis
  proof (cases "\<exists>r. dm_get D (tb_sessions tb) source = Some r \<and> us_id (tb_arena tb ! r) = i")
    case True
    then obtain r where r: "dm_get D (tb_sessions tb) source = Some r" "us_id (tb_arena tb ! r) = i" by blast
    with ok have len: "r < length (tb_arena tb)" "\<not> us_closed (tb_arena tb ! r)" by (auto simp: sessions_ok_def)
    have "tb_arena tb' = (tb_arena tb)[r := (tb_arena tb ! r)\<lparr>us_shutdown := True, us_closed := True\<rparr>]"
      "tb_stats tb' = record_udp_flow_close (tb_stats tb)" "tb_next_session_id tb' = tb_next_session_id tb"
      using r len unfolding assms(3) session_dashmap.remove_session_cases [OF laws]
      by (simp_all add: Let_def on_session_def session_cancel_def session_mark_closed_def)
    moreover have "dm_get D (tb_sessions tb') = (dm_get D (tb_sessions tb))(source := None)"
      using r unfolding get by (auto simp: fun_eq_iff split: option.splits)
    ultimately show ?thesis using r by auto
  next
    case False
    then have "dm_get D (tb_sessions tb') = dm_get D (tb_sessions tb)"
      unfolding get by (auto simp: fun_eq_iff split: option.splits)
    moreover have "tb_arena tb' = tb_arena tb" "tb_stats tb' = tb_stats tb" "tb_next_session_id tb' = tb_next_session_id tb"
      using False unfolding assms(3) session_dashmap.remove_session_cases [OF laws]
      by (auto split: option.splits)
    ultimately show ?thesis using False by (simp only: if_False simp_thms)
  qed
qed

section \<open>Cleanup and shutdown\<close>

definition idle_for :: "u64 \<Rightarrow> 'm session_table \<Rightarrow> nat \<Rightarrow> nat" where
  "idle_for now tb r = unat now - unat (us_last_active_epoch (tb_arena tb ! r))"

context session_dashmap
begin

lemma set_all_sessions:
  "(k, i) \<in> set (all_sessions D tb) \<longleftrightarrow> (\<exists>r. dm_get D (tb_sessions tb) k = Some r \<and> us_id (tb_arena tb ! r) = i)"
  by (auto simp: all_sessions_def set_iter image_iff split: prod.splits)

lemma set_stale_sessions:
  "(k, i) \<in> set (stale_sessions D now tb) \<longleftrightarrow>
     (\<exists>r. dm_get D (tb_sessions tb) k = Some r \<and> us_id (tb_arena tb ! r) = i \<and>
        unat (cleanup_timeout tb) \<le> idle_for now tb r)"
proof -
  have "cleanup_timeout tb \<le> saturating_sub now (us_last_active_epoch (tb_arena tb ! r)) \<longleftrightarrow>
      unat (cleanup_timeout tb) \<le> idle_for now tb r" for r
    by (simp add: word_le_nat_alt unat_saturating_sub idle_for_def)
  then show ?thesis
    by (auto simp: stale_sessions_def set_iter image_iff split: prod.splits)
qed

end

text \<open>C32: A tick of the cleanup removes exactly the sessions whose last activity is at least the
  idle timeout ago, the timeout being the configured one in whole seconds but at least one; the
  removed ones are cancelled and closed, all others stay listed. A clock that went backwards
  removes nothing.\<close>

theorem cleanup_tick_spec:
  assumes "dashmap D" and "table_reach D timely (table_new D d st) tb {#}"
    and "tb' = cleanup_tick D now tb"
  shows "\<forall>k. dm_get D (tb_sessions tb') k =
      (case dm_get D (tb_sessions tb) k of
         None \<Rightarrow> None
       | Some r \<Rightarrow> if unat (max 1 (as_secs (tb_idle_timeout tb))) \<le> idle_for now tb r then None else Some r) \<and>
    (\<forall>r. dm_get D (tb_sessions tb) k = Some r \<longrightarrow> dm_get D (tb_sessions tb') k = None \<longrightarrow>
       us_shutdown (tb_arena tb' ! r) \<and> us_closed (tb_arena tb' ! r))"
proof
  fix k
  note laws = session_laws [OF assms(1)]
  have ok: "sessions_ok D tb"
    using session_dashmap.inv_reach [OF laws assms(2)] by (simp add: table_inv_def)
  note get = session_dashmap.remove_all_get [OF laws ok, of "stale_sessions D now tb" k]
    and flags = session_dashmap.remove_all_flags [OF laws ok, of k _ "stale_sessions D now tb"]
    and stale = session_dashmap.set_stale_sessions [OF laws, of k _ now tb]
  show "dm_get D (tb_sessions tb') k =
      (case dm_get D (tb_sessions tb) k of
         None \<Rightarrow> None
       | Some r \<Rightarrow> if unat (max 1 (as_secs (tb_idle_timeout tb))) \<le> idle_for now tb r then None else Some r) \<and>
    (\<forall>r. dm_get D (tb_sessions tb) k = Some r \<longrightarrow> dm_get D (tb_sessions tb') k = None \<longrightarrow>
       us_shutdown (tb_arena tb' ! r) \<and> us_closed (tb_arena tb' ! r))"
    using get flags stale unfolding assms(3) cleanup_tick_def cleanup_timeout_def
    by (cases "dm_get D (tb_sessions tb) k") auto
qed

theorem cleanup_tick_spec_witness:
  "dm_get example_map (tb_sessions (cleanup_tick example_map 127
      (example_get 8 (SockV4 5 1001) (example_get 7 (SockV4 5 1000) example_table)))) = [SockV4 5 1001 \<mapsto> 1]"
proof -
  let ?tb = "example_get 8 (SockV4 5 1001) (example_get 7 (SockV4 5 1000) example_table)"
  have reach: "table_reach example_map True example_table ?tb {#}"
    by (intro reach_get_or_create table_reach.here)
  have "dm_get example_map (tb_sessions ?tb) = [SockV4 5 1000 \<mapsto> 0, SockV4 5 1001 \<mapsto> 1]"
    "idle_for 127 ?tb 0 = 120" "idle_for 127 ?tb 1 = 119" "as_secs (tb_idle_timeout ?tb) = 120"
    by (simp_all add: session_eval fun_eq_iff idle_for_def as_secs_def)
  then show ?thesis
    using cleanup_tick_spec [OF sharded.dashmap_axioms reach refl, of 127] by (auto simp: fun_eq_iff)
qed

text \<open>Shutting the table down leaves no session: the table is empty, every session that was
  listed is cancelled and closed, and the gauge of active flows is zero.\<close>

lemma shutdown_all_spec:
  assumes "dashmap D" and "table_reach D True (table_new D d (port_stats_new port)) tb {#}"
    and "length (tb_arena tb) < 2 ^ 64" and "tb' = shutdown_all D tb"
  shows "dm_get D (tb_sessions tb') = Map.empty \<and> ps_udp_active_flows (tb_stats tb') = 0 \<and>
    (\<forall>k r. dm_get D (tb_sessions tb) k = Some r \<longrightarrow>
       us_shutdown (tb_arena tb' ! r) \<and> us_closed (tb_arena tb' ! r))"
proof -
  note laws = session_laws [OF assms(1)]
  have ok: "sessions_ok D tb"
    using session_dashmap.inv_reach [OF laws assms(2)] by (simp add: table_inv_def)
  have all: "(k, us_id (tb_arena tb ! r)) \<in> set (all_sessions D tb)" if "dm_get D (tb_sessions tb) k = Some r" for k r
    using that session_dashmap.set_all_sessions [OF laws] by blast
  have empty: "dm_get D (tb_sessions tb') = Map.empty"
    using session_dashmap.remove_all_get [OF laws ok, of "all_sessions D tb"] all
    by (auto simp: assms(4) shutdown_all_def fun_eq_iff split: option.splits)
  have len: "length (tb_arena (remove_all D xs tb1)) = length (tb_arena tb1)" for xs tb1
    using session_dashmap.remove_session_ids(1) [OF laws]
    by (induction xs arbitrary: tb1) (auto simp: remove_all_def)
  have "table_reach D True (table_new D d (port_stats_new port)) tb' {#}"
    unfolding assms(4) shutdown_all_def by (rule reach_remove_all [OF assms(2)])
  moreover have "length (tb_arena tb') < 2 ^ 64" using assms(3) by (simp add: assms(4) shutdown_all_def len)
  ultimately have "gauge_inv D tb' {#}" by (rule session_dashmap.gauge_reach [OF laws])
  then have "ps_udp_active_flows (tb_stats tb') = 0"
    by (simp add: gauge_inv_def opened_def empty flows_def unat_eq_0)
  moreover have "us_shutdown (tb_arena tb' ! r) \<and> us_closed (tb_arena tb' ! r)"
    if "dm_get D (tb_sessions tb) k = Some r" for k r
    unfolding assms(4) shutdown_all_def
    by (rule session_dashmap.remove_all_flags [OF laws ok that all [OF that]])
  ultimately show ?thesis using empty by blast
qed

section \<open>The order of insertion and counting\<close>

lemma reach_act:
  assumes "table_reach D False tb0 tb (add_mset o' ops)" and "table_op D sys target now o' tb = (tb', k)"
    and "ops' = (case k of None \<Rightarrow> ops | Some o'' \<Rightarrow> add_mset o'' ops)"
  shows "table_reach D False tb0 tb' ops'"
  unfolding assms(3) by (rule table_reach.step [OF assms(1) table_step.act [OF assms(2)]]) simp


end
