(* ===== verification/Udp_Batch.thy ===== *)
theory Udp_Batch
  imports Socket
begin

text \<open>
  \<open>src/src/listener/udp_batch.rs\<close> (the Linux build): the buffer of a batched receive, the
  receive loops around \<open>recvmmsg\<close>, the send around \<open>sendmmsg\<close>, and the conversion of
  socket addresses to and from the bytes of a \<open>sockaddr_storage\<close>.

  What the kernel answers to each system call is an argument. The byte order of the machine
  is a parameter \<open>le\<close>; the layout that \<open>socket2\<close> gives an address is a parameter of the
  send path. A failed assertion or an index out of range is \<^const>\<open>None\<close>.
\<close>

section \<open>Bytes\<close>

fun le_bytes :: "nat \<Rightarrow> nat \<Rightarrow> u8 list" where
  "le_bytes 0 n = []"
| "le_bytes (Suc k) n = of_nat (n mod 256) # le_bytes k (n div 256)"

fun le_value :: "u8 list \<Rightarrow> nat" where
  "le_value [] = 0"
| "le_value (b # bs) = unat b + 256 * le_value bs"

definition be_bytes :: "nat \<Rightarrow> nat \<Rightarrow> u8 list" where
  "be_bytes k n = rev (le_bytes k n)"

definition be_value :: "u8 list \<Rightarrow> nat" where
  "be_value bs = le_value (rev bs)"

text \<open>Reading memory as an integer of the machine, and \<open>u16::from_be\<close>, \<open>u32::from_be\<close>.\<close>

definition native_bytes :: "bool \<Rightarrow> nat \<Rightarrow> nat \<Rightarrow> u8 list" where
  "native_bytes le k n = (if le then le_bytes k n else be_bytes k n)"

definition native_value :: "bool \<Rightarrow> u8 list \<Rightarrow> nat" where
  "native_value le bs = (if le then le_value bs else be_value bs)"

definition from_be :: "bool \<Rightarrow> nat \<Rightarrow> nat \<Rightarrow> nat" where
  "from_be le k n = (if le then le_value (rev (le_bytes k n)) else n)"

lemma length_le_bytes [simp]: "length (le_bytes k n) = k"
  by (induction k arbitrary: n) simp_all

lemma le_value_bytes: "n < 256 ^ k \<Longrightarrow> le_value (le_bytes k n) = n"
proof (induction k arbitrary: n)
  case (Suc k)
  then have "n div 256 < 256 ^ k" by (simp add: div_less_iff_less_mult mult.commute)
  with Suc.IH show ?case by (simp add: unat_of_nat)
qed simp

lemma le_bytes_value: "le_bytes (length bs) (le_value bs) = bs"
proof (induction bs)
  case (Cons b bs)
  have "unat b < 256" using unat_bound [of b] by simp
  then have "(unat b + 256 * le_value bs) mod 256 = unat b" "(unat b + 256 * le_value bs) div 256 = le_value bs"
    by simp_all
  with Cons show ?case by (simp del: mod_mult_self2 div_mult_self2)
qed simp

lemma bytes_lengths [simp]: "length (be_bytes k n) = k" "length (native_bytes le k n) = k"
  by (simp_all add: be_bytes_def native_bytes_def)

lemma be_value_bytes: "n < 256 ^ k \<Longrightarrow> be_value (be_bytes k n) = n"
  by (simp add: be_value_def be_bytes_def le_value_bytes)

lemma native_value_bytes: "n < 256 ^ k \<Longrightarrow> native_value le (native_bytes le k n) = n"
  by (simp add: native_value_def native_bytes_def le_value_bytes be_value_bytes)

text \<open>Converting from network order what was read in the machine's order gives the network
  order value, on either kind of machine.\<close>

lemma from_be_native: "length bs = k \<Longrightarrow> from_be le k (native_value le bs) = be_value bs"
  by (auto simp: from_be_def native_value_def be_value_def le_bytes_value)

section \<open>The code: addresses\<close>

definition af_inet :: nat where "af_inet = 2"

definition af_inet6 :: nat where "af_inet6 = 10"

definition bytes_at :: "nat \<Rightarrow> nat \<Rightarrow> u8 list \<Rightarrow> u8 list" where
  "bytes_at i n storage = take n (drop i storage)"

definition sockaddr_storage_to_socket_addr :: "bool \<Rightarrow> u8 list \<Rightarrow> socket_addr option" where
  "sockaddr_storage_to_socket_addr le storage =
     (let ss_family = native_value le (bytes_at 0 2 storage);
          port = of_nat (from_be le 2 (native_value le (bytes_at 2 2 storage)))
      in if ss_family = af_inet then
           Some (SockV4 (of_nat (from_be le 4 (native_value le (bytes_at 4 4 storage)))) port)
         else if ss_family = af_inet6 then
           Some (SockV6 (of_nat (be_value (bytes_at 8 16 storage))) port
             (of_nat (native_value le (bytes_at 4 4 storage)))
             (of_nat (native_value le (bytes_at 24 4 storage))))
         else None)"

definition socket_addr_to_sockaddr_storage ::
    "(socket_addr \<Rightarrow> u8 list) \<Rightarrow> socket_addr \<Rightarrow> u8 list \<Rightarrow> u8 list \<times> nat" where
  "socket_addr_to_sockaddr_storage sock_addr addr storage =
     (let bytes = sock_addr addr; len = length bytes in (bytes @ drop len storage, len))"

text \<open>The layouts of \<open>sockaddr_in\<close> and \<open>sockaddr_in6\<close>, which \<open>socket2\<close> fills in.\<close>

fun sockaddr_layout :: "bool \<Rightarrow> socket_addr \<Rightarrow> u8 list" where
  "sockaddr_layout le (SockV4 a p) =
     native_bytes le 2 af_inet @ be_bytes 2 (unat p) @ be_bytes 4 (unat a) @ replicate 8 0"
| "sockaddr_layout le (SockV6 a p f s) =
     native_bytes le 2 af_inet6 @ be_bytes 2 (unat p) @ native_bytes le 4 (unat f) @
     be_bytes 16 (unat a) @ native_bytes le 4 (unat s)"

lemma bytes_at_append:
  "length xs = i \<Longrightarrow> bytes_at (i + j) n (xs @ ys) = bytes_at j n ys"
  "length xs = n \<Longrightarrow> bytes_at 0 n (xs @ ys) = xs"
  by (simp_all add: bytes_at_def)

lemma decode_layout:
  "sockaddr_storage_to_socket_addr le (sockaddr_layout le addr @ rest) = Some addr"
proof (cases addr)
  case (SockV4 a p)
  have "unat p < 256 ^ 2" "unat a < 256 ^ 4" using unat_bound [of p] unat_bound [of a] by simp_all
  with SockV4 show ?thesis
    by (simp add: sockaddr_storage_to_socket_addr_def bytes_at_def from_be_native native_value_bytes
        be_value_bytes af_inet_def af_inet6_def)
next
  case (SockV6 a p f s)
  have "unat p < 256 ^ 2" "unat a < 256 ^ 16" "unat f < 256 ^ 4" "unat s < 256 ^ 4"
    using unat_bound [of p] unat_bound [of a] unat_bound [of f] unat_bound [of s] by simp_all
  with SockV6 show ?thesis
    by (simp add: sockaddr_storage_to_socket_addr_def bytes_at_def from_be_native native_value_bytes
        be_value_bytes af_inet_def af_inet6_def)
qed

text \<open>C31: An address written for \<open>sendmmsg\<close> reads back as the same address with the code that
  decodes what \<open>recvmmsg\<close> wrote: family, address, port, flow label and scope survive, on
  little-endian and big-endian machines.\<close>

theorem sockaddr_roundtrip:
  assumes "\<forall>a. sock_addr a = sockaddr_layout le a"
  shows "sockaddr_storage_to_socket_addr le
      (fst (socket_addr_to_sockaddr_storage sock_addr addr storage)) = Some addr"
  using assms by (simp add: socket_addr_to_sockaddr_storage_def Let_def decode_layout)

theorem sockaddr_roundtrip_witness:
  "sockaddr_storage_to_socket_addr True
     (fst (socket_addr_to_sockaddr_storage (sockaddr_layout True) (SockV6 1 443 7 2) (replicate 128 0))) =
   Some (SockV6 1 443 7 2)"
  by (rule sockaddr_roundtrip) simp

section \<open>The code: the buffer\<close>

definition max_batch_size :: nat where "max_batch_size = 32"

definition max_datagram :: nat where "max_datagram = 65535"

definition listener_batch_size :: nat where "listener_batch_size = 32"

definition listener_slot_size :: nat where "listener_slot_size = max_datagram"

definition session_batch_size :: nat where "session_batch_size = 8"

definition session_slot_size :: nat where "session_slot_size = max_datagram"

record batch_buf =
  bb_data :: "u8 list"
  bb_lens :: "nat list"
  bb_addrs :: "socket_addr option list"
  bb_batch_size :: nat
  bb_slot_size :: nat

definition batch_new :: "nat \<Rightarrow> nat \<Rightarrow> batch_buf option" where
  "batch_new batch_size slot_size =
     (if 0 < batch_size \<and> batch_size \<le> max_batch_size then
        Some \<lparr>bb_data = replicate (batch_size * slot_size) 0, bb_lens = replicate batch_size 0,
          bb_addrs = replicate batch_size None, bb_batch_size = batch_size, bb_slot_size = slot_size\<rparr>
      else None)"

definition slice :: "nat \<Rightarrow> nat \<Rightarrow> 'a list \<Rightarrow> 'a list option" where
  "slice i j xs = (if i \<le> j \<and> j \<le> length xs then Some (take (j - i) (drop i xs)) else None)"

definition batch_slot :: "batch_buf \<Rightarrow> nat \<Rightarrow> u8 list option" where
  "batch_slot buf index =
     (if index < length (bb_lens buf) then
        (let offset = index * bb_slot_size buf in
         slice offset (offset + bb_lens buf ! index) (bb_data buf))
      else None)"

definition batch_addr :: "batch_buf \<Rightarrow> nat \<Rightarrow> socket_addr option option" where
  "batch_addr buf index = (if index < length (bb_addrs buf) then Some (bb_addrs buf ! index) else None)"

section \<open>The code: receiving\<close>

text \<open>What one \<open>recvmmsg\<close> answers: an error, or for each datagram its bytes and the bytes of
  its sender's address. The kernel writes the bytes of the \<open>i\<close>-th datagram from the start of
  the \<open>i\<close>-th slot on (\<open>slot_mut_full\<close> gives it the slot as the I/O vector).\<close>

type_synonym datagrams = "(u8 list \<times> u8 list) list"

definition fill :: "nat \<Rightarrow> u8 list \<Rightarrow> u8 list \<Rightarrow> u8 list" where
  "fill offset bytes data = take offset data @ bytes @ drop (offset + length bytes) data"

fun recv_fill :: "(u8 list \<Rightarrow> batch_buf \<Rightarrow> nat \<Rightarrow> batch_buf) \<Rightarrow> nat \<Rightarrow> datagrams \<Rightarrow> batch_buf \<Rightarrow> batch_buf" where
  "recv_fill note i [] buf = buf"
| "recv_fill note i ((bytes, from) # ds) buf =
     recv_fill note (Suc i) ds
       (note from (buf\<lparr>bb_data := fill (i * bb_slot_size buf) bytes (bb_data buf),
                      bb_lens := (bb_lens buf)[i := length bytes]\<rparr>) i)"

definition note_sender :: "bool \<Rightarrow> u8 list \<Rightarrow> batch_buf \<Rightarrow> nat \<Rightarrow> batch_buf" where
  "note_sender le from buf i = buf\<lparr>bb_addrs := (bb_addrs buf)[i := sockaddr_storage_to_socket_addr le from]\<rparr>"

definition note_nothing :: "u8 list \<Rightarrow> batch_buf \<Rightarrow> nat \<Rightarrow> batch_buf" where
  "note_nothing from buf i = buf"

text \<open>One turn of the receive loop: waiting for the socket to be readable can fail; then the
  system call answers. A call that would block is tried again. The list holds the turns'
  outcomes; when it is exhausted the loop is still waiting (\<^const>\<open>None\<close>).\<close>

datatype recv_turn = NotReadable io_error | Called "io_error + datagrams"

fun recv_loop ::
    "(u8 list \<Rightarrow> batch_buf \<Rightarrow> nat \<Rightarrow> batch_buf) \<Rightarrow> recv_turn list \<Rightarrow> batch_buf \<Rightarrow>
     ((io_error + nat) \<times> batch_buf) option" where
  "recv_loop note [] buf = None"
| "recv_loop note (NotReadable e # turns) buf = Some (Inl e, buf)"
| "recv_loop note (Called (Inr ds) # turns) buf = Some (Inr (length ds), recv_fill note 0 ds buf)"
| "recv_loop note (Called (Inl e) # turns) buf =
     (if e = WouldBlock then recv_loop note turns buf else Some (Inl e, buf))"

definition recv_batch :: "bool \<Rightarrow> recv_turn list \<Rightarrow> batch_buf \<Rightarrow> ((io_error + nat) \<times> batch_buf) option" where
  "recv_batch le = recv_loop (note_sender le)"

definition recv_batch_connected :: "recv_turn list \<Rightarrow> batch_buf \<Rightarrow> ((io_error + nat) \<times> batch_buf) option" where
  "recv_batch_connected = recv_loop note_nothing"

section \<open>The code: sending\<close>

record reply_packet =
  rp_dst :: socket_addr
  rp_payload :: "u8 list"
  rp_bytes :: nat

text \<open>One \<open>sendmmsg\<close>: from the addresses and payloads it is given, an error or how many it took.\<close>

definition send_batch ::
    "(socket_addr \<Rightarrow> u8 list) \<Rightarrow> ((u8 list \<times> u8 list) list \<Rightarrow> io_error + nat) \<Rightarrow> reply_packet list \<Rightarrow> io_error + nat" where
  "send_batch sock_addr sendmmsg packets =
     (if packets = [] then Inr 0
      else
        let count = min (length packets) max_batch_size in
        sendmmsg (map (\<lambda>pkt.
            (case socket_addr_to_sockaddr_storage sock_addr (rp_dst pkt) (replicate 128 0) of
               (storage, len) \<Rightarrow> take len storage, rp_payload pkt))
          (take count packets)))"

section \<open>What a receive leaves in the buffer\<close>

definition batch_ok :: "batch_buf \<Rightarrow> bool" where
  "batch_ok buf \<longleftrightarrow>
     length (bb_lens buf) = bb_batch_size buf \<and> length (bb_addrs buf) = bb_batch_size buf \<and>
     length (bb_data buf) = bb_batch_size buf * bb_slot_size buf \<and>
     (\<forall>i < bb_batch_size buf. bb_lens buf ! i \<le> bb_slot_size buf)"

text \<open>The documented behaviour of \<open>recvmmsg\<close>: no more datagrams than vectors, none longer than
  its vector.\<close>

definition answer_ok :: "batch_buf \<Rightarrow> datagrams \<Rightarrow> bool" where
  "answer_ok buf ds \<longleftrightarrow> length ds \<le> bb_batch_size buf \<and> (\<forall>d \<in> set ds. length (fst d) \<le> bb_slot_size buf)"

lemma fill_length: "off + length bytes \<le> length data \<Longrightarrow> length (fill off bytes data) = length data"
  by (simp add: fill_def)

lemma fill_nth:
  "off + length bytes \<le> length data \<Longrightarrow> k < length data \<Longrightarrow>
   fill off bytes data ! k = (if off \<le> k \<and> k < off + length bytes then bytes ! (k - off) else data ! k)"
  by (auto simp: fill_def nth_append min_def)

lemma slots_disjoint:
  fixes i j s :: nat
  assumes "i \<noteq> j" and "k < s" and "n \<le> s"
  shows "\<not> (i * s \<le> j * s + k \<and> j * s + k < i * s + n)"
proof (cases "i < j")
  case True
  then have "Suc i * s \<le> j * s" by (intro mult_le_mono1) simp
  with assms show ?thesis by simp
next
  case False
  with assms(1) have "Suc j * s \<le> i * s" by (intro mult_le_mono1) simp
  with assms show ?thesis by simp
qed

lemma slot_fits: "i < b \<Longrightarrow> n \<le> s \<Longrightarrow> i * s + n \<le> b * s" for i b n s :: nat
  using mult_le_mono1 [of "Suc i" b s] by simp

lemma batch_slot_ok:
  assumes "batch_ok buf" and "i < bb_batch_size buf"
  shows "batch_slot buf i = Some (take (bb_lens buf ! i) (drop (i * bb_slot_size buf) (bb_data buf)))"
  using assms slot_fits [of i "bb_batch_size buf" "bb_lens buf ! i" "bb_slot_size buf"]
  by (simp add: batch_ok_def batch_slot_def slice_def Let_def)

text \<open>Recording the sender of a datagram touches nothing but the addresses.\<close>

locale sender_note =
  fixes on_recv :: "u8 list \<Rightarrow> batch_buf \<Rightarrow> nat \<Rightarrow> batch_buf"
    and sender :: "u8 list \<Rightarrow> socket_addr option \<Rightarrow> socket_addr option"
  assumes note_eq: "on_recv from buf i = buf\<lparr>bb_addrs := (bb_addrs buf)[i := sender from (bb_addrs buf ! i)]\<rparr>"
begin

abbreviation put :: "nat \<Rightarrow> u8 list \<Rightarrow> u8 list \<Rightarrow> batch_buf \<Rightarrow> batch_buf" where
  "put i bytes from buf \<equiv> on_recv from (buf\<lparr>bb_data := fill (i * bb_slot_size buf) bytes (bb_data buf),
     bb_lens := (bb_lens buf)[i := length bytes]\<rparr>) i"

lemma put_ok:
  assumes "batch_ok buf" and "i < bb_batch_size buf" and "length bytes \<le> bb_slot_size buf"
  shows "batch_ok (put i bytes from buf)"
  using assms slot_fits [OF assms(2,3)]
  by (auto simp: batch_ok_def note_eq fill_length nth_list_update)

lemma put_slot:
  assumes "batch_ok buf" and "i < bb_batch_size buf" and "length bytes \<le> bb_slot_size buf"
    and "j < bb_batch_size buf"
  shows "batch_slot (put i bytes from buf) j = (if j = i then Some bytes else batch_slot buf j)"
proof -
  let ?s = "bb_slot_size buf"
  have fits: "i * ?s + length bytes \<le> length (bb_data buf)"
    using slot_fits [OF assms(2,3)] assms(1) by (simp add: batch_ok_def)
  have slot: "batch_slot (put i bytes from buf) j =
      Some (take ((bb_lens buf)[i := length bytes] ! j) (drop (j * ?s) (fill (i * ?s) bytes (bb_data buf))))"
    using batch_slot_ok [OF put_ok [OF assms(1-3)], of j] assms(4) by (simp add: note_eq)
  show ?thesis
  proof (cases "j = i")
    case True
    have "i < length (bb_lens buf)" using assms(1,2) by (simp add: batch_ok_def)
    moreover have "drop (i * ?s) (fill (i * ?s) bytes (bb_data buf)) = bytes @ drop (i * ?s + length bytes) (bb_data buf)"
      using fits by (simp add: fill_def)
    ultimately show ?thesis unfolding slot using True by simp
  next
    case False
    let ?n = "bb_lens buf ! j"
    have n: "?n \<le> ?s" "j * ?s + ?n \<le> length (bb_data buf)"
      using assms(1,4) slot_fits [of j "bb_batch_size buf" ?n ?s] by (auto simp: batch_ok_def)
    have "take ?n (drop (j * ?s) (fill (i * ?s) bytes (bb_data buf))) = take ?n (drop (j * ?s) (bb_data buf))"
    proof (rule nth_equalityI)
      show "length (take ?n (drop (j * ?s) (fill (i * ?s) bytes (bb_data buf)))) =
          length (take ?n (drop (j * ?s) (bb_data buf)))"
        using fits by (simp add: fill_length)
    next
      fix k assume "k < length (take ?n (drop (j * ?s) (fill (i * ?s) bytes (bb_data buf))))"
      then have k: "k < ?n" by simp
      have "\<not> (i * ?s \<le> j * ?s + k \<and> j * ?s + k < i * ?s + length bytes)"
        using False k n(1) assms(3) by (intro slots_disjoint) simp_all
      moreover have "j * ?s + k < length (bb_data buf)" using k n(2) by simp
      note fill_nth [OF fits this]
      ultimately have "fill (i * ?s) bytes (bb_data buf) ! (j * ?s + k) = bb_data buf ! (j * ?s + k)"
        by presburger
      then show "take ?n (drop (j * ?s) (fill (i * ?s) bytes (bb_data buf))) ! k =
          take ?n (drop (j * ?s) (bb_data buf)) ! k"
        using k n fits by (simp add: fill_length)
    qed
    with False batch_slot_ok [OF assms(1,4)] show ?thesis unfolding slot by simp
  qed
qed

lemma put_addr:
  assumes "batch_ok buf" and "i < bb_batch_size buf"
  shows "bb_addrs (put i bytes from buf) = (bb_addrs buf)[i := sender from (bb_addrs buf ! i)]"
  by (simp add: note_eq)

lemma put_sizes [simp]:
  "bb_batch_size (put i bytes from buf) = bb_batch_size buf" "bb_slot_size (put i bytes from buf) = bb_slot_size buf"
  by (simp_all add: note_eq)

lemma recv_fill_spec:
  assumes "batch_ok buf" and "i + length ds \<le> bb_batch_size buf"
    and "\<forall>d \<in> set ds. length (fst d) \<le> bb_slot_size buf"
  shows "batch_ok (recv_fill on_recv i ds buf) \<and>
    (\<forall>j < bb_batch_size buf.
       batch_slot (recv_fill on_recv i ds buf) j =
         (if i \<le> j \<and> j < i + length ds then Some (fst (ds ! (j - i))) else batch_slot buf j) \<and>
       bb_addrs (recv_fill on_recv i ds buf) ! j =
         (if i \<le> j \<and> j < i + length ds then sender (snd (ds ! (j - i))) (bb_addrs buf ! j) else bb_addrs buf ! j))"
  using assms
proof (induction ds arbitrary: i buf)
  case Nil
  then show ?case by auto
next
  case (Cons d ds)
  obtain bytes from' where d: "d = (bytes, from')" by (cases d)
  let ?b = "put i bytes from' buf"
  have i: "i < bb_batch_size buf" "length bytes \<le> bb_slot_size buf" using Cons.prems d by auto
  have len: "length (bb_addrs buf) = bb_batch_size buf" using Cons.prems(1) by (simp add: batch_ok_def)
  have step: "recv_fill on_recv i (d # ds) buf = recv_fill on_recv (Suc i) ds ?b" by (simp add: d)
  note IH = Cons.IH [of ?b "Suc i"]
  have "batch_ok (recv_fill on_recv (Suc i) ds ?b) \<and>
    (\<forall>j < bb_batch_size buf.
       batch_slot (recv_fill on_recv (Suc i) ds ?b) j =
         (if Suc i \<le> j \<and> j < Suc i + length ds then Some (fst (ds ! (j - Suc i))) else batch_slot ?b j) \<and>
       bb_addrs (recv_fill on_recv (Suc i) ds ?b) ! j =
         (if Suc i \<le> j \<and> j < Suc i + length ds then sender (snd (ds ! (j - Suc i))) (bb_addrs ?b ! j) else bb_addrs ?b ! j))"
    using Cons.prems put_ok [OF Cons.prems(1) i] IH by simp
  then show ?case unfolding step
    using i len put_slot [OF Cons.prems(1) i] put_addr [OF Cons.prems(1) i(1)] d
    by (auto simp: nth_Cons' nth_list_update Suc_diff_Suc not_le le_less_Suc_eq)
qed

end

interpretation listener_note: sender_note "note_sender le" "\<lambda>from _. sockaddr_storage_to_socket_addr le from" for le
  by unfold_locales (simp add: note_sender_def)

interpretation session_note: sender_note note_nothing "\<lambda>_ a. a"
  by unfold_locales (simp add: note_nothing_def)

lemma recv_loop_Inr:
  assumes "recv_loop on_recv turns buf = Some (Inr n, buf')"
  shows "\<exists>pre ds post. turns = pre @ Called (Inr ds) # post \<and> (\<forall>t \<in> set pre. t = Called (Inl WouldBlock)) \<and>
    n = length ds \<and> buf' = recv_fill on_recv 0 ds buf"
  using assms
proof (induction turns)
  case (Cons t turns)
  show ?case
  proof (cases "\<exists>ds. t = Called (Inr ds)")
    case True
    then obtain ds where "t = Called (Inr ds)" ..
    with Cons.prems show ?thesis by (intro exI [of _ "[]"] exI [of _ ds] exI [of _ turns]) simp
  next
    case False
    with Cons.prems have t: "t = Called (Inl WouldBlock)" "recv_loop on_recv turns buf = Some (Inr n, buf')"
      by (cases t; auto split: sum.splits if_splits elim: recv_loop.elims)+
    from Cons.IH [OF t(2)] obtain pre ds post where "turns = pre @ Called (Inr ds) # post"
      "\<forall>t \<in> set pre. t = Called (Inl WouldBlock)" "n = length ds" "buf' = recv_fill on_recv 0 ds buf" by blast
    with t(1) show ?thesis by (intro exI [of _ "t # pre"] exI [of _ ds] exI [of _ post]) auto
  qed
qed simp

lemma batch_new_ok:
  assumes "batch_new b s = Some buf"
  shows "batch_ok buf \<and> bb_batch_size buf = b \<and> bb_slot_size buf = s"
  using assms by (auto simp: batch_new_def batch_ok_def split: if_splits)

lemma recv_batch_filled:
  assumes "batch_ok buf" and "recv_batch le turns buf = Some (Inr n, buf')"
    and "\<forall>ds. Called (Inr ds) \<in> set turns \<longrightarrow> answer_ok buf ds"
  shows "batch_ok buf' \<and> bb_batch_size buf' = bb_batch_size buf \<and>
    (\<exists>pre ds post. turns = pre @ Called (Inr ds) # post \<and> (\<forall>t \<in> set pre. t = Called (Inl WouldBlock)) \<and>
       n = length ds \<and>
       (\<forall>i < n. batch_slot buf' i = Some (fst (ds ! i)) \<and>
          batch_addr buf' i = Some (sockaddr_storage_to_socket_addr le (snd (ds ! i)))))"
proof -
  from assms(2) obtain pre ds post where turns: "turns = pre @ Called (Inr ds) # post"
    "\<forall>t \<in> set pre. t = Called (Inl WouldBlock)" and n: "n = length ds"
    and buf': "buf' = recv_fill (note_sender le) 0 ds buf"
    unfolding recv_batch_def using recv_loop_Inr by blast
  have ok: "answer_ok buf ds" using assms(3) turns(1) by simp
  then have fits: "length ds \<le> bb_batch_size buf" by (simp add: answer_ok_def)
  have spec: "batch_ok buf' \<and>
    (\<forall>j < bb_batch_size buf.
       batch_slot buf' j = (if 0 \<le> j \<and> j < 0 + length ds then Some (fst (ds ! (j - 0))) else batch_slot buf j) \<and>
       bb_addrs buf' ! j = (if 0 \<le> j \<and> j < 0 + length ds
          then sockaddr_storage_to_socket_addr le (snd (ds ! (j - 0))) else bb_addrs buf ! j))"
    unfolding buf' by (rule listener_note.recv_fill_spec) (use assms(1) ok in \<open>simp_all add: answer_ok_def\<close>)
  have sizes: "bb_batch_size (recv_fill (note_sender le) i ds' b) = bb_batch_size b" for i ds' b
    by (induction "note_sender le" i ds' b rule: recv_fill.induct) (simp_all add: note_sender_def)
  then have size: "bb_batch_size buf' = bb_batch_size buf" by (simp add: buf')
  have len: "length (bb_addrs buf') = bb_batch_size buf'" using spec by (simp add: batch_ok_def)
  have "\<forall>i < n. batch_slot buf' i = Some (fst (ds ! i)) \<and>
      batch_addr buf' i = Some (sockaddr_storage_to_socket_addr le (snd (ds ! i)))"
    using spec fits n len size by (simp add: batch_addr_def)
  then show ?thesis using turns n spec size by blast
qed

text \<open>C30: A batched receive of the listener returns only after a call that succeeded, all calls
  before it having answered that they would block; it reports as many datagrams as that call
  took; and the slots and addresses up to that count are exactly the bytes of those datagrams
  and their senders, whatever earlier receives left in the buffer. The buffer stays well formed
  for the next one.\<close>

theorem recv_batch_spec:
  assumes "batch_ok buf" and "recv_batch le turns buf = Some (Inr n, buf')"
    and "\<forall>ds. Called (Inr ds) \<in> set turns \<longrightarrow> answer_ok buf ds"
  shows "batch_ok buf' \<and> bb_batch_size buf' = bb_batch_size buf \<and>
    (\<exists>pre ds post. turns = pre @ Called (Inr ds) # post \<and> (\<forall>t \<in> set pre. t = Called (Inl WouldBlock)) \<and>
       n = length ds \<and>
       (\<forall>i < n. batch_slot buf' i = Some (fst (ds ! i)) \<and>
          batch_addr buf' i = Some (sockaddr_storage_to_socket_addr le (snd (ds ! i)))))"
  using assms by (rule recv_batch_filled)

theorem recv_batch_spec_witness:
  "\<exists>buf buf'. batch_new 2 4 = Some buf \<and>
     recv_batch True [Called (Inl WouldBlock), Called (Inr [([1, 2], sockaddr_layout True (SockV4 5 1000))])] buf =
       Some (Inr 1, buf') \<and>
     batch_slot buf' 0 = Some [1, 2] \<and> batch_addr buf' 0 = Some (Some (SockV4 5 1000))"
proof -
  obtain buf where buf: "batch_new 2 4 = Some buf" by (simp add: batch_new_def max_batch_size_def)
  note ok = batch_new_ok [OF buf]
  let ?turns = "[Called (Inl WouldBlock), Called (Inr [([1, 2], sockaddr_layout True (SockV4 5 1000))])]"
  obtain buf' where run: "recv_batch True ?turns buf = Some (Inr 1, buf')"
    by (simp add: recv_batch_def)
  have "\<forall>ds. Called (Inr ds) \<in> set ?turns \<longrightarrow> answer_ok buf ds" using ok by (simp add: answer_ok_def)
  from recv_batch_spec [OF _ run this] ok
  have "batch_slot buf' 0 = Some [1, 2] \<and>
      batch_addr buf' 0 = Some (sockaddr_storage_to_socket_addr True (sockaddr_layout True (SockV4 5 1000)))"
    by (auto simp: Cons_eq_append_conv append_eq_Cons_conv)
  then show ?thesis using buf run decode_layout [of True "SockV4 5 1000" "[]"] by auto
qed

end
