(* ===== verification/Reply_Channel.thy ===== *)
theory Reply_Channel
  imports Base
begin

text \<open>
  The bounded channel of \<open>tokio::sync::mpsc\<close>, a parameter of the model: its operations as a
  record, the laws its documentation promises as a locale, and a ring buffer that satisfies
  them. \<open>chan_items\<close> is what the channel holds, oldest first; it is part of the laws only.
\<close>

datatype try_send = Sent | Full | Closed

record ('p, 'c) chan_ops =
  ch_new :: "nat \<Rightarrow> 'c"
  ch_try_send :: "'c \<Rightarrow> 'p \<Rightarrow> 'c \<times> try_send"
  ch_recv_many :: "'c \<Rightarrow> nat \<Rightarrow> 'c \<times> 'p list"
  ch_close :: "'c \<Rightarrow> 'c"
  ch_items :: "'c \<Rightarrow> 'p list"
  ch_capacity :: "'c \<Rightarrow> nat"
  ch_open :: "'c \<Rightarrow> bool"

locale bounded_channel =
  fixes C :: "('p, 'c) chan_ops"
  assumes new_chan: "ch_items C (ch_new C n) = []" "ch_capacity C (ch_new C n) = n" "ch_open C (ch_new C n)"
    and send_closed: "\<not> ch_open C c \<Longrightarrow> ch_try_send C c p = (c, Closed)"
    and send_full: "ch_open C c \<Longrightarrow> ch_capacity C c \<le> length (ch_items C c) \<Longrightarrow> ch_try_send C c p = (c, Full)"
    and send_ok: "ch_open C c \<Longrightarrow> length (ch_items C c) < ch_capacity C c \<Longrightarrow>
      snd (ch_try_send C c p) = Sent \<and> ch_items C (fst (ch_try_send C c p)) = ch_items C c @ [p] \<and>
      ch_capacity C (fst (ch_try_send C c p)) = ch_capacity C c \<and> ch_open C (fst (ch_try_send C c p))"
    and recv_many: "snd (ch_recv_many C c n) = take n (ch_items C c)"
      "ch_items C (fst (ch_recv_many C c n)) = drop n (ch_items C c)"
      "ch_capacity C (fst (ch_recv_many C c n)) = ch_capacity C c"
      "ch_open C (fst (ch_recv_many C c n)) = ch_open C c"
    and close_chan: "\<not> ch_open C (ch_close C c)" "ch_items C (ch_close C c) = ch_items C c"
begin

lemma try_send_cases:
  obtains "\<not> ch_open C c" and "ch_try_send C c p = (c, Closed)"
  | "ch_open C c" and "ch_capacity C c \<le> length (ch_items C c)" and "ch_try_send C c p = (c, Full)"
  | c' where "ch_open C c" and "length (ch_items C c) < ch_capacity C c" and "ch_try_send C c p = (c', Sent)"
      and "ch_items C c' = ch_items C c @ [p]" and "ch_capacity C c' = ch_capacity C c" and "ch_open C c'"
proof (cases "ch_open C c")
  case False
  then show ?thesis using that(1) send_closed by blast
next
  case open': True
  show ?thesis
  proof (cases "length (ch_items C c) < ch_capacity C c")
    case True
    with open' send_ok [of c p] show ?thesis using that(3) [of "fst (ch_try_send C c p)"] by (metis prod.collapse)
  next
    case False
    with open' send_full [of c p] show ?thesis using that(2) by simp
  qed
qed

text \<open>Offering a list of packets one after the other to an open channel that nobody empties: the
  first ones that fit are queued in order, the others are refused.\<close>

fun offer :: "'c \<Rightarrow> 'p list \<Rightarrow> 'c \<times> nat" where
  "offer c [] = (c, 0)"
| "offer c (p # ps) =
     (case ch_try_send C c p of
        (c', Sent) \<Rightarrow> offer c' ps
      | (c', Full) \<Rightarrow> (case offer c' ps of (c'', n) \<Rightarrow> (c'', Suc n))
      | (c', Closed) \<Rightarrow> (c', 0))"

lemma offer_spec:
  assumes "ch_open C c"
  shows "ch_items C (fst (offer c ps)) = ch_items C c @ take (ch_capacity C c - length (ch_items C c)) ps \<and>
    snd (offer c ps) = length ps - (ch_capacity C c - length (ch_items C c)) \<and>
    ch_capacity C (fst (offer c ps)) = ch_capacity C c \<and> ch_open C (fst (offer c ps))"
  using assms
proof (induction ps arbitrary: c)
  case (Cons p ps)
  show ?case
  proof (cases rule: try_send_cases [of c p])
    case 1
    with Cons.prems show ?thesis by simp
  next
    case 2
    with Cons.IH [of c] show ?thesis by (simp add: case_prod_unfold)
  next
    case (3 c')
    then obtain k where "ch_capacity C c - length (ch_items C c) = Suc k"
      "ch_capacity C c' - length (ch_items C c') = k"
      by (metis Suc_diff_Suc length_append_singleton)
    with Cons.IH [OF 3(6)] 3 show ?thesis by simp
  qed
qed simp

end

section \<open>A queue with a capacity and a flag\<close>

record 'p queue_chan =
  qc_items :: "'p list"
  qc_capacity :: nat
  qc_open :: bool

definition queue_ops :: "('p, 'p queue_chan) chan_ops" where
  "queue_ops =
     \<lparr>ch_new = (\<lambda>n. \<lparr>qc_items = [], qc_capacity = n, qc_open = True\<rparr>),
      ch_try_send = (\<lambda>c p.
        if \<not> qc_open c then (c, Closed)
        else if qc_capacity c \<le> length (qc_items c) then (c, Full)
        else (c\<lparr>qc_items := qc_items c @ [p]\<rparr>, Sent)),
      ch_recv_many = (\<lambda>c n. (c\<lparr>qc_items := drop n (qc_items c)\<rparr>, take n (qc_items c))),
      ch_close = (\<lambda>c. c\<lparr>qc_open := False\<rparr>),
      ch_items = qc_items, ch_capacity = qc_capacity, ch_open = qc_open\<rparr>"

interpretation queue: bounded_channel queue_ops
  by unfold_locales (simp_all add: queue_ops_def)

end
