(* ===== verification/Udp_Reply.thy ===== *)
theory Udp_Reply
  imports Udp_Session_Spec Udp_Batch Reply_Channel
begin

text \<open>
  The way of a reply from the target back to the client: the reply loop of a session
  (\<open>reply_loop\<close> in \<open>src/src/udp_session.rs\<close>) takes datagrams from the session's socket and
  offers them to the bounded channel of the port, and one sender task per port
  (\<open>src/src/listener/udp_send.rs\<close>) takes them from the channel and sends them from the
  listen socket. Also the way of a datagram to the target (\<open>forward_client_packet\<close>).
\<close>

section \<open>The code: to the target\<close>

text \<open>What the send on the upstream socket answers is an argument.\<close>

definition forward_to_target :: "(u8 list \<Rightarrow> io_error + nat) \<Rightarrow> u8 list \<Rightarrow> io_error + nat" where
  "forward_to_target upstream_send payload = upstream_send payload"

definition forward_client_packet ::
    "(u8 list \<Rightarrow> io_error + nat) \<Rightarrow> u64 \<Rightarrow> nat \<Rightarrow> u8 list \<Rightarrow> 'm session_table \<Rightarrow> (io_error + unit) \<times> 'm session_table" where
  "forward_client_packet upstream_send now session payload tb =
     (case forward_to_target upstream_send payload of
        Inl e \<Rightarrow> (Inl e, tb)
      | Inr _ \<Rightarrow>
          let tb = on_session session (session_touch now) tb;
              tb = tb\<lparr>tb_stats := add_udp_in (of_nat (length payload)) (tb_stats tb)\<rparr>
          in (Inr (), tb))"

section \<open>The code: the reply loop of a session\<close>

type_synonym 'c reply_chan = "(reply_packet, 'c) chan_ops"

text \<open>The loop over the received slots. The flag of the result tells that the loop was left
  because the channel is closed; \<^const>\<open>None\<close> is a panic of \<open>slot\<close>.\<close>

fun queue_replies ::
    "'c reply_chan \<Rightarrow> (nat \<Rightarrow> u64) \<Rightarrow> nat \<Rightarrow> batch_buf \<Rightarrow> nat list \<Rightarrow> 'm session_table \<Rightarrow> 'c \<Rightarrow>
     ('m session_table \<times> 'c \<times> bool) option" where
  "queue_replies C clock session batch [] tb c = Some (tb, c, False)"
| "queue_replies C clock session batch (i # is) tb c =
     (case batch_slot batch i of
        None \<Rightarrow> None
      | Some payload \<Rightarrow>
          if payload = [] then queue_replies C clock session batch is tb c
          else
            let packet = \<lparr>rp_dst = us_source (tb_arena tb ! session), rp_payload = payload,
                          rp_bytes = length payload\<rparr>
            in (case ch_try_send C c packet of
                  (c', Sent) \<Rightarrow>
                    queue_replies C clock session batch is (on_session session (session_touch (clock i)) tb) c'
                | (c', Full) \<Rightarrow>
                    queue_replies C clock session batch is
                      (tb\<lparr>tb_stats := record_udp_drop (tb_stats tb)\<rparr>) c'
                | (c', Closed) \<Rightarrow> Some (tb, c', True)))"

text \<open>What wakes the loop: a shutdown of the table or of the session, or a finished receive.\<close>

datatype reply_event = Cancelled | Receive "nat \<Rightarrow> u64" "recv_turn list"

definition transient :: "io_error \<Rightarrow> bool" where
  "transient e \<longleftrightarrow> e = ConnectionRefused \<or> e = HostUnreachable \<or> e = NetworkUnreachable"

definition end_session :: "'m session_map \<Rightarrow> nat \<Rightarrow> 'm session_table \<Rightarrow> 'm session_table" where
  "end_session D session tb =
     remove_session D (us_source (tb_arena tb ! session)) (us_id (tb_arena tb ! session)) tb"

fun session_reply_loop ::
    "'m session_map \<Rightarrow> 'c reply_chan \<Rightarrow> nat \<Rightarrow> reply_event list \<Rightarrow> batch_buf \<Rightarrow> 'm session_table \<Rightarrow> 'c \<Rightarrow>
     ('m session_table \<times> 'c \<times> bool) option" where
  "session_reply_loop D C session [] batch tb c = Some (tb, c, False)"
| "session_reply_loop D C session (Cancelled # evs) batch tb c = Some (end_session D session tb, c, True)"
| "session_reply_loop D C session (Receive clock turns # evs) batch tb c =
     (case recv_batch_connected turns batch of
        None \<Rightarrow> Some (tb, c, False)
      | Some (Inl e, batch') \<Rightarrow>
          if transient e then session_reply_loop D C session evs batch' tb c
          else Some (end_session D session tb, c, True)
      | Some (Inr received, batch') \<Rightarrow>
          (case queue_replies C clock session batch' [0..<received] tb c of
             None \<Rightarrow> None
           | Some (tb', c', True) \<Rightarrow> Some (end_session D session tb', c', True)
           | Some (tb', c', False) \<Rightarrow> session_reply_loop D C session evs batch' tb' c'))"

section \<open>The code: the sender of a port\<close>

definition reply_queue_capacity :: nat where "reply_queue_capacity = 512"

definition send_batch_size :: nat where "send_batch_size = 32"

definition spawn_reply_sender :: "'c reply_chan \<Rightarrow> 'c" where
  "spawn_reply_sender C = ch_new C reply_queue_capacity"

definition count_sent :: "reply_packet list \<Rightarrow> port_stats \<Rightarrow> port_stats" where
  "count_sent pkts stats = fold (\<lambda>pkt. add_udp_out (of_nat (rp_bytes pkt))) pkts stats"

definition message_of :: "(socket_addr \<Rightarrow> u8 list) \<Rightarrow> reply_packet \<Rightarrow> u8 list \<times> u8 list" where
  "message_of sock_addr pkt =
     (case socket_addr_to_sockaddr_storage sock_addr (rp_dst pkt) (replicate 128 0) of
        (storage, len) \<Rightarrow> take len storage, rp_payload pkt)"

type_synonym sendmmsg = "(u8 list \<times> u8 list) list \<Rightarrow> io_error + nat"

text \<open>\<open>flush\<close> from position \<open>start\<close>, with the kernel's answers to the coming calls. A call that
  would block is repeated by \<open>async_io\<close> once the socket is writable; an interrupted one is
  repeated by the loop. The result: whether the loop has ended (it has not when the answers ran
  out), the position, the counters, the messages the kernel took; \<^const>\<open>None\<close> is a slice out of
  range.\<close>

fun flush ::
    "(socket_addr \<Rightarrow> u8 list) \<Rightarrow> sendmmsg list \<Rightarrow> reply_packet list \<Rightarrow> nat \<Rightarrow> port_stats \<Rightarrow>
     (u8 list \<times> u8 list) list \<Rightarrow> (bool \<times> nat \<times> port_stats \<times> (u8 list \<times> u8 list) list) option" where
  "flush sock_addr [] batch start stats out = Some (\<not> start < length batch, start, stats, out)"
| "flush sock_addr (k # ks) batch start stats out =
     (if start < length batch then
        (case send_batch sock_addr k (drop start batch) of
           Inr sent \<Rightarrow>
             if sent = 0 then Some (True, start, stats, out)
             else
               (case slice start (start + sent) batch of
                  None \<Rightarrow> None
                | Some pkts \<Rightarrow>
                    flush sock_addr ks batch (start + sent) (count_sent pkts stats)
                      (out @ map (message_of sock_addr) pkts))
         | Inl e \<Rightarrow>
             if e = WouldBlock \<or> e = Interrupted then flush sock_addr ks batch start stats out
             else Some (True, start, stats, out))
      else Some (True, start, stats, out))"

text \<open>The sender's loop: the shutdown, or a batch from the channel (none when all producers are
  gone) with the kernel's answers while it is flushed.\<close>

datatype sender_event = SenderShutdown | RecvMany "sendmmsg list"

fun sender_loop ::
    "'c reply_chan \<Rightarrow> (socket_addr \<Rightarrow> u8 list) \<Rightarrow> sender_event list \<Rightarrow> 'c \<Rightarrow> port_stats \<Rightarrow>
     (u8 list \<times> u8 list) list \<Rightarrow> (bool \<times> 'c \<times> port_stats \<times> (u8 list \<times> u8 list) list) option" where
  "sender_loop C sock_addr [] c stats out = Some (False, c, stats, out)"
| "sender_loop C sock_addr (SenderShutdown # evs) c stats out = Some (True, c, stats, out)"
| "sender_loop C sock_addr (RecvMany ks # evs) c stats out =
     (case ch_recv_many C c send_batch_size of
        (c', batch) \<Rightarrow>
          if batch = [] then Some (True, c', stats, out)
          else
            (case flush sock_addr ks batch 0 stats out of
               None \<Rightarrow> None
             | Some (ended, start, stats', out') \<Rightarrow>
                 if ended then sender_loop C sock_addr evs c' stats' out'
                 else Some (False, c', stats', out')))"

section \<open>Replies reach the channel or are counted as dropped\<close>

definition replies_to :: "socket_addr \<Rightarrow> u8 list list \<Rightarrow> reply_packet list" where
  "replies_to source payloads =
     map (\<lambda>p. \<lparr>rp_dst = source, rp_payload = p, rp_bytes = length p\<rparr>) (filter (\<lambda>p. p \<noteq> []) payloads)"

lemma replies_to_simps [simp]:
  "replies_to source [] = []"
  "replies_to source (p # ps) =
     (if p = [] then replies_to source ps
      else \<lparr>rp_dst = source, rp_payload = p, rp_bytes = length p\<rparr> # replies_to source ps)"
  by (simp_all add: replies_to_def)

text \<open>What the reply loop never touches.\<close>

definition same_table :: "'m session_table \<Rightarrow> 'm session_table \<Rightarrow> bool" where
  "same_table tb tb' \<longleftrightarrow>
     tb_sessions tb' = tb_sessions tb \<and> length (tb_arena tb') = length (tb_arena tb) \<and>
     ps_udp_active_flows (tb_stats tb') = ps_udp_active_flows (tb_stats tb) \<and>
     (\<forall>i < length (tb_arena tb).
        us_id (tb_arena tb' ! i) = us_id (tb_arena tb ! i) \<and>
        us_source (tb_arena tb' ! i) = us_source (tb_arena tb ! i) \<and>
        us_closed (tb_arena tb' ! i) = us_closed (tb_arena tb ! i) \<and>
        us_shutdown (tb_arena tb' ! i) = us_shutdown (tb_arena tb ! i))"

lemma same_table_refl [simp]: "same_table tb tb"
  by (simp add: same_table_def)

lemma same_table_trans: "same_table tb tb1 \<Longrightarrow> same_table tb1 tb2 \<Longrightarrow> same_table tb tb2"
  by (simp add: same_table_def)

lemma same_table_steps [simp]:
  "same_table tb (on_session r (session_touch now) tb)"
  "same_table tb (tb\<lparr>tb_stats := record_udp_drop (tb_stats tb)\<rparr>)"
  by (simp_all add: same_table_def record_udp_drop_def)

lemma same_table_ok: "same_table tb tb' \<Longrightarrow> sessions_ok D tb \<Longrightarrow> sessions_ok D tb'"
  by (simp add: same_table_def sessions_ok_def)

lemma queue_replies_same:
  "queue_replies C clock r batch is tb c = Some (tb', c', closed) \<Longrightarrow> same_table tb tb'"
proof (induction "is" arbitrary: tb c)
  case (Cons i is')
  then obtain payload where slot: "batch_slot batch i = Some payload" by (auto split: option.splits)
  let ?p = "\<lparr>rp_dst = us_source (tb_arena tb ! r), rp_payload = payload, rp_bytes = length payload\<rparr>"
  obtain c1 res where try_send: "ch_try_send C c ?p = (c1, res)" by (cases "ch_try_send C c ?p")
  show ?case
  proof (cases "payload = []")
    case True
    with Cons.IH [of tb c] Cons.prems slot show ?thesis by simp
  next
    case False
    show ?thesis
    proof (cases res)
      case Sent
      with Cons.prems slot try_send False
      have "same_table (on_session r (session_touch (clock i)) tb) tb'" by (intro Cons.IH) simp
      then show ?thesis by (rule same_table_trans [OF same_table_steps(1)])
    next
      case Full
      with Cons.prems slot try_send False
      have "same_table (tb\<lparr>tb_stats := record_udp_drop (tb_stats tb)\<rparr>) tb'" by (intro Cons.IH) simp
      then show ?thesis by (rule same_table_trans [OF same_table_steps(2)])
    next
      case Closed
      with Cons.prems slot try_send False show ?thesis by simp
    qed
  qed
qed simp

lemma queue_replies_spec:
  assumes "bounded_channel C" and "ch_open C c" and "r < length (tb_arena tb)"
    and "\<forall>i \<in> set is. batch_slot batch i = Some (pay i)"
  shows "\<exists>tb' c'. queue_replies C clock r batch is tb c = Some (tb', c', False) \<and>
    ch_open C c' \<and> ch_capacity C c' = ch_capacity C c \<and>
    ch_items C c' = ch_items C c @
      take (ch_capacity C c - length (ch_items C c)) (replies_to (us_source (tb_arena tb ! r)) (map pay is)) \<and>
    ps_udp_dropped (tb_stats tb') = ps_udp_dropped (tb_stats tb) +
      of_nat (length (replies_to (us_source (tb_arena tb ! r)) (map pay is)) -
        (ch_capacity C c - length (ch_items C c)))"
  using assms(2-4)
proof (induction "is" arbitrary: tb c)
  case (Cons i is')
  note C = assms(1)
  let ?src = "us_source (tb_arena tb ! r)"
  let ?p = "\<lparr>rp_dst = ?src, rp_payload = pay i, rp_bytes = length (pay i)\<rparr>"
  have slot: "batch_slot batch i = Some (pay i)" "\<forall>j \<in> set is'. batch_slot batch j = Some (pay j)"
    using Cons.prems(3) by simp_all
  show ?case
  proof (cases "pay i = []")
    case True
    with Cons.IH [OF Cons.prems(1,2) slot(2)] slot(1) show ?thesis by simp
  next
    case False
    show ?thesis
    proof (cases rule: bounded_channel.try_send_cases [OF C, of c ?p])
      case 1
      with Cons.prems(1) show ?thesis by simp
    next
      case 2
      let ?tb = "tb\<lparr>tb_stats := record_udp_drop (tb_stats tb)\<rparr>"
      have step: "queue_replies C clock r batch (i # is') tb c = queue_replies C clock r batch is' ?tb c"
        using 2(3) slot(1) False by simp
      have zero: "ch_capacity C c - length (ch_items C c) = 0" using 2(2) by simp
      show ?thesis unfolding step
        using Cons.IH [of c ?tb] Cons.prems(1,2) slot(2) False
        by (auto simp: zero record_udp_drop_def)
    next
      case (3 c')
      let ?tb = "on_session r (session_touch (clock i)) tb"
      have step: "queue_replies C clock r batch (i # is') tb c = queue_replies C clock r batch is' ?tb c'"
        using 3(3) slot(1) False by simp
      obtain k where k: "ch_capacity C c - length (ch_items C c) = Suc k"
        "ch_capacity C c' - length (ch_items C c') = k"
        using 3 by (metis Suc_diff_Suc length_append_singleton)
      have k': "ch_capacity C c - Suc (length (ch_items C c)) = k" using k(1) by simp
      have src: "us_source (tb_arena ?tb ! r) = ?src" using Cons.prems(2) by simp
      show ?thesis unfolding step
        using Cons.IH [of c' ?tb] Cons.prems(2) slot(2) False 3(4-6) unfolding src
        by (auto simp: k k')
    qed
  qed
qed simp



section \<open>When a session ends\<close>

lemma end_session_gone:
  assumes "dashmap D" and "sessions_ok D tb" and "r < length (tb_arena tb)"
  shows "\<not> listed D (end_session D r tb) r \<and>
    (\<forall>k. k \<noteq> us_source (tb_arena tb ! r) \<longrightarrow>
       dm_get D (tb_sessions (end_session D r tb)) k = dm_get D (tb_sessions tb) k)"
  using assms(2)
  by (auto simp: end_session_def listed_def sessions_ok_def
      session_dashmap.remove_session_get [OF session_laws [OF assms(1)]] split: option.splits)

lemma loop_same:
  assumes "session_reply_loop D C r evs batch tb c = Some (tb', c', ended)"
  shows "\<exists>tb1. same_table tb tb1 \<and> tb' = (if ended then end_session D r tb1 else tb1)"
  using assms
proof (induction evs arbitrary: batch tb c)
  case Nil
  then show ?case by (intro exI [of _ tb]) simp
next
  case (Cons ev evs)
  show ?case
  proof (cases ev)
    case Cancelled
    with Cons.prems show ?thesis by (intro exI [of _ tb]) simp
  next
    case (Receive clock turns)
    show ?thesis
    proof (cases "recv_batch_connected turns batch")
      case None
      with Cons.prems Receive show ?thesis by (intro exI [of _ tb]) auto
    next
      case (Some res)
      obtain out batch' where res: "res = (out, batch')" by (cases res)
      show ?thesis
      proof (cases out)
        case (Inl e)
        show ?thesis
        proof (cases "transient e")
          case True
          with Cons.prems Receive Some res Inl show ?thesis by (intro Cons.IH) simp
        next
          case False
          with Cons.prems Receive Some res Inl show ?thesis by (intro exI [of _ tb]) auto
        qed
      next
        case (Inr n)
        with Cons.prems Receive Some res obtain tb1 c1 closed where
          q: "queue_replies C clock r batch' [0..<n] tb c = Some (tb1, c1, closed)"
          by (auto split: option.splits)
        note same = queue_replies_same [OF q]
        show ?thesis
        proof (cases closed)
          case True
          with Cons.prems Receive Some res Inr q same show ?thesis by (intro exI [of _ tb1]) auto
        next
          case False
          with Cons.prems Receive Some res Inr q
          have "session_reply_loop D C r evs batch' tb1 c1 = Some (tb', c', ended)" by simp
          from Cons.IH [OF this] same_table_trans [OF same] show ?thesis by blast
        qed
      qed
    qed
  qed
qed

text \<open>The reply loop of a session takes the session out of the table exactly when it ends: while
  it runs, the table lists the same sessions as before and no session is closed; once it has
  ended, its session is not in the table, and no other client's session was touched. Errors of
  the kinds that an ICMP message leaves on a connected socket never end it.\<close>

lemma session_loop_lifetime:
  assumes "dashmap D" and "sessions_ok D tb" and "r < length (tb_arena tb)"
    and "session_reply_loop D C r evs batch tb c = Some (tb', c', ended)"
  shows "(\<not> ended \<longrightarrow> tb_sessions tb' = tb_sessions tb \<and>
      (\<forall>i < length (tb_arena tb). us_closed (tb_arena tb' ! i) = us_closed (tb_arena tb ! i))) \<and>
    (ended \<longrightarrow> (\<forall>k. dm_get D (tb_sessions tb') k \<noteq> Some r) \<and>
      (\<forall>k. k \<noteq> us_source (tb_arena tb ! r) \<longrightarrow> dm_get D (tb_sessions tb') k = dm_get D (tb_sessions tb) k)) \<and>
    ((\<forall>ev \<in> set evs. \<exists>clock e. ev = Receive clock [Called (Inl e)] \<and>
        e \<in> {ConnectionRefused, HostUnreachable, NetworkUnreachable}) \<longrightarrow> \<not> ended)"
proof -
  obtain tb1 where tb1: "same_table tb tb1" "tb' = (if ended then end_session D r tb1 else tb1)"
    using loop_same [OF assms(4)] by blast
  have ok1: "sessions_ok D tb1" "r < length (tb_arena tb1)" "us_source (tb_arena tb1 ! r) = us_source (tb_arena tb ! r)"
    "tb_sessions tb1 = tb_sessions tb"
    using same_table_ok [OF tb1(1) assms(2)] tb1(1) assms(3) by (simp_all add: same_table_def)
  have gone: "(\<forall>k. dm_get D (tb_sessions tb') k \<noteq> Some r) \<and>
      (\<forall>k. k \<noteq> us_source (tb_arena tb ! r) \<longrightarrow> dm_get D (tb_sessions tb') k = dm_get D (tb_sessions tb) k)" if ended
    using end_session_gone [OF assms(1) ok1(1,2)] that tb1(2) ok1(3,4) by (simp add: listed_def)
  have "\<not> ended" if "\<forall>ev \<in> set evs. \<exists>clock e. ev = Receive clock [Called (Inl e)] \<and>
      e \<in> {ConnectionRefused, HostUnreachable, NetworkUnreachable}"
    using assms(4) that
  proof (induction evs arbitrary: batch)
    case (Cons ev evs)
    then obtain clock e where "ev = Receive clock [Called (Inl e)]" "transient e" "e \<noteq> WouldBlock"
      by (auto simp: transient_def)
    with Cons show ?case by (simp add: recv_batch_connected_def)
  qed simp
  with gone tb1 show ?thesis by (auto simp: same_table_def)
qed

end
