(* ===== verification/Udp_Sender.thy ===== *)
theory Udp_Sender
  imports Udp_Reply
begin

text \<open>
  What the sender task of a port promises: the datagrams that the kernel takes are the first
  ones of the batch, in order, each once, with the bytes counted as sent; a kernel that keeps
  taking at least one datagram per call gets all of them; a hard error ends the batch.
\<close>

definition bytes_of :: "reply_packet list \<Rightarrow> nat" where
  "bytes_of pkts = sum_list (map rp_bytes pkts)"

lemma count_sent_eq:
  "count_sent pkts st = st\<lparr>ps_udp_out_bytes := ps_udp_out_bytes st + of_nat (bytes_of pkts)\<rparr>"
proof (induction pkts arbitrary: st)
  case (Cons p pkts)
  have "count_sent (p # pkts) st = count_sent pkts (add_udp_out (of_nat (rp_bytes p)) st)"
    by (simp add: count_sent_def)
  then show ?case by (simp add: Cons.IH add_udp_out_def bytes_of_def add.assoc)
qed (simp add: count_sent_def bytes_of_def)

lemma count_sent_Nil [simp]: "count_sent [] st = st"
  by (simp add: count_sent_def)

text \<open>The documented behaviour of \<open>sendmmsg\<close>: it takes no more messages than it was given.\<close>

definition honest :: "sendmmsg \<Rightarrow> bool" where
  "honest k \<longleftrightarrow> (\<forall>ms n. k ms = Inr n \<longrightarrow> n \<le> length ms)"

text \<open>A kernel that besides takes at least one message of every non-empty call.\<close>

definition productive :: "sendmmsg \<Rightarrow> bool" where
  "productive k \<longleftrightarrow> honest k \<and> (\<forall>ms. ms \<noteq> [] \<longrightarrow> (\<exists>n. k ms = Inr n \<and> 0 < n))"

lemma send_batch_messages:
  "pkts \<noteq> [] \<Longrightarrow> send_batch sock_addr k pkts = k (map (message_of sock_addr) (take (min (length pkts) 32) pkts))"
  by (simp add: send_batch_def max_batch_size_def message_of_def [abs_def])

lemma honest_send: "honest k \<Longrightarrow> send_batch sock_addr k pkts = Inr n \<Longrightarrow> n \<le> length pkts"
  unfolding honest_def
  by (cases "pkts = []") (fastforce simp: send_batch_messages send_batch_def)+

lemma slice_batch: "start + n \<le> length batch \<Longrightarrow> slice start (start + n) batch = Some (take n (drop start batch))"
  by (simp add: slice_def)

lemma take_more: "take (n + m) xs = take n xs @ take m (drop n xs)"
  by (simp add: take_add)

lemma flush_prefix:
  assumes "\<forall>k \<in> set ks. honest k" and "start \<le> length batch"
    and "stats = count_sent (take start batch) st0" and "out = out0 @ map (message_of sock_addr) (take start batch)"
  shows "\<exists>fin n. start \<le> n \<and> n \<le> length batch \<and>
    flush sock_addr ks batch start stats out =
      Some (fin, n, count_sent (take n batch) st0, out0 @ map (message_of sock_addr) (take n batch))"
  using assms
proof (induction ks arbitrary: start stats out)
  case Nil
  then show ?case by auto
next
  case (Cons k ks)
  show ?case
  proof (cases "start < length batch")
    case False
    with Cons.prems show ?thesis by auto
  next
    case True
    show ?thesis
    proof (cases "send_batch sock_addr k (drop start batch)")
      case (Inl e)
      show ?thesis
      proof (cases "e = WouldBlock \<or> e = Interrupted")
        case True
        with Cons.IH [of start stats out] Cons.prems Inl \<open>start < length batch\<close> show ?thesis by auto
      next
        case False
        with Cons.prems Inl \<open>start < length batch\<close> show ?thesis by auto
      qed
    next
      case (Inr n)
      have n: "start + n \<le> length batch"
        using honest_send [OF _ Inr] Cons.prems(1) True by simp
      show ?thesis
      proof (cases "n = 0")
        case True
        with Cons.prems Inr \<open>start < length batch\<close> show ?thesis by auto
      next
        case False
        let ?p = "take n (drop start batch)"
        have "count_sent ?p stats = count_sent (take (start + n) batch) st0"
          using Cons.prems(3) by (simp add: take_more count_sent_def)
        moreover have "out @ map (message_of sock_addr) ?p = out0 @ map (message_of sock_addr) (take (start + n) batch)"
          using Cons.prems(4) by (simp add: take_more)
        moreover have "flush sock_addr (k # ks) batch start stats out =
            flush sock_addr ks batch (start + n) (count_sent ?p stats) (out @ map (message_of sock_addr) ?p)"
          using Inr False \<open>start < length batch\<close> slice_batch [OF n] by simp
        moreover obtain fin m where "start + n \<le> m" "m \<le> length batch"
          "flush sock_addr ks batch (start + n) (count_sent (take (start + n) batch) st0)
             (out0 @ map (message_of sock_addr) (take (start + n) batch)) =
            Some (fin, m, count_sent (take m batch) st0, out0 @ map (message_of sock_addr) (take m batch))"
          using Cons.IH [OF _ n refl refl] Cons.prems(1) by auto
        ultimately show ?thesis by (intro exI [of _ fin] exI [of _ m]) simp
      qed
    qed
  qed
qed


abbreviation example_replies :: "reply_packet list" where
  "example_replies \<equiv> replies_to (SockV4 5 1000) [[1], [2, 3], [4]]"


lemma flush_all:
  assumes "\<forall>k \<in> set ks. productive k" and "start \<le> length batch" and "length batch - start \<le> length ks"
  shows "\<exists>stats' out'. flush sock_addr ks batch start stats out = Some (True, length batch, stats', out')"
  using assms
proof (induction ks arbitrary: start stats out)
  case Nil
  then show ?case by simp
next
  case (Cons k ks)
  show ?case
  proof (cases "start < length batch")
    case False
    with Cons.prems show ?thesis by simp
  next
    case True
    let ?rest = "drop start batch"
    have "map (message_of sock_addr) (take (min (length ?rest) 32) ?rest) \<noteq> []" using True by simp
    moreover have "productive k" using Cons.prems(1) by simp
    ultimately obtain n where "k (map (message_of sock_addr) (take (min (length ?rest) 32) ?rest)) = Inr n" "0 < n"
      unfolding productive_def by blast
    with True have n: "send_batch sock_addr k ?rest = Inr n" "0 < n" by (simp_all add: send_batch_messages)
    have "honest k" using Cons.prems(1) by (simp add: productive_def)
    from honest_send [OF this n(1)] True have "start + n \<le> length batch" by simp
    with Cons.IH [of "start + n"] Cons.prems n True show ?thesis by (simp add: slice_batch)
  qed
qed



text \<open>C39: A hard error of the kernel on one datagram silently loses the whole rest of the batch, up
  to 32 replies to any clients: they are gone from the channel, none of them is sent, and neither
  the sent bytes nor the dropped counter (nor any other) moves; the loop carries on with the next
  batch.\<close>

theorem send_error_loses_batch:
  assumes "bounded_channel C" and "ch_items C c \<noteq> []"
    and "\<forall>ms. k ms = Inl e" and "e \<noteq> WouldBlock" and "e \<noteq> Interrupted"
  shows "\<exists>c'. ch_items C c' = drop 32 (ch_items C c) \<and>
    sender_loop C sock_addr (RecvMany (k # ks) # evs) c stats out = sender_loop C sock_addr evs c' stats out"
proof -
  obtain c' where recv: "ch_recv_many C c 32 = (c', take 32 (ch_items C c))"
    and rest: "ch_items C c' = drop 32 (ch_items C c)"
    using bounded_channel.recv_many(1,2) [OF assms(1), of c 32] by (cases "ch_recv_many C c 32") auto
  have "flush sock_addr (k # ks) (take 32 (ch_items C c)) 0 stats out = Some (True, 0, stats, out)"
    using assms(2-5) by (simp add: send_batch_messages)
  with recv rest assms(2) show ?thesis
    by (intro exI [of _ c']) (simp add: send_batch_size_def)
qed

theorem send_error_loses_batch_witness:
  "\<exists>c'. qc_items c' = [] \<and>
     sender_loop queue_ops (sockaddr_layout True) [RecvMany [\<lambda>_. Inl (OtherError 90)]]
       \<lparr>qc_items = example_replies, qc_capacity = 512, qc_open = True\<rparr> (port_stats_new 80) [] =
     Some (False, c', port_stats_new 80, [])"
proof -
  let ?c = "\<lparr>qc_items = example_replies, qc_capacity = 512, qc_open = True\<rparr>"
  have "ch_items queue_ops ?c \<noteq> []" by (simp add: queue_ops_def)
  from send_error_loses_batch [OF queue.bounded_channel_axioms this, of "\<lambda>_. Inl (OtherError 90)" "OtherError 90"
      "sockaddr_layout True" "[]" "[]" "port_stats_new 80" "[]"]
  show ?thesis by (simp add: queue_ops_def)
qed

end
