(* ===== verification/Udp_Listener.thy ===== *)
theory Udp_Listener
  imports Udp_Reply "HOL-Library.Sublist"
begin

text \<open>
  \<open>src/src/listener/udp.rs\<close>: the receive loop of a UDP listen port. It takes datagrams of
  clients from the listen socket, finds or makes the session of each sender, and forwards the
  datagram on the session's socket. The other tasks of the port (the cleanup task and the
  reply loops of the sessions) run whenever this one waits; what they did meanwhile is a
  function on the table, an argument of the steps, about which only what they all keep is
  assumed.
\<close>

section \<open>The code\<close>

text \<open>What the world does while one datagram is handled: the system calls that make a socket, the
  target's current address, the clock, the other tasks during the send, its answer.\<close>

record 'm slot_env =
  se_sys :: kernel
  se_target :: socket_addr
  se_now :: u64
  se_others :: "'m session_table \<Rightarrow> 'm session_table"
  se_send :: "u8 list \<Rightarrow> io_error + nat"
  se_sent_at :: u64

text \<open>The loop over the received slots. Beside the table it returns the datagrams that were
  forwarded, each with its session; \<^const>\<open>None\<close> is a panic of \<open>addr\<close> or \<open>slot\<close>.\<close>

fun forward_slots ::
    "'m session_map \<Rightarrow> (nat \<Rightarrow> 'm slot_env) \<Rightarrow> batch_buf \<Rightarrow> nat list \<Rightarrow> 'm session_table \<Rightarrow> (nat \<times> u8 list) list \<Rightarrow>
     ('m session_table \<times> (nat \<times> u8 list) list) option" where
  "forward_slots D env batch [] tb out = Some (tb, out)"
| "forward_slots D env batch (i # is) tb out =
     (case batch_addr batch i of
        None \<Rightarrow> None
      | Some None \<Rightarrow> forward_slots D env batch is tb out
      | Some (Some source) \<Rightarrow>
          (case batch_slot batch i of
             None \<Rightarrow> None
           | Some payload \<Rightarrow>
               if payload = [] then forward_slots D env batch is tb out
               else
                 (case get_or_create D (se_sys (env i)) (se_target (env i)) (se_now (env i)) source tb of
                    (Inr session, tb1) \<Rightarrow>
                      (case forward_client_packet (se_send (env i)) (se_sent_at (env i)) session payload
                              (se_others (env i) tb1) of
                         (Inl error, tb2) \<Rightarrow> forward_slots D env batch is tb2 out
                       | (Inr _, tb2) \<Rightarrow> forward_slots D env batch is tb2 (out @ [(session, payload)]))
                  | (Inl error, tb1) \<Rightarrow> forward_slots D env batch is tb1 out)))"

text \<open>What wakes the listener; \<open>Others\<close> is the other tasks' doing while it waits.\<close>

datatype 'm listener_event =
    ListenerShutdown
  | ListenerRecv "recv_turn list" "nat \<Rightarrow> 'm slot_env"
  | Others "'m session_table \<Rightarrow> 'm session_table"

fun listener_loop ::
    "'m session_map \<Rightarrow> bool \<Rightarrow> 'm listener_event list \<Rightarrow> batch_buf \<Rightarrow> 'm session_table \<Rightarrow> (nat \<times> u8 list) list \<Rightarrow>
     ('m session_table \<times> (nat \<times> u8 list) list \<times> bool) option" where
  "listener_loop D le [] batch tb out = Some (tb, out, False)"
| "listener_loop D le (ListenerShutdown # evs) batch tb out = Some (shutdown_all D tb, out, True)"
| "listener_loop D le (Others f # evs) batch tb out = listener_loop D le evs batch (f tb) out"
| "listener_loop D le (ListenerRecv turns env # evs) batch tb out =
     (case recv_batch le turns batch of
        None \<Rightarrow> Some (tb, out, False)
      | Some (Inl error, batch') \<Rightarrow> listener_loop D le evs batch' tb out
      | Some (Inr received, batch') \<Rightarrow>
          (case forward_slots D env batch' [0..<received] tb out of
             None \<Rightarrow> None
           | Some (tb', out') \<Rightarrow> listener_loop D le evs batch' tb' out'))"

definition udp_run ::
    "'m session_map \<Rightarrow> bool \<Rightarrow> nat \<Rightarrow> port_stats \<Rightarrow> 'm listener_event list \<Rightarrow>
     ('m session_table \<times> (nat \<times> u8 list) list \<times> bool) option" where
  "udp_run D le idle_timeout stats evs =
     (case batch_new listener_batch_size listener_slot_size of
        None \<Rightarrow> None
      | Some batch \<Rightarrow> listener_loop D le evs batch (table_new D idle_timeout stats) [])"

section \<open>What all tasks of a port keep\<close>

text \<open>Sessions are never forgotten by the arena, and keep their client and their socket.\<close>

definition evolves :: "'m session_map \<Rightarrow> 'm session_table \<Rightarrow> 'm session_table \<Rightarrow> bool" where
  "evolves D tb tb' \<longleftrightarrow>
     sessions_ok D tb' \<and> length (tb_arena tb) \<le> length (tb_arena tb') \<and>
     (\<forall>r < length (tb_arena tb).
        us_source (tb_arena tb' ! r) = us_source (tb_arena tb ! r) \<and>
        us_upstream (tb_arena tb' ! r) = us_upstream (tb_arena tb ! r))"

definition udp_in :: "'m session_table \<Rightarrow> u64" where
  "udp_in tb = ps_udp_in_bytes (tb_stats tb)"

text \<open>A task other than the listener: it also leaves the incoming bytes alone.\<close>

definition other_task :: "'m session_map \<Rightarrow> ('m session_table \<Rightarrow> 'm session_table) \<Rightarrow> bool" where
  "other_task D f \<longleftrightarrow> (\<forall>tb. sessions_ok D tb \<longrightarrow> evolves D tb (f tb) \<and> udp_in (f tb) = udp_in tb)"

lemma evolves_refl: "sessions_ok D tb \<Longrightarrow> evolves D tb tb"
  by (simp add: evolves_def)

lemma evolves_trans: "evolves D tb tb1 \<Longrightarrow> evolves D tb1 tb2 \<Longrightarrow> evolves D tb tb2"
  by (auto simp: evolves_def)

lemma evolves_ok: "evolves D tb tb' \<Longrightarrow> sessions_ok D tb'"
  by (simp add: evolves_def)

lemma evolves_touch:
  "sessions_ok D tb \<Longrightarrow> evolves D tb (on_session r (session_touch now) tb)"
  by (cases "r < length (tb_arena tb)")
    (auto simp: evolves_def sessions_ok_def on_session_def session_touch_def nth_list_update list_update_beyond)

lemma evolves_stats: "evolves D tb (tb1\<lparr>tb_stats := st\<rparr>) = evolves D tb tb1"
  by (simp add: evolves_def sessions_ok_def)

lemma evolves_get_or_create:
  assumes "dashmap D" and "sessions_ok D tb" and "get_or_create D sys target now source tb = (res, tb')"
  shows "evolves D tb tb' \<and> udp_in tb' = udp_in tb \<and>
    (\<forall>s. res = Inr s \<longrightarrow> s < length (tb_arena tb') \<and> us_source (tb_arena tb' ! s) = source)"
proof (cases "dm_get D (tb_sessions tb) source")
  case (Some s)
  then have "s < length (tb_arena tb)" "us_source (tb_arena tb ! s) = source"
    using assms(2) by (auto simp: sessions_ok_def)
  with Some assms(3) evolves_touch [OF assms(2)] show ?thesis
    by (auto simp: get_or_create_def udp_in_def on_session_def session_touch_def)
next
  case None
  show ?thesis
  proof (cases "snd (new_connected_udp_socket sys target)")
    case (Inl e)
    with None assms evolves_refl [OF assms(2)] show ?thesis by (auto simp: get_or_create_def)
  next
    case (Inr up)
    let ?new = "session_new now (tb_next_session_id tb) source up"
    have tb': "tb_arena tb' = tb_arena tb @ [?new]" "res = Inr (length (tb_arena tb))"
      "dm_get D (tb_sessions tb') k = (if k = source then Some (length (tb_arena tb)) else dm_get D (tb_sessions tb) k)"
      "udp_in tb' = udp_in tb" for k
      using None Inr assms(3)
      by (auto simp: get_or_create_def new_session_def Let_def dashmap.get_insert [OF assms(1)]
          udp_in_def record_udp_flow_open_def)
    have "sessions_ok D tb'"
      using assms(2) by (auto simp: sessions_ok_def tb' nth_append session_new_def intro: less_SucI split: if_splits)
    then show ?thesis by (simp add: evolves_def tb' nth_append session_new_def)
  qed
qed


lemma forward_sent:
  assumes "forward_client_packet send now session payload tb = (res, tb')" and "sessions_ok D tb"
  shows "evolves D tb tb' \<and>
    (case res of Inl e \<Rightarrow> udp_in tb' = udp_in tb | Inr _ \<Rightarrow> udp_in tb' = udp_in tb + of_nat (length payload))"
  using assms evolves_touch [OF assms(2), of session now] evolves_refl [OF assms(2)]
  by (auto simp: forward_client_packet_def Let_def udp_in_def add_udp_in_def evolves_stats split: sum.splits)

lemma forward_answer:
  "send payload = Inr k \<Longrightarrow> fst (forward_client_packet send now session payload tb) = Inr ()"
  by (simp add: forward_client_packet_def forward_to_target_def Let_def)

text \<open>The other tasks indeed are such tasks.\<close>

lemma other_remove:
  assumes "dashmap D"
  shows "other_task D (remove_session D source i)"
  unfolding other_task_def
proof (intro allI impI)
  fix tb assume ok: "sessions_ok D tb"
  note laws = session_laws [OF assms]
  have "udp_in (remove_session D source i tb) = udp_in tb"
    by (auto simp: udp_in_def session_dashmap.remove_session_cases [OF laws] Let_def record_udp_flow_close_def
        split: option.splits)
  with ok show "evolves D tb (remove_session D source i tb) \<and> udp_in (remove_session D source i tb) = udp_in tb"
    by (simp add: evolves_def session_dashmap.sessions_ok_remove [OF laws]
        session_dashmap.remove_session_flags [OF laws] session_dashmap.remove_session_ids [OF laws])
qed

lemma other_comp: "other_task D f \<Longrightarrow> other_task D g \<Longrightarrow> other_task D (\<lambda>tb. g (f tb))"
  unfolding other_task_def by (metis evolves_ok evolves_trans)

lemma other_remove_all:
  assumes "dashmap D"
  shows "other_task D (remove_all D xs)"
proof (induction xs)
  case Nil
  then show ?case by (simp add: other_task_def remove_all_def evolves_refl)
next
  case (Cons x xs)
  have "remove_all D (x # xs) = (\<lambda>tb. remove_all D xs (remove_session D (fst x) (snd x) tb))"
    by (auto simp: remove_all_def split: prod.splits)
  with other_comp [OF other_remove [OF assms] Cons] show ?case by simp
qed

lemma other_cleanup: "dashmap D \<Longrightarrow> other_task D (cleanup_tick D now)"
  using other_remove_all unfolding other_task_def cleanup_tick_def by blast

section \<open>One receive\<close>

text \<open>The datagrams of a receive that are worth forwarding, with their senders.\<close>

definition wanted :: "socket_addr option \<Rightarrow> u8 list \<Rightarrow> (socket_addr \<times> u8 list) option" where
  "wanted source bytes = (case source of None \<Rightarrow> None | Some a \<Rightarrow> if bytes = [] then None else Some (a, bytes))"

definition client_datagrams :: "bool \<Rightarrow> datagrams \<Rightarrow> (socket_addr \<times> u8 list) list" where
  "client_datagrams le ds =
     List.map_filter (\<lambda>(bytes, sender). wanted (sockaddr_storage_to_socket_addr le sender) bytes) ds"

text \<open>A world in which sockets can be made and sends succeed.\<close>

definition friendly :: "'m slot_env \<Rightarrow> bool" where
  "friendly e \<longleftrightarrow> (\<forall>c. se_sys e c = None) \<and> (\<forall>p. \<exists>k. se_send e p = Inr k)"

abbreviation senders :: "'m session_table \<Rightarrow> (nat \<times> u8 list) list \<Rightarrow> (socket_addr \<times> u8 list) list" where
  "senders tb out \<equiv> map (\<lambda>(r, p). (us_source (tb_arena tb ! r), p)) out"

definition total_bytes :: "(nat \<times> u8 list) list \<Rightarrow> nat" where
  "total_bytes out = sum_list (map (length \<circ> snd) out)"

lemma total_bytes_simps [simp]:
  "total_bytes [] = 0" "total_bytes (x # xs) = length (snd x) + total_bytes xs"
  "total_bytes (xs @ ys) = total_bytes xs + total_bytes ys"
  by (simp_all add: total_bytes_def)

lemma friendly_get:
  assumes "friendly e"
  shows "\<exists>s. fst (get_or_create D (se_sys e) target now source tb) = Inr s"
proof -
  have sys: "se_sys e = (\<lambda>_. None)" using assms by (auto simp: friendly_def)
  show ?thesis unfolding sys
    by (auto simp: get_or_create_def made_ok new_session_def Let_def split: option.splits)
qed


text \<open>What handling some slots, one after the other, has done.\<close>

definition handled ::
    "'m session_map \<Rightarrow> bool \<Rightarrow> (socket_addr \<times> u8 list) list \<Rightarrow> 'm session_table \<Rightarrow> 'm session_table \<Rightarrow>
     (nat \<times> u8 list) list \<Rightarrow> bool" where
  "handled D all arrived tb tb' new \<longleftrightarrow>
     evolves D tb tb' \<and> udp_in tb' = udp_in tb + of_nat (total_bytes new) \<and>
     (\<forall>x \<in> set new. fst x < length (tb_arena tb')) \<and>
     subseq (senders tb' new) arrived \<and> (all \<longrightarrow> senders tb' new = arrived)"

lemma handled_nothing: "sessions_ok D tb \<Longrightarrow> handled D all [] tb tb []"
  by (simp add: handled_def evolves_refl)

lemma handled_append:
  assumes "handled D all1 xs tb tb1 new1" and "handled D all2 ys tb1 tb2 new2"
  shows "handled D (all1 \<and> all2) (xs @ ys) tb tb2 (new1 @ new2)"
proof -
  have same: "senders tb2 new1 = senders tb1 new1" and len: "\<forall>x \<in> set new1. fst x < length (tb_arena tb2)"
    using assms by (auto simp: handled_def evolves_def)
  have "evolves D tb tb2" using assms evolves_trans unfolding handled_def by blast
  moreover have "udp_in tb2 = udp_in tb + of_nat (total_bytes (new1 @ new2))"
    using assms by (simp add: handled_def)
  moreover have "\<forall>x \<in> set (new1 @ new2). fst x < length (tb_arena tb2)"
    using assms(2) len by (auto simp: handled_def)
  moreover have "subseq (senders tb2 (new1 @ new2)) (xs @ ys)"
    using assms unfolding handled_def map_append same by (blast intro: list_emb_append_mono)
  moreover have "all1 \<and> all2 \<longrightarrow> senders tb2 (new1 @ new2) = xs @ ys"
    using assms unfolding handled_def map_append same by simp
  ultimately show ?thesis unfolding handled_def by blast
qed

lemma handled_slot:
  assumes "dashmap D" and "sessions_ok D tb" and "other_task D (se_others e)" and "payload \<noteq> []"
  shows "\<exists>tb' new. handled D (friendly e) [(source, payload)] tb tb' new \<and>
    (case get_or_create D (se_sys e) (se_target e) (se_now e) source tb of
       (Inr session, tb1) \<Rightarrow>
         (case forward_client_packet (se_send e) (se_sent_at e) session payload (se_others e tb1) of
            (Inl error, tb2) \<Rightarrow> (tb2, [])
          | (Inr _, tb2) \<Rightarrow> (tb2, [(session, payload)]))
     | (Inl error, tb1) \<Rightarrow> (tb1, [])) = (tb', new)"
proof -
  obtain res tb1 where get: "get_or_create D (se_sys e) (se_target e) (se_now e) source tb = (res, tb1)"
    by (cases "get_or_create D (se_sys e) (se_target e) (se_now e) source tb")
  note made = evolves_get_or_create [OF assms(1,2) get]
  show ?thesis
  proof (cases res)
    case (Inl error)
    then have "\<not> friendly e" using friendly_get [of e D "se_target e" "se_now e" source tb] get by auto
    with made get Inl show ?thesis by (intro exI [of _ tb1] exI [of _ "[]"]) (simp add: handled_def)
  next
    case (Inr session)
    obtain ans tb2 where fwd:
      "forward_client_packet (se_send e) (se_sent_at e) session payload (se_others e tb1) = (ans, tb2)"
      by (cases "forward_client_packet (se_send e) (se_sent_at e) session payload (se_others e tb1)")
    have other: "evolves D tb1 (se_others e tb1)" "udp_in (se_others e tb1) = udp_in tb1"
      using assms(3) made by (auto simp: other_task_def dest: evolves_ok)
    note sent = forward_sent [OF fwd evolves_ok [OF other(1)]]
    have ev: "evolves D tb1 tb2" "evolves D tb tb2"
      using evolves_trans [OF other(1)] evolves_trans [OF made [THEN conjunct1]] sent by blast+
    have src: "session < length (tb_arena tb2)" "us_source (tb_arena tb2 ! session) = source"
      using ev(1) made Inr by (auto simp: evolves_def)
    show ?thesis
    proof (cases ans)
      case (Inl error)
      then have "\<not> friendly e" using forward_answer fwd by (metis friendly_def fst_conv Inl_Inr_False)
      with get fwd Inr Inl ev sent made other show ?thesis
        by (intro exI [of _ tb2] exI [of _ "[]"]) (simp add: handled_def)
    next
      case (Inr u)
      with get fwd \<open>res = Inr session\<close> ev sent made other src show ?thesis
        by (intro exI [of _ tb2] exI [of _ "[(session, payload)]"]) (simp add: handled_def)
    qed
  qed
qed

lemma forward_slots_spec:
  assumes "dashmap D" and "sessions_ok D tb"
    and "\<forall>i \<in> set is. batch_addr batch i = Some (src i) \<and> batch_slot batch i = Some (pay i) \<and>
      other_task D (se_others (env i))"
  shows "\<exists>tb' new. forward_slots D env batch is tb out = Some (tb', out @ new) \<and>
    handled D (\<forall>i \<in> set is. friendly (env i)) (List.map_filter (\<lambda>i. wanted (src i) (pay i)) is) tb tb' new"
  using assms(2,3)
proof (induction "is" arbitrary: tb out)
  case Nil
  then show ?case by (auto simp: map_filter_simps intro: handled_nothing)
next
  case (Cons i is')
  have slot: "batch_addr batch i = Some (src i)" "batch_slot batch i = Some (pay i)" "other_task D (se_others (env i))"
    and rest: "\<forall>j \<in> set is'. batch_addr batch j = Some (src j) \<and> batch_slot batch j = Some (pay j) \<and>
      other_task D (se_others (env j))"
    using Cons.prems(2) by simp_all
  obtain tb1 new1 where one: "handled D (friendly (env i)) (case wanted (src i) (pay i) of None \<Rightarrow> [] | Some x \<Rightarrow> [x]) tb tb1 new1"
    and step: "forward_slots D env batch (i # is') tb out = forward_slots D env batch is' tb1 (out @ new1)"
  proof (cases "wanted (src i) (pay i)")
    case None
    with slot have "forward_slots D env batch (i # is') tb out = forward_slots D env batch is' tb (out @ [])"
      by (auto simp: wanted_def split: option.splits if_splits)
    with None show ?thesis
      using that [of tb "[]"] handled_nothing [OF Cons.prems(1)] by simp
  next
    case (Some x)
    then obtain a where x: "src i = Some a" "pay i \<noteq> []" "x = (a, pay i)"
      by (auto simp: wanted_def split: option.splits if_splits)
    from handled_slot [OF assms(1) Cons.prems(1) slot(3) x(2), of a] obtain tb1 new1 where
      h: "handled D (friendly (env i)) [(a, pay i)] tb tb1 new1" and
      run: "(case get_or_create D (se_sys (env i)) (se_target (env i)) (se_now (env i)) a tb of
         (Inr session, tb1) \<Rightarrow>
           (case forward_client_packet (se_send (env i)) (se_sent_at (env i)) session (pay i) (se_others (env i) tb1) of
              (Inl error, tb2) \<Rightarrow> (tb2, [])
            | (Inr _, tb2) \<Rightarrow> (tb2, [(session, pay i)]))
       | (Inl error, tb1) \<Rightarrow> (tb1, [])) = (tb1, new1)" by blast
    from run slot x have "forward_slots D env batch (i # is') tb out = forward_slots D env batch is' tb1 (out @ new1)"
      by (auto split: prod.splits sum.splits)
    with h Some x(3) show ?thesis using that by simp
  qed
  have ok1: "sessions_ok D tb1" using one by (simp add: handled_def evolves_def)
  from Cons.IH [OF ok1 rest, of "out @ new1"] obtain tb' new2 where
    two: "forward_slots D env batch is' tb1 (out @ new1) = Some (tb', (out @ new1) @ new2)"
      "handled D (\<forall>i \<in> set is'. friendly (env i)) (List.map_filter (\<lambda>i. wanted (src i) (pay i)) is') tb1 tb' new2"
    by blast
  have "(case wanted (src i) (pay i) of None \<Rightarrow> [] | Some x \<Rightarrow> [x]) @ List.map_filter (\<lambda>i. wanted (src i) (pay i)) is' =
      List.map_filter (\<lambda>i. wanted (src i) (pay i)) (i # is')"
    by (simp add: map_filter_simps split: option.splits)
  with handled_append [OF one two(2)] step two(1) show ?case by (intro exI [of _ tb'] exI [of _ "new1 @ new2"]) simp
qed


lemma map_filter_nth: "List.map_filter (\<lambda>i. f (xs ! i)) [0..<length xs] = List.map_filter f xs"
proof -
  have "List.map_filter f (map ((!) xs) [0..<length xs]) = List.map_filter (\<lambda>i. f (xs ! i)) [0..<length xs]"
    unfolding List.map_filter_def by (simp add: filter_map comp_def)
  then show ?thesis by (simp add: map_nth)
qed

lemma receive_handled:
  assumes "dashmap D" and "sessions_ok D tb" and "batch_ok batch"
    and "recv_batch le turns batch = Some (Inr n, batch')"
    and "\<forall>ds. Called (Inr ds) \<in> set turns \<longrightarrow> answer_ok batch ds"
    and "\<forall>i. other_task D (se_others (env i))"
  shows "batch_ok batch' \<and> bb_batch_size batch' = bb_batch_size batch \<and>
    (\<exists>ds tb' new. Called (Inr ds) \<in> set turns \<and> n = length ds \<and>
       forward_slots D env batch' [0..<n] tb out = Some (tb', out @ new) \<and>
       handled D (\<forall>i < n. friendly (env i)) (client_datagrams le ds) tb tb' new)"
proof -
  from recv_batch_filled [OF assms(3-5)] obtain pre ds post where turns: "turns = pre @ Called (Inr ds) # post"
    and n: "n = length ds"
    and slots: "\<forall>i < n. batch_slot batch' i = Some (fst (ds ! i)) \<and>
       batch_addr batch' i = Some (sockaddr_storage_to_socket_addr le (snd (ds ! i)))"
    and ok: "batch_ok batch'" "bb_batch_size batch' = bb_batch_size batch" by blast
  have ds: "Called (Inr ds) \<in> set turns" "n = length ds" using turns n by simp_all
  let ?src = "\<lambda>i. sockaddr_storage_to_socket_addr le (snd (ds ! i))" and ?pay = "\<lambda>i. fst (ds ! i)"
  have each: "\<forall>i \<in> set [0..<n]. batch_addr batch' i = Some (?src i) \<and> batch_slot batch' i = Some (?pay i) \<and>
      other_task D (se_others (env i))"
    using slots assms(6) by simp
  have arrived: "List.map_filter (\<lambda>i. wanted (?src i) (?pay i)) [0..<n] = client_datagrams le ds"
    using map_filter_nth [of "\<lambda>d. wanted (sockaddr_storage_to_socket_addr le (snd d)) (fst d)" ds] ds(2)
    by (simp add: client_datagrams_def case_prod_unfold)
  have all: "(\<forall>i \<in> set [0..<n]. friendly (env i)) \<longleftrightarrow> (\<forall>i < n. friendly (env i))" by auto
  from forward_slots_spec [OF assms(1,2) each, of out, unfolded arrived all] ds ok show ?thesis by blast
qed


definition example_env :: "u64 \<Rightarrow> (socket_addr, nat) shards slot_env" where
  "example_env now =
     \<lparr>se_sys = (\<lambda>_. None), se_target = SockV4 1 9000, se_now = now, se_others = cleanup_tick example_map now,
      se_send = (\<lambda>p. Inr (length p)), se_sent_at = now\<rparr>"



section \<open>A whole run\<close>

lemma recv_loop_waiting:
  "recv_loop on_recv turns buf = None \<longleftrightarrow> (\<forall>t \<in> set turns. t = Called (Inl WouldBlock))"
  by (induction on_recv turns buf rule: recv_loop.induct) simp_all

lemma recv_loop_error: "recv_loop on_recv turns buf = Some (Inl e, buf') \<Longrightarrow> buf' = buf"
  by (induction on_recv turns buf rule: recv_loop.induct) (auto split: if_splits)

lemma shutdown_all_empty:
  assumes "dashmap D" and "sessions_ok D tb"
  shows "dm_get D (tb_sessions (shutdown_all D tb)) k = None"
proof -
  note laws = session_laws [OF assms(1)]
  show ?thesis
    using session_dashmap.remove_all_get [OF laws assms(2), of "all_sessions D tb" k]
      session_dashmap.set_all_sessions [OF laws, of k _ tb]
    by (auto simp: shutdown_all_def split: option.splits)
qed

lemma other_shutdown: "dashmap D \<Longrightarrow> other_task D (shutdown_all D)"
  using other_remove_all unfolding other_task_def shutdown_all_def by blast

text \<open>The kernel keeps to its documentation in a step, and the other tasks to their own.\<close>

fun event_ok :: "'m session_map \<Rightarrow> batch_buf \<Rightarrow> 'm listener_event \<Rightarrow> bool" where
  "event_ok D buf ListenerShutdown \<longleftrightarrow> True"
| "event_ok D buf (Others f) \<longleftrightarrow> other_task D f"
| "event_ok D buf (ListenerRecv turns env) \<longleftrightarrow>
     (\<forall>ds. Called (Inr ds) \<in> set turns \<longrightarrow> answer_ok buf ds) \<and> (\<forall>i. other_task D (se_others (env i)))"

fun event_waits :: "'m listener_event \<Rightarrow> bool" where
  "event_waits (ListenerRecv turns env) \<longleftrightarrow> (\<forall>t \<in> set turns. t = Called (Inl WouldBlock))"
| "event_waits ev \<longleftrightarrow> False"

lemma event_ok_size:
  "bb_batch_size buf' = bb_batch_size buf \<Longrightarrow> bb_slot_size buf' = bb_slot_size buf \<Longrightarrow>
   event_ok D buf' ev = event_ok D buf ev"
  by (cases ev) (auto simp: answer_ok_def)

lemma recv_fill_slot_size:
  "bb_slot_size (recv_fill (note_sender le) i ds buf) = bb_slot_size buf"
  by (induction "note_sender le" i ds buf rule: recv_fill.induct) (simp_all add: note_sender_def)

lemma recv_batch_slot_size: "recv_batch le turns buf = Some (Inr n, buf') \<Longrightarrow> bb_slot_size buf' = bb_slot_size buf"
  unfolding recv_batch_def using recv_loop_Inr recv_fill_slot_size by blast

text \<open>A receive that succeeds, and what the loop goes on with.\<close>

lemma loop_received:
  assumes "dashmap D" and "sessions_ok D tb" and "batch_ok buf" and "event_ok D buf (ListenerRecv turns env)"
    and "recv_batch le turns buf = Some (Inr n, buf')"
  obtains tb1 new1 where "batch_ok buf'" and "\<And>e. event_ok D buf e \<Longrightarrow> event_ok D buf' e"
    and "\<And>evs. listener_loop D le (ListenerRecv turns env # evs) buf tb out = listener_loop D le evs buf' tb1 (out @ new1)"
    and "evolves D tb tb1" and "udp_in tb1 = udp_in tb + of_nat (total_bytes new1)"
proof -
  have answers: "\<forall>ds. Called (Inr ds) \<in> set turns \<longrightarrow> answer_ok buf ds"
    and others: "\<forall>i. other_task D (se_others (env i))" using assms(4) by simp_all
  from receive_handled [OF assms(1-3,5) answers others, of out] obtain ds tb1 new1 where
    buf: "batch_ok buf'" "bb_batch_size buf' = bb_batch_size buf" and
    fwd: "forward_slots D env buf' [0..<n] tb out = Some (tb1, out @ new1)" and
    h: "handled D (\<forall>i < n. friendly (env i)) (client_datagrams le ds) tb tb1 new1" by blast
  show ?thesis
  proof (rule that [of tb1 new1])
    show "event_ok D buf' e" if "event_ok D buf e" for e
      using that event_ok_size [OF buf(2) recv_batch_slot_size [OF assms(5)]] by blast
    show "listener_loop D le (ListenerRecv turns env # evs) buf tb out = listener_loop D le evs buf' tb1 (out @ new1)" for evs
      using assms(5) fwd by simp
  qed (use h buf(1) in \<open>simp_all add: handled_def\<close>)
qed

lemma listener_loop_spec:
  assumes "dashmap D" and "sessions_ok D tb" and "batch_ok buf" and "\<forall>ev \<in> set evs. event_ok D buf ev"
  shows "\<exists>tb' new fin. listener_loop D le evs buf tb out = Some (tb', out @ new, fin) \<and>
    evolves D tb tb' \<and> udp_in tb' = udp_in tb + of_nat (total_bytes new) \<and>
    (fin \<longrightarrow> ListenerShutdown \<in> set evs \<and> (\<forall>k. dm_get D (tb_sessions tb') k = None)) \<and>
    (ListenerShutdown \<in> set evs \<and> (\<forall>ev \<in> set evs. \<not> event_waits ev) \<longrightarrow> fin)"
  using assms(2-4)
proof (induction evs arbitrary: tb buf out)
  case Nil
  then show ?case by (intro exI [of _ tb] exI [of _ "[]"] exI [of _ False]) (simp add: evolves_refl)
next
  case (Cons ev evs)
  have rest: "\<forall>e \<in> set evs. event_ok D buf e" using Cons.prems(3) by simp
  show ?case
  proof (cases ev)
    case ListenerShutdown
    with other_shutdown [OF assms(1)] shutdown_all_empty [OF assms(1)] Cons.prems(1) show ?thesis
      by (intro exI [of _ "shutdown_all D tb"] exI [of _ "[]"] exI [of _ True]) (simp add: other_task_def)
  next
    case (Others f)
    with Cons.prems have f: "evolves D tb (f tb)" "udp_in (f tb) = udp_in tb" by (simp_all add: other_task_def)
    from Cons.IH [OF evolves_ok [OF f(1)] Cons.prems(2) rest, of out] f evolves_trans [OF f(1)] Others
    show ?thesis by simp metis
  next
    case (ListenerRecv turns env)
    show ?thesis
    proof (cases "recv_batch le turns buf")
      case None
      then have "event_waits ev" by (simp add: ListenerRecv recv_batch_def recv_loop_waiting)
      with None ListenerRecv Cons.prems(1) show ?thesis
        by (intro exI [of _ tb] exI [of _ "[]"] exI [of _ False]) (auto simp: evolves_refl)
    next
      case (Some res)
      show ?thesis
      proof (cases "fst res")
        case (Inl e)
        with Some have "recv_batch le turns buf = Some (Inl e, snd res)" by (metis prod.collapse)
        moreover from this have "snd res = buf" unfolding recv_batch_def by (rule recv_loop_error)
        ultimately have "listener_loop D le (ev # evs) buf tb out = listener_loop D le evs buf tb out"
          by (simp add: ListenerRecv)
        with Cons.IH [OF Cons.prems(1,2) rest, of out] show ?thesis by (auto simp: ListenerRecv)
      next
        case (Inr n)
        with Some have run: "recv_batch le turns buf = Some (Inr n, snd res)" by (metis prod.collapse)
        have "event_ok D buf (ListenerRecv turns env)" using Cons.prems(3) ListenerRecv by simp
        from loop_received [OF assms(1) Cons.prems(1,2) this run, of out] obtain tb1 new1 where
          buf: "batch_ok (snd res)" "\<And>e. event_ok D buf e \<Longrightarrow> event_ok D (snd res) e" and
          step: "\<And>evs. listener_loop D le (ListenerRecv turns env # evs) buf tb out =
            listener_loop D le evs (snd res) tb1 (out @ new1)" and
          h1: "evolves D tb tb1" "udp_in tb1 = udp_in tb + of_nat (total_bytes new1)" by blast
        have rest': "\<forall>e \<in> set evs. event_ok D (snd res) e" using rest buf(2) by blast
        from Cons.IH [OF evolves_ok [OF h1(1)] buf(1) rest', of "out @ new1"] obtain tb' new2 fin where
          two: "listener_loop D le evs (snd res) tb1 (out @ new1) = Some (tb', (out @ new1) @ new2, fin)"
            "evolves D tb1 tb'" "udp_in tb' = udp_in tb1 + of_nat (total_bytes new2)"
            "fin \<longrightarrow> ListenerShutdown \<in> set evs \<and> (\<forall>k. dm_get D (tb_sessions tb') k = None)"
            "ListenerShutdown \<in> set evs \<and> (\<forall>ev \<in> set evs. \<not> event_waits ev) \<longrightarrow> fin" by blast
        show ?thesis unfolding ListenerRecv step
          using two evolves_trans [OF h1(1) two(2)] h1(2)
          by (intro exI [of _ tb'] exI [of _ "new1 @ new2"] exI [of _ fin]) (auto simp: ListenerRecv)
      qed
    qed
  qed
qed



end
