(* ===== verification/Udp_Portable.thy ===== *)
theory Udp_Portable
  imports Udp_Batch
begin

text \<open>
  The fallbacks of \<open>src/src/listener/udp_batch.rs\<close> for systems other than Linux: one
  \<open>recv_from\<close> or \<open>recv\<close> into the first slot, and sends one after the other. They have the
  signatures of the Linux routines so that the callers do not branch; the property says that
  they also do the same, on a kernel whose batch calls are documented as repeated single ones.
\<close>

section \<open>The code\<close>

text \<open>\<open>slot_mut_full(0)\<close>: the slice panics when the buffer is too short.\<close>

definition first_slot_ok :: "batch_buf \<Rightarrow> bool" where
  "first_slot_ok buf \<longleftrightarrow> bb_slot_size buf \<le> length (bb_data buf)"

text \<open>\<open>send_batch\<close>; the first argument of the oracle counts the datagrams sent before.\<close>

fun try_send_each ::
    "(nat \<Rightarrow> u8 list \<Rightarrow> socket_addr \<Rightarrow> io_error + nat) \<Rightarrow> nat \<Rightarrow> reply_packet list \<Rightarrow> io_error + nat" where
  "try_send_each try_send_to sent [] = Inr sent"
| "try_send_each try_send_to sent (pkt # packets) =
     (case try_send_to sent (rp_payload pkt) (rp_dst pkt) of
        Inr _ \<Rightarrow> try_send_each try_send_to (sent + 1) packets
      | Inl error \<Rightarrow> if sent = 0 then Inl error else Inr sent)"

definition send_batch_portable ::
    "(nat \<Rightarrow> u8 list \<Rightarrow> socket_addr \<Rightarrow> io_error + nat) \<Rightarrow> reply_packet list \<Rightarrow> io_error + nat" where
  "send_batch_portable try_send_to packets = try_send_each try_send_to 0 packets"

text \<open>\<open>recv_batch\<close> and \<open>recv_batch_connected\<close>, with what the awaited receive answers;
  \<^const>\<open>None\<close> is a panic.\<close>

definition recv_batch_portable ::
    "io_error + (u8 list \<times> socket_addr) \<Rightarrow> batch_buf \<Rightarrow> ((io_error + nat) \<times> batch_buf) option" where
  "recv_batch_portable recv_from buf =
     (if \<not> first_slot_ok buf then None
      else case recv_from of
        Inl error \<Rightarrow> Some (Inl error, buf)
      | Inr (bytes, source) \<Rightarrow>
          (let buf = buf\<lparr>bb_data := fill 0 bytes (bb_data buf)\<rparr> in
           if bb_lens buf = [] \<or> bb_addrs buf = [] then None
           else Some (Inr 1, buf\<lparr>bb_lens := (bb_lens buf)[0 := length bytes],
                               bb_addrs := (bb_addrs buf)[0 := Some source]\<rparr>)))"

definition recv_batch_connected_portable ::
    "io_error + u8 list \<Rightarrow> batch_buf \<Rightarrow> ((io_error + nat) \<times> batch_buf) option" where
  "recv_batch_connected_portable recv buf =
     (if \<not> first_slot_ok buf then None
      else case recv of
        Inl error \<Rightarrow> Some (Inl error, buf)
      | Inr bytes \<Rightarrow>
          (let buf = buf\<lparr>bb_data := fill 0 bytes (bb_data buf)\<rparr> in
           if bb_lens buf = [] then None
           else Some (Inr 1, buf\<lparr>bb_lens := (bb_lens buf)[0 := length bytes]\<rparr>)))"

section \<open>A kernel whose batch calls repeat single ones\<close>

text \<open>The documented \<open>sendmmsg\<close>: it sends the messages in order and stops at the first that
  fails; the call fails only when that is the first one.\<close>

fun one_by_one ::
    "(nat \<Rightarrow> u8 list \<times> u8 list \<Rightarrow> io_error + nat) \<Rightarrow> nat \<Rightarrow> (u8 list \<times> u8 list) list \<Rightarrow> io_error + nat" where
  "one_by_one k sent [] = Inr sent"
| "one_by_one k sent (m # ms) =
     (case k sent m of
        Inr _ \<Rightarrow> one_by_one k (sent + 1) ms
      | Inl e \<Rightarrow> if sent = 0 then Inl e else Inr sent)"

text \<open>Sending one message: the kernel reads the address from the bytes it is given.\<close>

definition send_raw ::
    "bool \<Rightarrow> (nat \<Rightarrow> u8 list \<Rightarrow> socket_addr \<Rightarrow> io_error + nat) \<Rightarrow> nat \<Rightarrow> u8 list \<times> u8 list \<Rightarrow> io_error + nat" where
  "send_raw le try_send_to sent m =
     (case sockaddr_storage_to_socket_addr le (fst m) of
        None \<Rightarrow> Inl (OtherError 22)
      | Some dst \<Rightarrow> try_send_to sent (snd m) dst)"

lemma send_raw_layout: "send_raw le k sent (sockaddr_layout le dst, p) = k sent p dst"
  using decode_layout [of le dst "[]"] by (simp add: send_raw_def)

lemma one_by_one_try_send_each:
  "one_by_one (send_raw le k) sent (map (\<lambda>pkt. (sockaddr_layout le (rp_dst pkt), rp_payload pkt)) packets) =
   try_send_each k sent packets"
  by (induction packets arbitrary: sent)
    (simp_all add: send_raw_layout del: sockaddr_layout.simps split: sum.split)



end
