(* ===== verification/Udp_System.thy ===== *)
theory Udp_System
  imports Udp_Reply
begin

text \<open>
  All tasks of one UDP listen port together: the receive loop (\<open>src/src/listener/udp.rs\<close>), the
  cleanup task and the reply loops of the sessions (\<open>src/src/udp_session.rs\<close>) and the sender
  task (\<open>src/src/listener/udp_send.rs\<close>), which share the session table, the counters, the
  reply channel and the shutdown token. Each task is where it stands between two steps that
  others can see; the operations on the table take the atomic steps of \<open>table_op\<close>, and a walk
  through the table goes from shard to shard. A step is an \<open>Input\<close> when it takes something in from
  outside of the port (a receive, a timer, the cancelled token); all others are \<open>Progress\<close>. The field
  \<open>up_log\<close> is a history of the datagrams that come in and go out; no step reads it.
\<close>

section \<open>The tasks\<close>

type_synonym todo = "(socket_addr \<times> u8 list) list"
type_synonym victims = "(socket_addr \<times> u64) list"

text \<open>The receive loop: in its \<open>select!\<close>; with slots left; inside of \<open>get_or_create\<close>; inside of
  \<open>forward_client_packet\<close>, before the send, the touch, the count; after the loop, inside of
  \<open>shutdown_all\<close>, first in its walk through the shards; waiting for the cleanup task, then for the sender.\<close>

datatype listener_pc =
    LWait
  | LSlots todo
  | LGet tbl_op "u8 list" todo
  | LSend nat "u8 list" todo
  | LTouch nat "u8 list" todo
  | LCount "u8 list" todo
  | LScan nat victims
  | LRemove victims
  | LRemoveOp tbl_op victims
  | LJoinCleanup
  | LJoinSender
  | LReturned

text \<open>The cleanup task: waiting; in its walk through the shards, with the time of the tick, the next
  shard, the entries left of the current one and the stale sessions found; removing them; ended.\<close>

datatype cleanup_pc =
    CWait
  | CScan u64 nat "(socket_addr \<times> nat) list" victims
  | CRemove victims
  | COp tbl_op victims
  | CDone

text \<open>A reply loop: in its \<open>select!\<close>; with datagrams left; before the touch or the drop count
  that follows a \<open>try_send\<close>; inside of the final \<open>remove_session\<close>.\<close>

datatype reply_pc = RWait | RQueue "u8 list list" | RTouch "u8 list list" | RDrop "u8 list list" | RRemove tbl_op

datatype sender_pc = SWait | SFlush "reply_packet list" | SDone

text \<open>What the history records: a batch from clients; what became of a datagram of a client (sent to
  the target by a session, a send that failed, no session); a batch of a session from the target;
  what became of replies (refused by the full queue, sent to their clients, thrown away).\<close>

datatype traffic =
    FromClients todo
  | ToTarget nat "u8 list"
  | NotSent nat "u8 list"
  | NoSession socket_addr "u8 list"
  | FromTarget nat "u8 list list"
  | QueueFull reply_packet
  | ToClients "reply_packet list"
  | ThrownAway "reply_packet list"

record ('m, 'c) udp_port =
  up_table :: "'m session_table"
  up_chan :: 'c
  up_shutdown :: bool
  up_listener :: listener_pc
  up_cleanup :: cleanup_pc
  up_replies :: "(nat \<times> reply_pc) multiset"
  up_sender :: sender_pc
  up_log :: "traffic list"

definition udp_port_new :: "'m session_map \<Rightarrow> 'c reply_chan \<Rightarrow> nat \<Rightarrow> u16 \<Rightarrow> ('m, 'c) udp_port" where
  "udp_port_new D C idle_timeout port =
     \<lparr>up_table = table_new D idle_timeout (port_stats_new port), up_chan = spawn_reply_sender C,
      up_shutdown = False, up_listener = LWait, up_cleanup = CWait, up_replies = {#}, up_sender = SWait,
      up_log = []\<rparr>"

datatype step_kind = Progress | Input

section \<open>The receive loop\<close>

text \<open>The session that \<open>get_or_create\<close> returns when its last atomic step was this one.\<close>

fun got :: "tbl_op \<Rightarrow> nat option" where
  "got (OpTouch r) = Some r"
| "got (OpSpawn r) = Some r"
| "got _ = None"

fun spawned :: "tbl_op \<Rightarrow> (nat \<times> reply_pc) multiset" where
  "spawned (OpSpawn r) = {#(r, RWait)#}"
| "spawned _ = {#}"

definition after_get :: "tbl_op \<Rightarrow> tbl_op option \<Rightarrow> u8 list \<Rightarrow> todo \<Rightarrow> listener_pc" where
  "after_get o' k payload todo =
     (case k of
        Some o'' \<Rightarrow> LGet o'' payload todo
      | None \<Rightarrow> (case got o' of Some r \<Rightarrow> LSend r payload todo | None \<Rightarrow> LSlots todo))"

fun no_session :: "tbl_op \<Rightarrow> tbl_op option \<Rightarrow> u8 list \<Rightarrow> traffic list" where
  "no_session (OpCreate source) None payload = [NoSession source payload]"
| "no_session _ _ _ = []"

definition logged :: "traffic list \<Rightarrow> ('m, 'c) udp_port \<Rightarrow> ('m, 'c) udp_port" where
  "logged evs p = p\<lparr>up_log := up_log p @ evs\<rparr>"

definition on_table :: "('m session_table \<Rightarrow> 'm session_table) \<Rightarrow> ('m, 'c) udp_port \<Rightarrow> ('m, 'c) udp_port" where
  "on_table f p = p\<lparr>up_table := f (up_table p)\<rparr>"

definition count_in :: "u8 list \<Rightarrow> 'm session_table \<Rightarrow> 'm session_table" where
  "count_in payload tb = tb\<lparr>tb_stats := add_udp_in (of_nat (length payload)) (tb_stats tb)\<rparr>"

definition count_drop :: "'m session_table \<Rightarrow> 'm session_table" where
  "count_drop tb = tb\<lparr>tb_stats := record_udp_drop (tb_stats tb)\<rparr>"

text \<open>What the walk of \<open>shutdown_all\<close> collects from a shard.\<close>

definition shard_sessions :: "'m session_map \<Rightarrow> nat \<Rightarrow> 'm session_table \<Rightarrow> victims" where
  "shard_sessions D i tb =
     map (\<lambda>(source, r). (source, us_id (tb_arena tb ! r))) (dm_shard D (tb_sessions tb) i)"

inductive listener_step ::
    "'m session_map \<Rightarrow> step_kind \<Rightarrow> ('m, 'c) udp_port \<Rightarrow> ('m, 'c) udp_port \<Rightarrow> bool" for D :: "'m session_map" where
  l_shutdown: "up_listener p = LWait \<Longrightarrow> up_shutdown p \<Longrightarrow>
    listener_step D Progress p (p\<lparr>up_listener := LScan 0 []\<rparr>)"
| l_receive: "up_listener p = LWait \<Longrightarrow> \<forall>x \<in> set xs. snd x \<noteq> [] \<Longrightarrow>
    listener_step D Input p (logged [FromClients xs] (p\<lparr>up_listener := LSlots xs\<rparr>))"
| l_error: "up_listener p = LWait \<Longrightarrow> listener_step D Input p p"
| l_empty: "up_listener p = LSlots [] \<Longrightarrow> listener_step D Progress p (p\<lparr>up_listener := LWait\<rparr>)"
| l_slot: "up_listener p = LSlots ((source, payload) # xs) \<Longrightarrow>
    listener_step D Progress p (p\<lparr>up_listener := LGet (OpLookup source) payload xs\<rparr>)"
| l_get: "up_listener p = LGet o' payload xs \<Longrightarrow> table_op D sys target now o' (up_table p) = (tb, k) \<Longrightarrow>
    listener_step D Progress p
      (logged (no_session o' k payload)
        (p\<lparr>up_table := tb, up_listener := after_get o' k payload xs, up_replies := up_replies p + spawned o'\<rparr>))"
| l_sent: "up_listener p = LSend r payload xs \<Longrightarrow>
    listener_step D Progress p (logged [ToTarget r payload] (p\<lparr>up_listener := LTouch r payload xs\<rparr>))"
| l_send_error: "up_listener p = LSend r payload xs \<Longrightarrow>
    listener_step D Progress p (logged [NotSent r payload] (p\<lparr>up_listener := LSlots xs\<rparr>))"
| l_touch: "up_listener p = LTouch r payload xs \<Longrightarrow>
    listener_step D Progress p (on_table (on_session r (session_touch now)) (p\<lparr>up_listener := LCount payload xs\<rparr>))"
| l_count: "up_listener p = LCount payload xs \<Longrightarrow>
    listener_step D Progress p (on_table (count_in payload) (p\<lparr>up_listener := LSlots xs\<rparr>))"
| l_scan: "up_listener p = LScan i xs \<Longrightarrow> i < dm_shards D \<Longrightarrow>
    listener_step D Progress p (p\<lparr>up_listener := LScan (Suc i) (xs @ shard_sessions D i (up_table p))\<rparr>)"
| l_scanned: "up_listener p = LScan i xs \<Longrightarrow> dm_shards D \<le> i \<Longrightarrow>
    listener_step D Progress p (p\<lparr>up_listener := LRemove xs\<rparr>)"
| l_removed: "up_listener p = LRemove [] \<Longrightarrow> listener_step D Progress p (p\<lparr>up_listener := LJoinCleanup\<rparr>)"
| l_remove: "up_listener p = LRemove ((source, i) # xs) \<Longrightarrow>
    listener_step D Progress p (p\<lparr>up_listener := LRemoveOp (OpRemove source i) xs\<rparr>)"
| l_remove_op: "up_listener p = LRemoveOp o' xs \<Longrightarrow> table_op D sys target now o' (up_table p) = (tb, k) \<Longrightarrow>
    listener_step D Progress p
      (p\<lparr>up_table := tb, up_listener := (case k of Some o'' \<Rightarrow> LRemoveOp o'' xs | None \<Rightarrow> LRemove xs)\<rparr>)"
| l_join_cleanup: "up_listener p = LJoinCleanup \<Longrightarrow> up_cleanup p = CDone \<Longrightarrow>
    listener_step D Progress p (p\<lparr>up_listener := LJoinSender\<rparr>)"
| l_join_sender: "up_listener p = LJoinSender \<Longrightarrow> up_sender p = SDone \<Longrightarrow>
    listener_step D Progress p (p\<lparr>up_listener := LReturned\<rparr>)"

section \<open>The operations in flight\<close>

fun listener_ops :: "listener_pc \<Rightarrow> tbl_op multiset" where
  "listener_ops (LGet o' b xs) = {#o'#}"
| "listener_ops (LRemoveOp o' xs) = {#o'#}"
| "listener_ops _ = {#}"

fun cleanup_ops :: "cleanup_pc \<Rightarrow> tbl_op multiset" where
  "cleanup_ops (COp o' xs) = {#o'#}"
| "cleanup_ops _ = {#}"

fun reply_ops :: "reply_pc \<Rightarrow> tbl_op multiset" where
  "reply_ops (RRemove o') = {#o'#}"
| "reply_ops _ = {#}"

definition replies_ops :: "(nat \<times> reply_pc) multiset \<Rightarrow> tbl_op multiset" where
  "replies_ops rs = (\<Sum>x \<in># rs. reply_ops (snd x))"

definition port_ops :: "('m, 'c) udp_port \<Rightarrow> tbl_op multiset" where
  "port_ops p = listener_ops (up_listener p) + cleanup_ops (up_cleanup p) + replies_ops (up_replies p)"

section \<open>The cleanup task\<close>

text \<open>The lock of a shard keeps it as it is while the walk is at it; here the entries of a shard are
  read at one moment, and then the time of the last activity of each session at a later one.
  The flag \<open>timely\<close> restricts the runs to those in which the cleanup never removes a session
  between its insertion into the table and the recording of its opening.\<close>

definition stale_entry :: "u64 \<Rightarrow> 'm session_table \<Rightarrow> socket_addr \<times> nat \<Rightarrow> victims" where
  "stale_entry now tb e =
     (if cleanup_timeout tb \<le> saturating_sub now (us_last_active_epoch (tb_arena tb ! snd e))
      then [(fst e, us_id (tb_arena tb ! snd e))] else [])"

inductive cleanup_step ::
    "'m session_map \<Rightarrow> bool \<Rightarrow> step_kind \<Rightarrow> ('m, 'c) udp_port \<Rightarrow> ('m, 'c) udp_port \<Rightarrow> bool"
  for D :: "'m session_map" and timely :: bool where
  c_shutdown: "up_cleanup p = CWait \<Longrightarrow> up_shutdown p \<Longrightarrow>
    cleanup_step D timely Progress p (p\<lparr>up_cleanup := CDone\<rparr>)"
| c_tick: "up_cleanup p = CWait \<Longrightarrow>
    cleanup_step D timely Input p (p\<lparr>up_cleanup := CScan now 0 [] []\<rparr>)"
| c_shard: "up_cleanup p = CScan now i [] xs \<Longrightarrow> i < dm_shards D \<Longrightarrow>
    cleanup_step D timely Progress p
      (p\<lparr>up_cleanup := CScan now (Suc i) (dm_shard D (tb_sessions (up_table p)) i) xs\<rparr>)"
| c_entry: "up_cleanup p = CScan now i (e # es) xs \<Longrightarrow>
    cleanup_step D timely Progress p
      (p\<lparr>up_cleanup := CScan now i es (xs @ stale_entry now (up_table p) e)\<rparr>)"
| c_scanned: "up_cleanup p = CScan now i [] xs \<Longrightarrow> dm_shards D \<le> i \<Longrightarrow>
    cleanup_step D timely Progress p (p\<lparr>up_cleanup := CRemove xs\<rparr>)"
| c_removed: "up_cleanup p = CRemove [] \<Longrightarrow> cleanup_step D timely Progress p (p\<lparr>up_cleanup := CWait\<rparr>)"
| c_remove: "up_cleanup p = CRemove ((source, i) # xs) \<Longrightarrow>
    cleanup_step D timely Progress p (p\<lparr>up_cleanup := COp (OpRemove source i) xs\<rparr>)"
| c_op: "up_cleanup p = COp o' xs \<Longrightarrow> table_op D sys target now o' (up_table p) = (tb, k) \<Longrightarrow>
    (timely \<Longrightarrow> in_time D o' (up_table p) (port_ops (p\<lparr>up_cleanup := CWait\<rparr>))) \<Longrightarrow>
    cleanup_step D timely Progress p
      (p\<lparr>up_table := tb, up_cleanup := (case k of Some o'' \<Rightarrow> COp o'' xs | None \<Rightarrow> CRemove xs)\<rparr>)"

section \<open>The reply loops\<close>

definition reply_goes :: "nat \<Rightarrow> reply_pc \<Rightarrow> reply_pc option \<Rightarrow> ('m, 'c) udp_port \<Rightarrow> ('m, 'c) udp_port" where
  "reply_goes r pc pc' p =
     p\<lparr>up_replies := (up_replies p - {#(r, pc)#}) + (case pc' of Some q \<Rightarrow> {#(r, q)#} | None \<Rightarrow> {#})\<rparr>"

abbreviation the_session :: "('m, 'c) udp_port \<Rightarrow> nat \<Rightarrow> udp_session" where
  "the_session p r \<equiv> tb_arena (up_table p) ! r"

definition leave :: "('m, 'c) udp_port \<Rightarrow> nat \<Rightarrow> reply_pc" where
  "leave p r = RRemove (OpRemove (us_source (the_session p r)) (us_id (the_session p r)))"

definition reply_to :: "('m, 'c) udp_port \<Rightarrow> nat \<Rightarrow> u8 list \<Rightarrow> reply_packet" where
  "reply_to p r payload = \<lparr>rp_dst = us_source (the_session p r), rp_payload = payload, rp_bytes = length payload\<rparr>"

definition after_try_send :: "('m, 'c) udp_port \<Rightarrow> nat \<Rightarrow> try_send \<Rightarrow> u8 list list \<Rightarrow> reply_pc" where
  "after_try_send p r res payloads =
     (case res of Sent \<Rightarrow> RTouch payloads | Full \<Rightarrow> RDrop payloads | Closed \<Rightarrow> leave p r)"

definition refused :: "('m, 'c) udp_port \<Rightarrow> nat \<Rightarrow> try_send \<Rightarrow> u8 list \<Rightarrow> u8 list list \<Rightarrow> traffic list" where
  "refused p r res payload payloads =
     (case res of
        Sent \<Rightarrow> []
      | Full \<Rightarrow> [QueueFull (reply_to p r payload)]
      | Closed \<Rightarrow> [ThrownAway (map (reply_to p r) (payload # payloads))])"

inductive reply_step ::
    "'m session_map \<Rightarrow> 'c reply_chan \<Rightarrow> step_kind \<Rightarrow> ('m, 'c) udp_port \<Rightarrow> ('m, 'c) udp_port \<Rightarrow> bool"
  for D :: "'m session_map" and C :: "'c reply_chan" where
  r_cancelled: "(r, RWait) \<in># up_replies p \<Longrightarrow> up_shutdown p \<or> us_shutdown (the_session p r) \<Longrightarrow>
    reply_step D C Progress p (reply_goes r RWait (Some (leave p r)) p)"
| r_receive: "(r, RWait) \<in># up_replies p \<Longrightarrow> \<forall>x \<in> set payloads. x \<noteq> [] \<Longrightarrow>
    reply_step D C Input p (logged [FromTarget r payloads] (reply_goes r RWait (Some (RQueue payloads)) p))"
| r_transient: "(r, RWait) \<in># up_replies p \<Longrightarrow> transient e \<Longrightarrow> reply_step D C Input p p"
| r_error: "(r, RWait) \<in># up_replies p \<Longrightarrow> \<not> transient e \<Longrightarrow>
    reply_step D C Input p (reply_goes r RWait (Some (leave p r)) p)"
| r_empty: "(r, RQueue []) \<in># up_replies p \<Longrightarrow>
    reply_step D C Progress p (reply_goes r (RQueue []) (Some RWait) p)"
| r_send: "(r, RQueue (payload # payloads)) \<in># up_replies p \<Longrightarrow>
    ch_try_send C (up_chan p) (reply_to p r payload) = (c, res) \<Longrightarrow>
    reply_step D C Progress p
      (logged (refused p r res payload payloads)
        (reply_goes r (RQueue (payload # payloads)) (Some (after_try_send p r res payloads)) (p\<lparr>up_chan := c\<rparr>)))"
| r_touch: "(r, RTouch payloads) \<in># up_replies p \<Longrightarrow>
    reply_step D C Progress p
      (on_table (on_session r (session_touch now)) (reply_goes r (RTouch payloads) (Some (RQueue payloads)) p))"
| r_drop: "(r, RDrop payloads) \<in># up_replies p \<Longrightarrow>
    reply_step D C Progress p (on_table count_drop (reply_goes r (RDrop payloads) (Some (RQueue payloads)) p))"
| r_remove: "(r, RRemove o') \<in># up_replies p \<Longrightarrow> table_op D sys target now o' (up_table p) = (tb, k) \<Longrightarrow>
    reply_step D C Progress p
      (reply_goes r (RRemove o') (case k of Some o'' \<Rightarrow> Some (RRemove o'') | None \<Rightarrow> None) (p\<lparr>up_table := tb\<rparr>))"

section \<open>The sender task\<close>

definition count_out :: "reply_packet list \<Rightarrow> 'm session_table \<Rightarrow> 'm session_table" where
  "count_out pkts tb = tb\<lparr>tb_stats := count_sent pkts (tb_stats tb)\<rparr>"

text \<open>When it ends, the receiver is dropped, which closes the channel. \<open>recv_many\<close> waits while the
  channel is empty, unless all holders of a sending half are gone: the table, which the receive
  loop drops after the cleanup task has ended, and the reply loops.\<close>

definition sender_ends :: "'c reply_chan \<Rightarrow> ('m, 'c) udp_port \<Rightarrow> ('m, 'c) udp_port" where
  "sender_ends C p =
     logged [ThrownAway (ch_items C (up_chan p))] (p\<lparr>up_sender := SDone, up_chan := ch_close C (up_chan p)\<rparr>)"

inductive sender_step :: "'c reply_chan \<Rightarrow> step_kind \<Rightarrow> ('m, 'c) udp_port \<Rightarrow> ('m, 'c) udp_port \<Rightarrow> bool"
  for C :: "'c reply_chan" where
  s_shutdown: "up_sender p = SWait \<Longrightarrow> up_shutdown p \<Longrightarrow>
    sender_step C Progress p (sender_ends C p)"
| s_producers_gone: "up_sender p = SWait \<Longrightarrow> ch_items C (up_chan p) = [] \<Longrightarrow> up_listener p = LJoinSender \<Longrightarrow>
    up_replies p = {#} \<Longrightarrow>
    sender_step C Progress p (sender_ends C p)"
| s_recv: "up_sender p = SWait \<Longrightarrow> ch_recv_many C (up_chan p) send_batch_size = (c, pkts) \<Longrightarrow> pkts \<noteq> [] \<Longrightarrow>
    sender_step C Progress p (p\<lparr>up_sender := SFlush pkts, up_chan := c\<rparr>)"
| s_flushed: "up_sender p = SFlush [] \<Longrightarrow> sender_step C Progress p (p\<lparr>up_sender := SWait\<rparr>)"
| s_sent: "up_sender p = SFlush pkts \<Longrightarrow> 0 < n \<Longrightarrow> n \<le> length pkts \<Longrightarrow>
    sender_step C Progress p (logged [ToClients (take n pkts)]
      (on_table (count_out (take n pkts)) (p\<lparr>up_sender := SFlush (drop n pkts)\<rparr>)))"
| s_stopped: "up_sender p = SFlush pkts \<Longrightarrow> pkts \<noteq> [] \<Longrightarrow>
    sender_step C Progress p (logged [ThrownAway pkts] (p\<lparr>up_sender := SWait\<rparr>))"

section \<open>The port\<close>

inductive port_step ::
    "'m session_map \<Rightarrow> 'c reply_chan \<Rightarrow> bool \<Rightarrow> step_kind \<Rightarrow> ('m, 'c) udp_port \<Rightarrow> ('m, 'c) udp_port \<Rightarrow> bool"
  for D :: "'m session_map" and C :: "'c reply_chan" and timely :: bool where
  p_listener: "listener_step D kind p p' \<Longrightarrow> port_step D C timely kind p p'"
| p_cleanup: "cleanup_step D timely kind p p' \<Longrightarrow> port_step D C timely kind p p'"
| p_reply: "reply_step D C kind p p' \<Longrightarrow> port_step D C timely kind p p'"
| p_sender: "sender_step C kind p p' \<Longrightarrow> port_step D C timely kind p p'"
| p_shutdown: "\<not> up_shutdown p \<Longrightarrow> port_step D C timely Input p (p\<lparr>up_shutdown := True\<rparr>)"

text \<open>The cases of a step, for all tasks at once.\<close>

lemmas task_stepE = listener_step.cases cleanup_step.cases reply_step.cases sender_step.cases

inductive port_reach ::
    "'m session_map \<Rightarrow> 'c reply_chan \<Rightarrow> bool \<Rightarrow> ('m, 'c) udp_port \<Rightarrow> ('m, 'c) udp_port \<Rightarrow> bool"
  for D :: "'m session_map" and C :: "'c reply_chan" and timely :: bool and p0 :: "('m, 'c) udp_port" where
  p_here: "port_reach D C timely p0 p0"
| p_step: "port_reach D C timely p0 p \<Longrightarrow> port_step D C timely kind p p' \<Longrightarrow> port_reach D C timely p0 p'"

end
