(* ===== verification/Udp_System_Inv.thy ===== *)
theory Udp_System_Inv
  imports Udp_System
begin

text \<open>
  The invariant of a UDP port with all its tasks: the one of the session table for the
  operations in flight; which task is in which kind of operation; every listed session is
  served by a reply loop; after the receive loop has ended, only the sessions it is about to
  remove are left; the reply queue is bounded; and the gauge of flows, when the cleanup is
  timely.
\<close>

section \<open>What the operations of the tasks do to the table\<close>

fun getting :: "tbl_op \<Rightarrow> bool" where
  "getting (OpRemove s i) \<longleftrightarrow> False"
| "getting (OpCancel r) \<longleftrightarrow> False"
| "getting (OpMark r) \<longleftrightarrow> False"
| "getting OpClose \<longleftrightarrow> False"
| "getting _ \<longleftrightarrow> True"

fun publishes :: "nat \<Rightarrow> tbl_op \<Rightarrow> bool" where
  "publishes r (OpEntry s r') \<longleftrightarrow> r' = r"
| "publishes r (OpOpen r') \<longleftrightarrow> r' = r"
| "publishes r (OpSpawn r') \<longleftrightarrow> r' = r"
| "publishes r _ \<longleftrightarrow> False"

text \<open>The arena keeps identifiers and clients, the map gains nothing.\<close>

definition shrinks :: "'m session_map \<Rightarrow> 'm session_table \<Rightarrow> 'm session_table \<Rightarrow> bool" where
  "shrinks D tb tb' \<longleftrightarrow>
     length (tb_arena tb') = length (tb_arena tb) \<and>
     (\<forall>r < length (tb_arena tb). us_source (tb_arena tb' ! r) = us_source (tb_arena tb ! r) \<and>
        us_id (tb_arena tb' ! r) = us_id (tb_arena tb ! r)) \<and>
     (\<forall>k r. dm_get D (tb_sessions tb') k = Some r \<longrightarrow> dm_get D (tb_sessions tb) k = Some r)"

lemma shrinks_refl [simp]: "shrinks D tb tb"
  by (simp add: shrinks_def)

lemma shrinks_touch [simp]: "shrinks D tb (on_session r (session_touch now) tb)"
  by (simp add: shrinks_def)

lemma shrinks_counts [simp]:
  "shrinks D tb (count_in b tb)" "shrinks D tb (count_drop tb)" "shrinks D tb (count_out pkts tb)"
  by (simp_all add: shrinks_def count_in_def count_drop_def count_out_def)

lemma shrinks_listed: "shrinks D tb tb' \<Longrightarrow> listed D tb' r \<Longrightarrow> listed D tb r"
  by (auto simp: shrinks_def listed_def)

lemma getting_next: "table_op D sys target now o' tb = (tb', Some o'') \<Longrightarrow> getting o'' = getting o'"
  by (cases o') (auto split: option.splits sum.splits prod.splits if_splits)

context session_dashmap
begin

lemma removing_shrinks:
  assumes "table_op D sys target now o' tb = (tb', k)" and "\<not> getting o'"
  shows "shrinks D tb tb'"
  using assms
  by (cases o')
    (auto simp: shrinks_def get_remove split: option.splits prod.splits if_splits
      dest!: arg_cong [where f = fst, of "dm_remove_if _ _ _ _"])

lemma remove_gone:
  assumes "table_op D sys target now (OpRemove s i) tb = (tb', k)" and "dm_get D (tb_sessions tb') s = Some r"
  shows "us_id (tb_arena tb ! r) \<noteq> i"
  using assms get_remove [of "tb_sessions tb" s "\<lambda>c. us_id (tb_arena tb ! c) = i"]
  by (auto split: option.splits prod.splits if_splits)

lemma getting_effect:
  assumes "table_op D sys target now o' tb = (tb', k)" and "getting o'"
  shows "length (tb_arena tb) \<le> length (tb_arena tb')"
    and "\<And>r. r < length (tb_arena tb) \<Longrightarrow> us_source (tb_arena tb' ! r) = us_source (tb_arena tb ! r) \<and>
      us_id (tb_arena tb' ! r) = us_id (tb_arena tb ! r)"
    and "\<And>a r. dm_get D (tb_sessions tb') a = Some r \<Longrightarrow>
      dm_get D (tb_sessions tb) a = Some r \<or> publishes r o' \<and> k = Some (OpOpen r)"
    and "\<And>o'' r. k = Some o'' \<Longrightarrow> publishes r o'' \<Longrightarrow> publishes r o' \<or> r = length (tb_arena tb)"
    and "\<And>r. o' = OpOpen r \<Longrightarrow> k = Some (OpSpawn r)" and "\<And>r. o' = OpSpawn r \<Longrightarrow> k = None"
  using assms
  by (cases o'; auto simp: new_session_def get_insert nth_append split: option.splits sum.splits prod.splits if_splits)+

end

section \<open>Operations in flight\<close>

lemma table_inv_start:
  "table_inv D tb ops \<Longrightarrow> table_inv D tb (add_mset (OpLookup s) ops)"
  "table_inv D tb ops \<Longrightarrow> table_inv D tb (add_mset (OpRemove s i) ops)"
  by (simp_all add: table_inv_def)

lemma table_inv_stats: "table_inv D (tb\<lparr>tb_stats := st\<rparr>) ops = table_inv D tb ops"
proof -
  have "op_ok D (tb\<lparr>tb_stats := st\<rparr>) p = op_ok D tb p" for p by (cases p) (simp_all add: listed_def)
  then show ?thesis by (simp add: table_inv_def sessions_ok_def ids_ok_def)
qed

lemma table_inv_touch: "table_inv D tb ops \<Longrightarrow> table_inv D (on_session r (session_touch now) tb) ops"
  by (auto simp: table_inv_def sessions_ok_def ids_ok_def op_ok_touch)

lemma gauge_start:
  "gauge_inv D tb ops \<Longrightarrow> gauge_inv D tb (add_mset (OpLookup s) ops)"
  "gauge_inv D tb ops \<Longrightarrow> gauge_inv D tb (add_mset (OpRemove s i) ops)"
  by (simp_all add: gauge_inv_def opened_def)

lemma gauge_same_flows:
  assumes "gauge_inv D tb ops" and "tb_sessions tb' = tb_sessions tb" and "flows tb' = flows tb"
    and "length (tb_arena tb') = length (tb_arena tb)"
    and "\<And>r. r < length (tb_arena tb) \<Longrightarrow> us_source (tb_arena tb' ! r) = us_source (tb_arena tb ! r)"
    and "\<And>r. OpOpen r \<in># ops \<Longrightarrow> r < length (tb_arena tb)"
  shows "gauge_inv D tb' ops"
  using assms by (simp add: gauge_inv_def opened_def)

lemma replies_ops_simps [simp]:
  "replies_ops {#} = {#}" "replies_ops (add_mset x rs) = reply_ops (snd x) + replies_ops rs"
  "replies_ops (rs + rs') = replies_ops rs + replies_ops rs'"
  by (simp_all add: replies_ops_def)

section \<open>The invariant\<close>

definition reply_ok :: "'m session_map \<Rightarrow> 'm session_table \<Rightarrow> nat \<times> reply_pc \<Rightarrow> bool" where
  "reply_ok D tb x \<longleftrightarrow>
     fst x < length (tb_arena tb) \<and>
     (\<forall>o'. snd x = RRemove o' \<longrightarrow> \<not> getting o' \<and>
        (o' = OpRemove (us_source (tb_arena tb ! fst x)) (us_id (tb_arena tb ! fst x)) \<or>
         (\<forall>s i. o' \<noteq> OpRemove s i) \<and> \<not> listed D tb (fst x)))"

definition pcs_ok :: "listener_pc \<Rightarrow> cleanup_pc \<Rightarrow> bool" where
  "pcs_ok l c \<longleftrightarrow>
     (case l of LGet o' b xs \<Rightarrow> getting o' | LRemoveOp o' xs \<Rightarrow> \<not> getting o' | _ \<Rightarrow> True) \<and>
     (case c of COp o' xs \<Rightarrow> \<not> getting o' | _ \<Rightarrow> True)"

text \<open>A session that is being published has no reply loop yet.\<close>

definition fresh_ok :: "listener_pc \<Rightarrow> (nat \<times> reply_pc) multiset \<Rightarrow> bool" where
  "fresh_ok l rs \<longleftrightarrow> (\<forall>o' b xs r. l = LGet o' b xs \<longrightarrow> publishes r o' \<longrightarrow> r \<notin> fst ` set_mset rs)"

fun publishing :: "nat \<Rightarrow> listener_pc \<Rightarrow> bool" where
  "publishing r (LGet (OpOpen r') b xs) \<longleftrightarrow> r' = r"
| "publishing r (LGet (OpSpawn r') b xs) \<longleftrightarrow> r' = r"
| "publishing r l \<longleftrightarrow> False"

definition served :: "'m session_map \<Rightarrow> 'm session_table \<Rightarrow> listener_pc \<Rightarrow> (nat \<times> reply_pc) multiset \<Rightarrow> bool" where
  "served D tb l rs \<longleftrightarrow>
     (\<forall>k r. dm_get D (tb_sessions tb) k = Some r \<longrightarrow> r \<in> fst ` set_mset rs \<or> publishing r l)"

text \<open>After the loop of the listener, what is listed is still to be found or removed by it.\<close>

fun due :: "'m session_map \<Rightarrow> listener_pc \<Rightarrow> socket_addr \<times> u64 \<Rightarrow> bool" where
  "due D (LScan i xs) x \<longleftrightarrow> i \<le> dm_at D (fst x) \<or> x \<in> set xs"
| "due D (LRemove xs) x \<longleftrightarrow> x \<in> set xs"
| "due D (LRemoveOp o' xs) x \<longleftrightarrow> x \<in> set xs \<or> o' = OpRemove (fst x) (snd x)"
| "due D LJoinCleanup x \<longleftrightarrow> False"
| "due D LJoinSender x \<longleftrightarrow> False"
| "due D LReturned x \<longleftrightarrow> False"
| "due D l x \<longleftrightarrow> True"

definition due_ok :: "'m session_map \<Rightarrow> 'm session_table \<Rightarrow> listener_pc \<Rightarrow> bool" where
  "due_ok D tb l \<longleftrightarrow>
     (\<forall>k r. dm_get D (tb_sessions tb) k = Some r \<longrightarrow> due D l (k, us_id (tb_arena tb ! r)))"

definition chan_ok :: "'c reply_chan \<Rightarrow> 'c \<Rightarrow> sender_pc \<Rightarrow> bool" where
  "chan_ok C c s \<longleftrightarrow>
     length (ch_items C c) \<le> 512 \<and> (ch_open C c \<longrightarrow> ch_capacity C c = 512) \<and>
     (case s of SFlush pkts \<Rightarrow> length pkts \<le> 32 | _ \<Rightarrow> True)"

definition tasks_ok ::
    "'m session_map \<Rightarrow> 'm session_table \<Rightarrow> listener_pc \<Rightarrow> cleanup_pc \<Rightarrow> (nat \<times> reply_pc) multiset \<Rightarrow> bool" where
  "tasks_ok D tb l c rs \<longleftrightarrow>
     (\<forall>x \<in># rs. reply_ok D tb x) \<and> pcs_ok l c \<and> fresh_ok l rs \<and> served D tb l rs \<and> due_ok D tb l"

definition port_inv :: "'m session_map \<Rightarrow> 'c reply_chan \<Rightarrow> ('m, 'c) udp_port \<Rightarrow> bool" where
  "port_inv D C p \<longleftrightarrow>
     table_inv D (up_table p) (port_ops p) \<and>
     tasks_ok D (up_table p) (up_listener p) (up_cleanup p) (up_replies p) \<and>
     chan_ok C (up_chan p) (up_sender p)"

definition port_gauge :: "'m session_map \<Rightarrow> ('m, 'c) udp_port \<Rightarrow> bool" where
  "port_gauge D p \<longleftrightarrow>
     (length (tb_arena (up_table p)) < 2 ^ 64 \<longrightarrow> gauge_inv D (up_table p) (port_ops p))"

lemma reply_ok_shrinks:
  assumes "shrinks D tb tb'" and "reply_ok D tb x"
  shows "reply_ok D tb' x"
proof -
  have "listed D tb' (fst x) \<Longrightarrow> listed D tb (fst x)" by (rule shrinks_listed [OF assms(1)])
  moreover have "us_source (tb_arena tb' ! fst x) = us_source (tb_arena tb ! fst x)"
    "us_id (tb_arena tb' ! fst x) = us_id (tb_arena tb ! fst x)" "length (tb_arena tb') = length (tb_arena tb)"
    using assms by (simp_all add: shrinks_def reply_ok_def)
  ultimately show ?thesis using assms(2) unfolding reply_ok_def by auto
qed

lemma tasks_shrinks:
  assumes "shrinks D tb tb'" and "sessions_ok D tb" and "tasks_ok D tb l c rs"
  shows "tasks_ok D tb' l c rs"
proof -
  have "served D tb' l rs" using assms(1,3) unfolding tasks_ok_def served_def shrinks_def by blast
  moreover have "due_ok D tb' l"
    unfolding due_ok_def
  proof (intro allI impI)
    fix k r assume "dm_get D (tb_sessions tb') k = Some r"
    with assms(1) have get: "dm_get D (tb_sessions tb) k = Some r" unfolding shrinks_def by blast
    with assms(2) have "r < length (tb_arena tb)" unfolding sessions_ok_def by blast
    with assms(1) have "us_id (tb_arena tb' ! r) = us_id (tb_arena tb ! r)" unfolding shrinks_def by blast
    with get assms(3) show "due D l (k, us_id (tb_arena tb' ! r))" by (metis due_ok_def tasks_ok_def)
  qed
  ultimately show ?thesis
    using assms(3) reply_ok_shrinks [OF assms(1)] by (simp add: tasks_ok_def)
qed

text \<open>Changes of the tasks' places while the table stays.\<close>

lemma tasks_listener:
  assumes "tasks_ok D tb l c rs" and "pcs_ok l' c" and "fresh_ok l' rs"
    and "\<And>r. publishing r l \<Longrightarrow> publishing r l'" and "\<And>x. due D l x \<Longrightarrow> due D l' x"
  shows "tasks_ok D tb l' c rs"
  using assms unfolding tasks_ok_def served_def due_ok_def by blast

lemma tasks_cleanup: "tasks_ok D tb l c rs \<Longrightarrow> pcs_ok l c' \<Longrightarrow> tasks_ok D tb l c' rs"
  by (simp add: tasks_ok_def)

lemma tasks_reply:
  assumes "tasks_ok D tb l c (add_mset (r, pc) rest)" and "reply_ok D tb (r, pc')"
  shows "tasks_ok D tb l c (add_mset (r, pc') rest)"
  using assms by (auto simp: tasks_ok_def fresh_ok_def served_def)

lemma tasks_reply_ends:
  assumes "tasks_ok D tb l c (add_mset (r, pc) rest)" and "\<not> listed D tb r"
  shows "tasks_ok D tb l c rest"
proof -
  have "served D tb l rest"
    unfolding served_def
  proof (intro allI impI)
    fix k i assume get: "dm_get D (tb_sessions tb) k = Some i"
    with assms(2) have "i \<noteq> r" by (auto simp: listed_def)
    moreover have "i \<in> fst ` set_mset (add_mset (r, pc) rest) \<or> publishing i l"
      using get assms(1) unfolding tasks_ok_def served_def by blast
    ultimately show "i \<in> fst ` set_mset rest \<or> publishing i l" by auto
  qed
  with assms(1) show ?thesis by (simp add: tasks_ok_def fresh_ok_def)
qed

lemma reply_goes_simps [simp]:
  "up_table (reply_goes r pc pc' p) = up_table p" "up_chan (reply_goes r pc pc' p) = up_chan p"
  "up_listener (reply_goes r pc pc' p) = up_listener p" "up_cleanup (reply_goes r pc pc' p) = up_cleanup p"
  "up_sender (reply_goes r pc pc' p) = up_sender p" "up_shutdown (reply_goes r pc pc' p) = up_shutdown p"
  "up_log (reply_goes r pc pc' p) = up_log p"
  by (simp_all add: reply_goes_def)

lemma reply_goes_replies [simp]:
  "up_replies p = add_mset (r, pc) rest \<Longrightarrow>
   up_replies (reply_goes r pc pc' p) = (case pc' of Some q \<Rightarrow> add_mset (r, q) rest | None \<Rightarrow> rest)"
  by (simp add: reply_goes_def split: option.splits)

lemma on_table_simps [simp]:
  "up_table (on_table f p) = f (up_table p)" "up_chan (on_table f p) = up_chan p"
  "up_listener (on_table f p) = up_listener p" "up_cleanup (on_table f p) = up_cleanup p"
  "up_sender (on_table f p) = up_sender p" "up_shutdown (on_table f p) = up_shutdown p"
  "up_replies (on_table f p) = up_replies p" "up_log (on_table f p) = up_log p"
  by (simp_all add: on_table_def)

lemma logged_simps [simp]:
  "up_table (logged evs p) = up_table p" "up_chan (logged evs p) = up_chan p"
  "up_listener (logged evs p) = up_listener p" "up_cleanup (logged evs p) = up_cleanup p"
  "up_sender (logged evs p) = up_sender p" "up_shutdown (logged evs p) = up_shutdown p"
  "up_replies (logged evs p) = up_replies p" "up_log (logged evs p) = up_log p @ evs"
  by (simp_all add: logged_def)

lemma sender_ends_simps [simp]:
  "up_table (sender_ends C p) = up_table p" "up_chan (sender_ends C p) = ch_close C (up_chan p)"
  "up_listener (sender_ends C p) = up_listener p" "up_cleanup (sender_ends C p) = up_cleanup p"
  "up_sender (sender_ends C p) = SDone" "up_shutdown (sender_ends C p) = up_shutdown p"
  "up_replies (sender_ends C p) = up_replies p"
  "up_log (sender_ends C p) = up_log p @ [ThrownAway (ch_items C (up_chan p))]"
  by (simp_all add: sender_ends_def)

lemma reply_ok_plain: "reply_ok D tb (r, pc) \<Longrightarrow> (\<And>o'. pc' \<noteq> RRemove o') \<Longrightarrow> reply_ok D tb (r, pc')"
  by (simp add: reply_ok_def)

lemma reply_ok_leave: "reply_ok D (up_table p) (r, pc) \<Longrightarrow> reply_ok D (up_table p) (r, leave p r)"
  by (simp add: reply_ok_def leave_def)

section \<open>The steps of the receive loop\<close>

lemma pcs_ok_plain:
  "pcs_ok l c \<Longrightarrow> (\<And>o' b xs. l' \<noteq> LGet o' b xs) \<Longrightarrow> (\<And>o' xs. l' \<noteq> LRemoveOp o' xs) \<Longrightarrow> pcs_ok l' c"
  by (auto simp: pcs_ok_def split: listener_pc.splits)

lemma fresh_ok_plain: "(\<And>o' b xs. l' \<noteq> LGet o' b xs) \<Longrightarrow> fresh_ok l' rs"
  by (simp add: fresh_ok_def)

lemma tasks_parts:
  assumes "tasks_ok D tb l c rs"
  shows "x \<in># rs \<Longrightarrow> reply_ok D tb x" and "pcs_ok l c" and "fresh_ok l rs" and "served D tb l rs" and "due_ok D tb l"
  using assms by (auto simp: tasks_ok_def)

lemma due_getting: "(\<And>i xs. l \<noteq> LScan i xs) \<Longrightarrow> (\<And>xs. l \<noteq> LRemove xs) \<Longrightarrow> (\<And>o' xs. l \<noteq> LRemoveOp o' xs) \<Longrightarrow>
    l \<noteq> LJoinCleanup \<Longrightarrow> l \<noteq> LJoinSender \<Longrightarrow> l \<noteq> LReturned \<Longrightarrow> due D l x"
  by (cases l) auto

lemma after_get_cases:
  obtains o'' where "k = Some o''" and "after_get o' k b xs = LGet o'' b xs"
  | r where "k = None" and "got o' = Some r" and "after_get o' k b xs = LSend r b xs"
  | "k = None" and "got o' = None" and "after_get o' k b xs = LSlots xs"
  by (cases k; cases "got o'") (auto simp: after_get_def)

lemma due_after_get: "due D (after_get o' k b xs) x"
  by (rule after_get_cases [of k o' b xs]) auto

context session_dashmap
begin

lemma tasks_get:
  assumes "tasks_ok D tb (LGet o' b xs) c rs" and "op_ok D tb o'"
    and "table_op D sys target now o' tb = (tb', k)"
  shows "tasks_ok D tb' (after_get o' k b xs) c (rs + spawned o')"
proof -
  note parts = tasks_parts [OF assms(1)]
  have getting: "getting o'" using parts(2) by (simp add: pcs_ok_def)
  note effect = getting_effect [OF assms(3) getting]
  have kept: "getting o''" if "k = Some o''" for o'' using getting_next assms(3) getting that by blast
  have fresh: "r \<notin> fst ` set_mset rs" if "publishes r o'" for r using parts(3) that by (simp add: fresh_ok_def)
  have small: "fst x < length (tb_arena tb)" if "x \<in># rs" for x using parts(1) [OF that] by (simp add: reply_ok_def)
  have old: "reply_ok D tb' x" if x: "x \<in># rs" for x
  proof -
    have "listed D tb (fst x)" if "listed D tb' (fst x)"
      using that effect(3) fresh [of "fst x"] x unfolding listed_def by blast
    with parts(1) [OF x] effect(1) effect(2) [OF small [OF x]] show ?thesis by (auto simp: reply_ok_def)
  qed
  have "reply_ok D tb' x" if "x \<in># spawned o'" for x
    using that assms(2) effect(1) by (cases o') (auto simp: reply_ok_def)
  moreover have "pcs_ok (after_get o' k b xs) c"
  proof (rule after_get_cases [of k o' b xs])
    fix o'' assume "k = Some o''" "after_get o' k b xs = LGet o'' b xs"
    then show ?thesis using parts(2) kept by (auto simp: pcs_ok_def)
  qed (use parts(2) in \<open>auto simp: pcs_ok_def\<close>)
  moreover have "fresh_ok (after_get o' k b xs) (rs + spawned o')"
  proof (rule after_get_cases [of k o' b xs])
    fix o'' assume o'': "k = Some o''" "after_get o' k b xs = LGet o'' b xs"
    have "spawned o' = {#}" using effect(6) o''(1) by (cases o') auto
    moreover have "r \<notin> fst ` set_mset rs" if "publishes r o''" for r
    proof
      assume "r \<in> fst ` set_mset rs"
      then obtain x where x: "x \<in># rs" "r = fst x" by blast
      from effect(4) [OF o''(1) that] fresh [of r] x small [OF x(1)] show False by auto
    qed
    ultimately show ?thesis using o''(2) by (simp add: fresh_ok_def)
  qed (auto simp: fresh_ok_def)
  moreover have "served D tb' (after_get o' k b xs) (rs + spawned o')"
    unfolding served_def
  proof (intro allI impI)
    fix a r assume "dm_get D (tb_sessions tb') a = Some r"
    from effect(3) [OF this]
    show "r \<in> fst ` set_mset (rs + spawned o') \<or> publishing r (after_get o' k b xs)"
    proof
      assume "dm_get D (tb_sessions tb) a = Some r"
      with parts(4) have "r \<in> fst ` set_mset rs \<or> publishing r (LGet o' b xs)" unfolding served_def by blast
      then show ?thesis
      proof
        assume "publishing r (LGet o' b xs)"
        then show ?thesis using effect(5) by (cases o') (auto simp: after_get_def)
      qed auto
    qed (simp add: after_get_def)
  qed
  moreover have "due_ok D tb' (after_get o' k b xs)" by (simp add: due_ok_def due_after_get)
  ultimately show ?thesis using old by (auto simp: tasks_ok_def)
qed

lemma tasks_remove_op:
  assumes "tasks_ok D tb (LRemoveOp o' xs) c rs" and "sessions_ok D tb"
    and "table_op D sys target now o' tb = (tb', k)"
  shows "tasks_ok D tb' (case k of Some o'' \<Rightarrow> LRemoveOp o'' xs | None \<Rightarrow> LRemove xs) c rs"
proof -
  note parts = tasks_parts [OF assms(1)]
  have removing: "\<not> getting o'" using parts(2) by (simp add: pcs_ok_def)
  have kept: "\<not> getting o''" if "k = Some o''" for o'' using getting_next assms(3) removing that by blast
  have shr: "shrinks D tb tb'" by (rule removing_shrinks [OF assms(3) removing])
  note new = tasks_parts [OF tasks_shrinks [OF shr assms(2,1)]]
  let ?l = "case k of Some o'' \<Rightarrow> LRemoveOp o'' xs | None \<Rightarrow> LRemove xs"
  have "pcs_ok ?l c" using parts(2) kept by (auto simp: pcs_ok_def split: option.splits)
  moreover have "fresh_ok ?l rs" by (simp add: fresh_ok_def split: option.splits)
  moreover have "served D tb' ?l rs" using new(4) by (auto simp: served_def split: option.splits)
  moreover have "due_ok D tb' ?l"
    unfolding due_ok_def
  proof (intro allI impI)
    fix a r assume get: "dm_get D (tb_sessions tb') a = Some r"
    with new(5) have "due D (LRemoveOp o' xs) (a, us_id (tb_arena tb' ! r))" unfolding due_ok_def by blast
    moreover have "o' \<noteq> OpRemove a (us_id (tb_arena tb' ! r))"
    proof
      assume o': "o' = OpRemove a (us_id (tb_arena tb' ! r))"
      have "r < length (tb_arena tb)" using shr get assms(2) unfolding shrinks_def sessions_ok_def by blast
      then have "us_id (tb_arena tb' ! r) = us_id (tb_arena tb ! r)" using shr unfolding shrinks_def by blast
      with remove_gone [OF assms(3) [unfolded o'] get] show False by simp
    qed
    ultimately show "due D ?l (a, us_id (tb_arena tb' ! r))" by (auto split: option.splits)
  qed
  ultimately show ?thesis using new(1) by (simp add: tasks_ok_def)
qed

lemma tasks_shutdown:
  assumes "tasks_ok D tb LWait c rs"
  shows "tasks_ok D tb (LScan 0 []) c rs"
  by (rule tasks_listener [OF assms]) (use tasks_parts(2) [OF assms] in \<open>simp_all add: pcs_ok_def fresh_ok_def\<close>)

lemma tasks_scan:
  assumes "tasks_ok D tb (LScan i xs) c rs" and "i < dm_shards D"
  shows "tasks_ok D tb (LScan (Suc i) (xs @ shard_sessions D i tb)) c rs"
proof -
  have "due_ok D tb (LScan (Suc i) (xs @ shard_sessions D i tb))"
    unfolding due_ok_def
  proof (intro allI impI)
    fix k r assume get: "dm_get D (tb_sessions tb) k = Some r"
    then have "(k, r) \<in> set (dm_shard D (tb_sessions tb) i)" if "dm_at D k = i"
      using shard_get [OF assms(2)] that by blast
    then have "(k, us_id (tb_arena tb ! r)) \<in> set (shard_sessions D i tb)" if "dm_at D k = i"
      using that by (force simp: shard_sessions_def)
    moreover have "due D (LScan i xs) (k, us_id (tb_arena tb ! r))"
      using tasks_parts(5) [OF assms(1)] get by (simp add: due_ok_def)
    ultimately show "due D (LScan (Suc i) (xs @ shard_sessions D i tb)) (k, us_id (tb_arena tb ! r))"
      by (auto simp: not_less_eq_eq)
  qed
  with assms(1) show ?thesis by (simp add: tasks_ok_def pcs_ok_def fresh_ok_def served_def)
qed

lemma tasks_scanned:
  assumes "tasks_ok D tb (LScan i xs) c rs" and "dm_shards D \<le> i"
  shows "tasks_ok D tb (LRemove xs) c rs"
proof (rule tasks_listener [OF assms(1)])
  show "due D (LRemove xs) x" if "due D (LScan i xs) x" for x
    using that assms(2) at_shards [of "fst x"] by auto
qed (use tasks_parts(2) [OF assms(1)] in \<open>simp_all add: pcs_ok_def fresh_ok_def\<close>)

end

end
