(* ===== verification/Udp_System_Run.thy ===== *)
theory Udp_System_Run
  imports Udp_System_Inv
begin

text \<open>
  Every step of a UDP port preserves its invariant. What a step does to the table and the
  operations in flight is one of six moves, which preserve the invariants of the table.
\<close>

section \<open>The moves on the table\<close>

inductive table_moves ::
    "'m session_map \<Rightarrow> bool \<Rightarrow> 'm session_table \<Rightarrow> tbl_op multiset \<Rightarrow> 'm session_table \<Rightarrow> tbl_op multiset \<Rightarrow> bool"
  for D :: "'m session_map" and timely :: bool where
  m_stay: "table_moves D timely tb ops tb ops"
| m_get: "table_moves D timely tb ops tb (add_mset (OpLookup source) ops)"
| m_remove: "table_moves D timely tb ops tb (add_mset (OpRemove source i) ops)"
| m_act: "table_op D sys target now o' tb = (tb', k) \<Longrightarrow>
    (timely \<Longrightarrow> length (tb_arena tb) < 2 ^ 64 \<Longrightarrow> in_time D o' tb ops) \<Longrightarrow>
    table_moves D timely tb (add_mset o' ops) tb' (case k of None \<Rightarrow> ops | Some o'' \<Rightarrow> add_mset o'' ops)"
| m_touch: "table_moves D timely tb ops (on_session r (session_touch now) tb) ops"
| m_stats: "ps_udp_active_flows st = ps_udp_active_flows (tb_stats tb) \<Longrightarrow>
    table_moves D timely tb ops (tb\<lparr>tb_stats := st\<rparr>) ops"

lemma moves_count_in: "table_moves D timely tb ops (count_in payload tb) ops"
  unfolding count_in_def by (rule m_stats) (simp add: add_udp_in_def)

lemma moves_count_drop: "table_moves D timely tb ops (count_drop tb) ops"
  unfolding count_drop_def by (rule m_stats) (simp add: record_udp_drop_def)

lemma moves_count_out: "table_moves D timely tb ops (count_out pkts tb) ops"
proof -
  have "ps_udp_active_flows (count_sent pkts st) = ps_udp_active_flows st" for st
    unfolding count_sent_def by (induction pkts arbitrary: st) (simp_all add: add_udp_out_def)
  then show ?thesis unfolding count_out_def by (intro m_stats) simp
qed

lemma moves_arena: "table_moves D timely tb ops tb' ops' \<Longrightarrow> length (tb_arena tb) \<le> length (tb_arena tb')"
  by (induction rule: table_moves.induct) (auto intro: arena_grows)

context session_dashmap
begin

lemma moves_inv:
  assumes "table_moves D timely tb ops tb' ops'" and "table_inv D tb ops"
  shows "table_inv D tb' ops'"
  using assms
proof (cases rule: table_moves.cases)
  case (m_act sys target now o' k ops0)
  then show ?thesis using inv_act [OF _ m_act(3)] assms(2) by simp
qed (use assms(2) in \<open>simp_all add: table_inv_start table_inv_touch table_inv_stats\<close>)

lemma moves_gauge:
  assumes "table_moves D True tb ops tb' ops'" and "table_inv D tb ops" and "gauge_inv D tb ops"
    and "length (tb_arena tb') < 2 ^ 64"
  shows "gauge_inv D tb' ops'"
proof -
  have small: "s < length (tb_arena tb)" if "OpOpen s \<in># ops" for s
    using assms(2) that by (auto simp: table_inv_def)
  from assms(1) show ?thesis
  proof (cases rule: table_moves.cases)
    case (m_act sys target now o' k ops0)
    have "length (tb_arena tb) < 2 ^ 64" using arena_grows [OF m_act(3)] assms(4) by simp
    then have "in_time D o' tb ops0" using m_act by simp
    from gauge_act [OF _ _ m_act(3) this assms(4)] assms(2,3) show ?thesis unfolding m_act by simp
  next
    case (m_touch r now)
    show ?thesis unfolding m_touch by (rule gauge_same_flows [OF assms(3)]) (simp_all add: flows_def small)
  next
    case (m_stats st)
    show ?thesis unfolding m_stats(1,2)
      by (rule gauge_same_flows [OF assms(3)]) (simp_all add: flows_def m_stats(3) small)
  qed (use assms(3) in \<open>simp_all add: gauge_start\<close>)
qed

end

section \<open>What every step does to the table\<close>

lemma no_open:
  assumes "\<forall>x \<in># rs. reply_ok D tb x" and "pcs_ok l c" and "OpOpen r \<in># cleanup_ops c + replies_ops rs"
  shows False
proof -
  have "OpOpen r \<notin># cleanup_ops c" using assms(2) by (cases c) (auto simp: pcs_ok_def)
  moreover have "OpOpen r \<notin># replies_ops rs" using assms(1)
  proof (induction rs)
    case (add x rs)
    then show ?case by (cases "snd x") (auto simp: reply_ok_def)
  qed simp
  ultimately show False using assms(3) by simp
qed

lemma in_time_getting: "(\<And>s i. o' \<noteq> OpRemove s i) \<Longrightarrow> in_time D o' tb ops"
  by (cases o') auto

lemma in_time_no_open: "(\<And>r. OpOpen r \<notin># ops) \<Longrightarrow> in_time D o' tb ops"
  by (cases o') (auto split: option.splits)

lemma listener_moves:
  assumes "listener_step D kind p p'" and "tasks_ok D (up_table p) (up_listener p) (up_cleanup p) (up_replies p)"
  shows "table_moves D timely (up_table p) (port_ops p) (up_table p') (port_ops p')"
  using assms(1)
proof (cases rule: listener_step.cases)
  case (l_get o' payload xs sys target now tb k)
  have get: "getting o'" using tasks_parts(2) [OF assms(2)] l_get by (simp add: pcs_ok_def)
  let ?ops = "cleanup_ops (up_cleanup p) + replies_ops (up_replies p)"
  have "listener_ops (after_get o' k payload xs) = (case k of None \<Rightarrow> {#} | Some o'' \<Rightarrow> {#o''#})"
    by (auto simp: after_get_def split: option.splits)
  moreover have "replies_ops (spawned o') = {#}" by (cases o') simp_all
  ultimately have "port_ops p' = (case k of None \<Rightarrow> ?ops | Some o'' \<Rightarrow> add_mset o'' ?ops)"
    using l_get(2) by (simp add: port_ops_def split: option.splits)
  moreover have "port_ops p = add_mset o' ?ops" using l_get by (simp add: port_ops_def)
  moreover have "in_time D o' (up_table p) ?ops" by (rule in_time_getting) (use get in auto)
  ultimately show ?thesis using m_act [OF l_get(4)] l_get(2) by simp
next
  case (l_remove_op o' xs sys target now tb k)
  let ?ops = "cleanup_ops (up_cleanup p) + replies_ops (up_replies p)"
  have "port_ops p' = (case k of None \<Rightarrow> ?ops | Some o'' \<Rightarrow> add_mset o'' ?ops)"
    using l_remove_op(2) by (simp add: port_ops_def split: option.splits)
  moreover have "port_ops p = add_mset o' ?ops" using l_remove_op by (simp add: port_ops_def)
  moreover have "in_time D o' (up_table p) ?ops"
    by (rule in_time_no_open) (use no_open assms(2) in \<open>unfold tasks_ok_def, blast\<close>)
  ultimately show ?thesis using m_act [OF l_remove_op(4)] l_remove_op(2) by simp
next
  case (l_slot source payload xs)
  then show ?thesis using m_get by (simp add: port_ops_def)
next
  case (l_remove source i xs)
  then show ?thesis using m_remove by (simp add: port_ops_def)
qed (auto simp: port_ops_def intro: m_stay m_touch moves_count_in)

lemma cleanup_moves:
  assumes "cleanup_step D timely kind p p'"
  shows "table_moves D timely (up_table p) (port_ops p) (up_table p') (port_ops p')"
  using assms
proof (cases rule: cleanup_step.cases)
  case (c_op o' xs sys target now tb k)
  let ?ops = "listener_ops (up_listener p) + replies_ops (up_replies p)"
  have "port_ops p' = (case k of None \<Rightarrow> ?ops | Some o'' \<Rightarrow> add_mset o'' ?ops)"
    using c_op(2) by (simp add: port_ops_def split: option.splits)
  moreover have "port_ops p = add_mset o' ?ops" using c_op by (simp add: port_ops_def)
  ultimately show ?thesis using m_act [OF c_op(4)] c_op(2,5) by (simp add: port_ops_def)
next
  case (c_remove source i xs)
  then show ?thesis using m_remove by (simp add: port_ops_def)
qed (auto simp: port_ops_def intro: m_stay)

lemma same_id:
  assumes "ids_ok tb" and "length (tb_arena tb) < 2 ^ 64" and "r < length (tb_arena tb)" "r' < length (tb_arena tb)"
    and "us_id (tb_arena tb ! r) = us_id (tb_arena tb ! r')"
  shows "r = r'"
proof -
  have "(of_nat (Suc r) :: u64) = of_nat (Suc r')" using assms by (simp add: ids_ok_def)
  then have "unat (of_nat (Suc r) :: u64) = unat (of_nat (Suc r') :: u64)" by (rule arg_cong)
  moreover have "Suc r < 2 ^ 64" "Suc r' < 2 ^ 64" using assms(2-4) by auto
  ultimately show ?thesis by (simp add: unat_of_nat del: of_nat_Suc)
qed

text \<open>A reply loop that leaves removes its own session, which was published before it started.\<close>

lemma in_time_reply:
  assumes "table_inv D tb ops" and "tasks_ok D tb l c (add_mset (r, RRemove o') rest)"
    and "length (tb_arena tb) < 2 ^ 64"
  shows "in_time D o' tb (listener_ops l + cleanup_ops c + replies_ops rest)"
proof (cases "\<exists>s i. o' = OpRemove s i")
  case True
  then obtain s i where o': "o' = OpRemove s i" by blast
  have own: "reply_ok D tb (r, RRemove o')" by (rule tasks_parts(1) [OF assms(2)]) simp
  then have i: "i = us_id (tb_arena tb ! r)" "r < length (tb_arena tb)" using o' by (auto simp: reply_ok_def)
  have "OpOpen r' \<notin># listener_ops l + cleanup_ops c + replies_ops rest"
    if get: "dm_get D (tb_sessions tb) s = Some r'" "us_id (tb_arena tb ! r') = i" for r'
  proof
    assume pending: "OpOpen r' \<in># listener_ops l + cleanup_ops c + replies_ops rest"
    have "r' < length (tb_arena tb)" using assms(1) get(1) unfolding table_inv_def sessions_ok_def by blast
    then have "r' = r" using same_id [of tb r' r] assms(1,3) get(2) i by (simp add: table_inv_def)
    moreover have "OpOpen r' \<notin># cleanup_ops c + replies_ops rest"
      using no_open [of rest D tb l c r'] tasks_parts(1,2) [OF assms(2)] by auto
    with pending have "OpOpen r' \<in># listener_ops l" by simp
    then obtain b xs where "l = LGet (OpOpen r') b xs"
      using tasks_parts(2) [OF assms(2)] by (cases l) (auto simp: pcs_ok_def)
    ultimately show False using tasks_parts(3) [OF assms(2)] by (simp add: fresh_ok_def)
  qed
  then show ?thesis unfolding o' by (simp split: option.splits)
qed (auto intro: in_time_getting)

lemma reply_moves:
  assumes "reply_step D C kind p p'" and "table_inv D (up_table p) (port_ops p)"
    and "tasks_ok D (up_table p) (up_listener p) (up_cleanup p) (up_replies p)"
  shows "table_moves D timely (up_table p) (port_ops p) (up_table p') (port_ops p')"
  using assms(1)
proof (cases rule: reply_step.cases)
  case (r_cancelled r)
  then obtain rest where "up_replies p = add_mset (r, RWait) rest" by (metis mset_add)
  with r_cancelled show ?thesis using m_remove by (simp add: port_ops_def leave_def)
next
  case (r_receive r payloads)
  then obtain rest where "up_replies p = add_mset (r, RWait) rest" by (metis mset_add)
  with r_receive show ?thesis using m_stay by (simp add: port_ops_def)
next
  case (r_error r e)
  then obtain rest where "up_replies p = add_mset (r, RWait) rest" by (metis mset_add)
  with r_error show ?thesis using m_remove by (simp add: port_ops_def leave_def)
next
  case (r_empty r)
  then obtain rest where "up_replies p = add_mset (r, RQueue []) rest" by (metis mset_add)
  with r_empty show ?thesis using m_stay by (simp add: port_ops_def)
next
  case (r_send r payload payloads c res)
  then obtain rest where "up_replies p = add_mset (r, RQueue (payload # payloads)) rest" by (metis mset_add)
  with r_send show ?thesis using m_stay m_remove
    by (cases res) (simp_all add: port_ops_def after_try_send_def leave_def)
next
  case (r_touch r payloads now)
  then obtain rest where "up_replies p = add_mset (r, RTouch payloads) rest" by (metis mset_add)
  with r_touch show ?thesis using m_touch by (simp add: port_ops_def)
next
  case (r_drop r payloads)
  then obtain rest where "up_replies p = add_mset (r, RDrop payloads) rest" by (metis mset_add)
  with r_drop show ?thesis using moves_count_drop by (simp add: port_ops_def)
next
  case (r_remove r o' sys target now tb k)
  then obtain rest where rest: "up_replies p = add_mset (r, RRemove o') rest" by (metis mset_add)
  let ?ops = "listener_ops (up_listener p) + cleanup_ops (up_cleanup p) + replies_ops rest"
  have ops: "port_ops p = add_mset o' ?ops" using rest by (simp add: port_ops_def)
  moreover have "port_ops p' = (case k of None \<Rightarrow> ?ops | Some o'' \<Rightarrow> add_mset o'' ?ops)"
    using r_remove(2) rest by (simp add: port_ops_def split: option.splits)
  moreover have "in_time D o' (up_table p) ?ops" if "length (tb_arena (up_table p)) < 2 ^ 64"
    using in_time_reply [OF assms(2) _ that] assms(3) rest by simp
  ultimately show ?thesis using m_act [OF r_remove(4)] r_remove(2) by simp
qed (auto simp: port_ops_def intro: m_stay)

lemma sender_moves:
  assumes "sender_step C kind p p'"
  shows "table_moves D timely (up_table p) (port_ops p) (up_table p') (port_ops p')"
  using assms by (cases rule: sender_step.cases) (auto simp: port_ops_def intro: m_stay moves_count_out)

lemma port_moves:
  assumes "port_step D C timely kind p p'" and "table_inv D (up_table p) (port_ops p)"
    and "tasks_ok D (up_table p) (up_listener p) (up_cleanup p) (up_replies p)"
  shows "table_moves D timely (up_table p) (port_ops p) (up_table p') (port_ops p')"
  using assms(1)
proof (cases rule: port_step.cases)
  case p_reply
  then show ?thesis by (rule reply_moves) (use assms in auto)
next
  case p_shutdown
  then show ?thesis by (simp add: port_ops_def m_stay)
qed (auto intro: listener_moves cleanup_moves sender_moves assms(3))

section \<open>The places of the tasks\<close>

lemma tasks_plain:
  assumes "tasks_ok D tb l c rs" and "shrinks D tb tb'" and "sessions_ok D tb"
    and "\<And>o' b xs. l' \<noteq> LGet o' b xs" and "\<And>o' xs. l' \<noteq> LRemoveOp o' xs"
    and "\<And>r. \<not> publishing r l" and "\<And>x. due D l x \<Longrightarrow> due D l' x"
  shows "tasks_ok D tb' l' c rs"
proof (rule tasks_listener [OF tasks_shrinks [OF assms(2,3,1)]])
  show "pcs_ok l' c" by (rule pcs_ok_plain [OF tasks_parts(2) [OF assms(1)] assms(4,5)])
  show "fresh_ok l' rs" by (rule fresh_ok_plain [OF assms(4)])
qed (use assms(6,7) in auto)

context session_dashmap
begin

lemma listener_tasks:
  assumes "listener_step D kind p p'" and "table_inv D (up_table p) (port_ops p)"
    and "tasks_ok D (up_table p) (up_listener p) (up_cleanup p) (up_replies p)"
  shows "tasks_ok D (up_table p') (up_listener p') (up_cleanup p') (up_replies p')"
proof -
  have ok: "sessions_ok D (up_table p)" "\<And>o'. o' \<in># port_ops p \<Longrightarrow> op_ok D (up_table p) o'"
    using assms(2) by (simp_all add: table_inv_def)
  note plain = tasks_plain [OF assms(3) _ ok(1)]
  from assms(1) show ?thesis
  proof (cases rule: listener_step.cases)
    case l_shutdown
    then show ?thesis using tasks_shutdown assms(3) by simp
  next
    case (l_scan i xs)
    then show ?thesis using tasks_scan assms(3) by simp
  next
    case (l_scanned i xs)
    then show ?thesis using tasks_scanned assms(3) by simp
  next
    case (l_slot source payload xs)
    then show ?thesis
      using tasks_listener [OF assms(3)] tasks_parts(2) [OF assms(3)]
      by (simp add: pcs_ok_def fresh_ok_def)
  next
    case (l_get o' payload xs sys target now tb k)
    have "op_ok D (up_table p) o'" by (rule ok(2)) (simp add: port_ops_def l_get)
    with l_get assms(3) show ?thesis using tasks_get [OF _ _ l_get(4)] by simp
  next
    case (l_remove source i xs)
    have "tasks_ok D (up_table p) (LRemoveOp (OpRemove source i) xs) (up_cleanup p) (up_replies p)"
      by (rule tasks_listener [OF assms(3)])
        (use l_remove tasks_parts(2) [OF assms(3)] in \<open>auto simp: pcs_ok_def fresh_ok_def\<close>)
    with l_remove show ?thesis by simp
  next
    case (l_remove_op o' xs sys target now tb k)
    with assms(3) show ?thesis using tasks_remove_op [OF _ ok(1) l_remove_op(4)] by simp
  next
    case l_removed
    have "tasks_ok D (up_table p) LJoinCleanup (up_cleanup p) (up_replies p)"
      by (rule plain) (simp_all add: l_removed)
    with l_removed show ?thesis by simp
  next
    case l_join_cleanup
    have "tasks_ok D (up_table p) LJoinSender (up_cleanup p) (up_replies p)"
      by (rule plain) (simp_all add: l_join_cleanup)
    with l_join_cleanup show ?thesis by simp
  next
    case l_join_sender
    have "tasks_ok D (up_table p) LReturned (up_cleanup p) (up_replies p)"
      by (rule plain) (simp_all add: l_join_sender)
    with l_join_sender show ?thesis by simp
  qed (use assms(3) in \<open>simp_all add: plain\<close>)
qed

lemma removed_unlisted:
  assumes "table_op D sys target now (OpRemove s i) tb = (tb', k)" and "sessions_ok D tb"
    and "s = us_source (tb_arena tb ! r)" and "i = us_id (tb_arena tb ! r)"
  shows "\<not> listed D tb' r"
proof
  assume "listed D tb' r"
  then obtain a where get: "dm_get D (tb_sessions tb') a = Some r" by (auto simp: listed_def)
  moreover have "dm_get D (tb_sessions tb) a = Some r"
    using removing_shrinks [OF assms(1)] get by (simp add: shrinks_def)
  then have "a = s" using assms(2,3) by (simp add: sessions_ok_def)
  ultimately show False using remove_gone [OF assms(1)] assms(4) by blast
qed

lemma cleanup_tasks:
  assumes "cleanup_step D timely kind p p'" and "table_inv D (up_table p) (port_ops p)"
    and "tasks_ok D (up_table p) (up_listener p) (up_cleanup p) (up_replies p)"
  shows "tasks_ok D (up_table p') (up_listener p') (up_cleanup p') (up_replies p')"
proof -
  have ok: "sessions_ok D (up_table p)" using assms(2) by (simp add: table_inv_def)
  note cleanup = tasks_cleanup [OF assms(3)]
  note pcs = tasks_parts(2) [OF assms(3)]
  from assms(1) show ?thesis
  proof (cases rule: cleanup_step.cases)
    case (c_op o' xs sys target now tb k)
    then have removing: "\<not> getting o'" using pcs by (simp add: pcs_ok_def)
    then have "\<not> getting o''" if "k = Some o''" for o'' using getting_next c_op(4) that by blast
    then have "pcs_ok (up_listener p) (case k of Some o'' \<Rightarrow> COp o'' xs | None \<Rightarrow> CRemove xs)"
      using pcs by (simp add: pcs_ok_def split: option.splits)
    from tasks_shrinks [OF removing_shrinks [OF c_op(4) removing] ok cleanup [OF this]]
    show ?thesis by (simp add: c_op(2))
  qed (use cleanup pcs in \<open>simp_all add: pcs_ok_def\<close>)
qed

text \<open>A reply loop in its final removal: its session is out of the table after the first step.\<close>

lemma removal_goes_on:
  assumes "reply_ok D tb (r, RRemove o')" and "sessions_ok D tb" and "table_op D sys target now o' tb = (tb', k)"
  shows "shrinks D tb tb'" and "\<not> listed D tb' r" and "k = Some o'' \<Longrightarrow> reply_ok D tb' (r, RRemove o'')"
proof -
  have now: "\<not> getting o'" "o' = OpRemove (us_source (tb_arena tb ! r)) (us_id (tb_arena tb ! r)) \<or>
      (\<forall>s i. o' \<noteq> OpRemove s i) \<and> \<not> listed D tb r"
    using assms(1) by (auto simp: reply_ok_def)
  show shr: "shrinks D tb tb'" by (rule removing_shrinks [OF assms(3) now(1)])
  show gone: "\<not> listed D tb' r"
    using now(2) removed_unlisted [OF _ assms(2)] assms(3) shrinks_listed [OF shr] by blast
  show "reply_ok D tb' (r, RRemove o'')" if "k = Some o''"
  proof -
    have "\<not> getting o''" using getting_next assms(3) now(1) that by blast
    moreover have "\<forall>s i. o'' \<noteq> OpRemove s i"
      using assms(3) that by (cases o') (auto split: option.splits sum.splits prod.splits if_splits)
    moreover have "r < length (tb_arena tb')" using reply_ok_shrinks [OF shr assms(1)] by (simp add: reply_ok_def)
    ultimately show ?thesis using gone by (simp add: reply_ok_def)
  qed
qed

lemma reply_tasks:
  assumes "reply_step D C kind p p'" and "table_inv D (up_table p) (port_ops p)"
    and "tasks_ok D (up_table p) (up_listener p) (up_cleanup p) (up_replies p)"
  shows "tasks_ok D (up_table p') (up_listener p') (up_cleanup p') (up_replies p')"
proof -
  have ok: "sessions_ok D (up_table p)" using assms(2) by (simp add: table_inv_def)
  have move: "tasks_ok D tb' (up_listener p) (up_cleanup p) (add_mset (r, pc') rest)"
    if "up_replies p = add_mset (r, pc) rest" "shrinks D (up_table p) tb'" "reply_ok D tb' (r, pc')" for r pc pc' rest tb'
    using tasks_reply [OF _ that(3)] tasks_shrinks [OF that(2) ok assms(3)] that(1) by simp
  have own: "reply_ok D (up_table p) (r, pc)" if "(r, pc) \<in># up_replies p" for r pc
    using tasks_parts(1) [OF assms(3) that] .
  note leaves = reply_ok_leave [OF own]
  from assms(1) show ?thesis
  proof (cases rule: reply_step.cases)
    case (r_cancelled r)
    then obtain rest where rest: "up_replies p = add_mset (r, RWait) rest" by (metis mset_add)
    with r_cancelled move [OF rest, of "up_table p", OF _ leaves [OF r_cancelled(3)]] show ?thesis by simp
  next
    case (r_receive r payloads)
    then obtain rest where rest: "up_replies p = add_mset (r, RWait) rest" by (metis mset_add)
    with r_receive move [OF rest, of "up_table p"] reply_ok_plain [OF own [OF r_receive(3)]] show ?thesis by simp
  next
    case (r_error r e)
    then obtain rest where rest: "up_replies p = add_mset (r, RWait) rest" by (metis mset_add)
    with r_error move [OF rest, of "up_table p", OF _ leaves [OF r_error(3)]] show ?thesis by simp
  next
    case (r_empty r)
    then obtain rest where rest: "up_replies p = add_mset (r, RQueue []) rest" by (metis mset_add)
    with r_empty move [OF rest, of "up_table p"] reply_ok_plain [OF own [OF r_empty(3)]] show ?thesis by simp
  next
    case (r_send r payload payloads c res)
    then obtain rest where rest: "up_replies p = add_mset (r, RQueue (payload # payloads)) rest" by (metis mset_add)
    have "reply_ok D (up_table p) (r, after_try_send p r res payloads)"
      using leaves [OF r_send(3)] reply_ok_plain [OF own [OF r_send(3)]]
      by (simp add: after_try_send_def split: try_send.splits)
    with r_send rest move [OF rest, of "up_table p"] show ?thesis by simp
  next
    case (r_touch r payloads now)
    then obtain rest where rest: "up_replies p = add_mset (r, RTouch payloads) rest" by (metis mset_add)
    let ?tb = "on_session r (session_touch now) (up_table p)"
    have "reply_ok D ?tb (r, RQueue payloads)"
      using reply_ok_shrinks [OF shrinks_touch own] r_touch(3) reply_ok_plain by blast
    with r_touch rest move [OF rest, of ?tb] show ?thesis by simp
  next
    case (r_drop r payloads)
    then obtain rest where rest: "up_replies p = add_mset (r, RDrop payloads) rest" by (metis mset_add)
    have "reply_ok D (count_drop (up_table p)) (r, RQueue payloads)"
      using reply_ok_shrinks [OF shrinks_counts(2) own] r_drop(3) reply_ok_plain by blast
    with r_drop rest move [OF rest, of "count_drop (up_table p)"] show ?thesis by simp
  next
    case (r_remove r o' sys target now tb k)
    then obtain rest where rest: "up_replies p = add_mset (r, RRemove o') rest" by (metis mset_add)
    note goes = removal_goes_on [OF own [OF r_remove(3)] ok r_remove(4)]
    from tasks_reply_ends [OF _ goes(2)] tasks_shrinks [OF goes(1) ok assms(3)] move [OF rest goes(1)] goes(3) rest
    show ?thesis by (cases k) (simp_all add: r_remove(2))
  qed (use assms(3) in simp)
qed

lemma sender_tasks:
  assumes "sender_step C kind p p'" and "table_inv D (up_table p) (port_ops p)"
    and "tasks_ok D (up_table p) (up_listener p) (up_cleanup p) (up_replies p)"
  shows "tasks_ok D (up_table p') (up_listener p') (up_cleanup p') (up_replies p')"
proof -
  have "sessions_ok D (up_table p)" using assms(2) by (simp add: table_inv_def)
  with assms(1,3) show ?thesis
    by (cases rule: sender_step.cases) (simp_all add: tasks_shrinks [OF shrinks_counts(3)])
qed

end

section \<open>Waiting for the other tasks\<close>

definition joined :: "('m, 'c) udp_port \<Rightarrow> bool" where
  "joined p \<longleftrightarrow>
     (up_listener p = LJoinSender \<or> up_listener p = LReturned \<longrightarrow> up_cleanup p = CDone) \<and>
     (up_listener p = LReturned \<longrightarrow> up_sender p = SDone)"

lemma after_get_inside: "after_get o' k b xs \<noteq> LJoinSender" "after_get o' k b xs \<noteq> LReturned"
  by (auto simp: after_get_def split: option.splits)

lemma port_joined:
  assumes "port_step D C timely kind p p'" and "joined p"
  shows "joined p'"
  using assms(1)
proof (cases rule: port_step.cases)
  case p_listener
  then show ?thesis using assms(2)
    by (cases rule: listener_step.cases) (auto simp: joined_def after_get_inside split: option.splits)
next
  case p_cleanup
  then show ?thesis using assms(2) by (cases rule: cleanup_step.cases) (auto simp: joined_def)
next
  case p_reply
  then show ?thesis using assms(2) by (cases rule: reply_step.cases) (auto simp: joined_def)
next
  case p_sender
  then show ?thesis using assms(2) by (cases rule: sender_step.cases) (auto simp: joined_def)
qed (use assms(2) in \<open>simp add: joined_def\<close>)

section \<open>All reachable states\<close>

text \<open>What a port relies on: the laws of the map and of the channel.\<close>

locale udp_tasks = session_dashmap D + bounded_channel C
  for D :: "'m session_map" and C :: "'c reply_chan"
begin

lemma chan_try_send:
  "chan_ok C c s \<Longrightarrow> ch_try_send C c x = (c', res) \<Longrightarrow> chan_ok C c' s"
  by (cases rule: try_send_cases [of c x]) (auto simp: chan_ok_def)

lemma chan_recv:
  assumes "chan_ok C c s" and "ch_recv_many C c 32 = (c', pkts)"
  shows "chan_ok C c' (SFlush pkts)"
  using assms recv_many [of c 32] by (auto simp: chan_ok_def)

lemma sender_chan:
  assumes "sender_step C kind p p'" and "chan_ok C (up_chan p) (up_sender p)"
  shows "chan_ok C (up_chan p') (up_sender p')"
  using assms(1)
proof (cases rule: sender_step.cases)
  case (s_recv c pkts)
  with assms(2) show ?thesis using chan_recv by (simp add: send_batch_size_def)
next
  case (s_sent pkts n)
  with assms(2) show ?thesis by (auto simp: chan_ok_def)
qed (use assms(2) in \<open>simp_all add: close_chan chan_ok_def\<close>)

lemma reply_chan:
  assumes "reply_step D C kind p p'" and "chan_ok C (up_chan p) (up_sender p)"
  shows "chan_ok C (up_chan p') (up_sender p')"
  using assms by (cases rule: reply_step.cases) (simp_all add: chan_try_send)

lemma port_chan:
  assumes "port_step D C timely kind p p'" and "chan_ok C (up_chan p) (up_sender p)"
  shows "chan_ok C (up_chan p') (up_sender p')"
  using assms(1)
proof (cases rule: port_step.cases)
  case p_listener
  then show ?thesis using assms(2) by (cases rule: listener_step.cases) simp_all
next
  case p_cleanup
  then show ?thesis using assms(2) by (cases rule: cleanup_step.cases) simp_all
next
  case p_reply
  then show ?thesis using assms(2) by (rule reply_chan)
next
  case p_sender
  then show ?thesis using assms(2) by (rule sender_chan)
qed (use assms(2) in simp)

lemma port_inv_new: "port_inv D C (udp_port_new D C d port)"
  by (simp add: port_inv_def udp_port_new_def port_ops_def table_inv_def table_new_def sessions_ok_def ids_ok_def
      get_empty tasks_ok_def pcs_ok_def fresh_ok_def served_def due_ok_def chan_ok_def spawn_reply_sender_def
      new_chan reply_queue_capacity_def)

lemma port_inv_step:
  assumes "port_step D C timely kind p p'" and "port_inv D C p"
  shows "port_inv D C p'"
proof -
  have inv: "table_inv D (up_table p) (port_ops p)"
    and tasks: "tasks_ok D (up_table p) (up_listener p) (up_cleanup p) (up_replies p)"
    and chan: "chan_ok C (up_chan p) (up_sender p)"
    using assms(2) by (simp_all add: port_inv_def)
  have "tasks_ok D (up_table p') (up_listener p') (up_cleanup p') (up_replies p')"
    using assms(1)
  proof (cases rule: port_step.cases)
    case p_listener
    then show ?thesis using inv tasks by (rule listener_tasks)
  next
    case p_cleanup
    then show ?thesis using inv tasks by (rule cleanup_tasks)
  next
    case p_reply
    then show ?thesis using inv tasks by (rule reply_tasks)
  next
    case p_sender
    then show ?thesis using inv tasks by (rule sender_tasks)
  qed (use tasks in simp)
  then show ?thesis
    using moves_inv [OF port_moves [OF assms(1) inv tasks] inv] port_chan [OF assms(1) chan]
    by (simp add: port_inv_def)
qed

lemma port_inv_reach: "port_reach D C timely (udp_port_new D C d port) p \<Longrightarrow> port_inv D C p"
  by (induction rule: port_reach.induct) (blast intro: port_inv_new port_inv_step)+

lemma joined_reach: "port_reach D C timely (udp_port_new D C d port) p \<Longrightarrow> joined p"
proof (induction rule: port_reach.induct)
  case p_here
  show ?case by (simp add: udp_port_new_def joined_def)
qed (rule port_joined)

lemma port_gauge_reach:
  assumes "port_reach D C True (udp_port_new D C d port) p"
  shows "port_gauge D p"
  using assms
proof (induction rule: port_reach.induct)
  case p_here
  then show ?case
    by (simp add: port_gauge_def gauge_inv_def udp_port_new_def port_ops_def table_new_def opened_def
        flows_def port_stats_new_def get_empty)
next
  case (p_step p kind p')
  have inv: "table_inv D (up_table p) (port_ops p)"
    and tasks: "tasks_ok D (up_table p) (up_listener p) (up_cleanup p) (up_replies p)"
    using port_inv_reach [OF p_step.hyps(1)] by (simp_all add: port_inv_def)
  note moves = port_moves [OF p_step.hyps(2) inv tasks]
  show ?case
    unfolding port_gauge_def
  proof
    assume "length (tb_arena (up_table p')) < 2 ^ 64"
    moreover from this have "gauge_inv D (up_table p) (port_ops p)"
      using p_step.IH moves_arena [OF moves] by (simp add: port_gauge_def)
    ultimately show "gauge_inv D (up_table p') (port_ops p')" using moves_gauge [OF moves inv] by simp
  qed
qed

end

interpretation example_port: udp_tasks "sharded hash n" queue_ops for hash :: "socket_addr \<Rightarrow> nat" and n :: nat
  by unfold_locales

end
