(* ===== verification/Udp_System_Spec.thy ===== *)
theory Udp_System_Spec
  imports Udp_System_Run
begin

text \<open>
  The shutdown of a UDP port, and what holds of a port with all its tasks. Once the token is
  cancelled, every step of the port's own work lowers a rank; where no such step is left, all
  tasks have ended.
\<close>

section \<open>The rank\<close>

fun op_rank :: "tbl_op \<Rightarrow> nat" where
  "op_rank (OpLookup s) = 5"
| "op_rank (OpCreate s) = 4"
| "op_rank (OpEntry s r) = 3"
| "op_rank (OpOpen r) = 2"
| "op_rank (OpSpawn r) = 1"
| "op_rank (OpTouch r) = 1"
| "op_rank (OpRemove s i) = 4"
| "op_rank (OpCancel r) = 3"
| "op_rank (OpMark r) = 2"
| "op_rank OpClose = 1"

fun looping :: "listener_pc \<Rightarrow> bool" where
  "looping (LScan i xs) \<longleftrightarrow> False"
| "looping (LRemove xs) \<longleftrightarrow> False"
| "looping (LRemoveOp o' xs) \<longleftrightarrow> False"
| "looping LJoinCleanup \<longleftrightarrow> False"
| "looping LJoinSender \<longleftrightarrow> False"
| "looping LReturned \<longleftrightarrow> False"
| "looping l \<longleftrightarrow> True"

text \<open>A slot costs up to 20 steps: those of \<open>get_or_create\<close>, of the reply loop it starts, and of
  the forwarding.\<close>

fun listener_rank :: "listener_pc \<Rightarrow> nat" where
  "listener_rank LWait = 1"
| "listener_rank (LSlots xs) = 2 + 20 * length xs"
| "listener_rank (LGet o' b xs) = 11 + op_rank o' + 20 * length xs"
| "listener_rank (LSend r b xs) = 5 + 20 * length xs"
| "listener_rank (LTouch r b xs) = 4 + 20 * length xs"
| "listener_rank (LCount b xs) = 3 + 20 * length xs"
| "listener_rank (LScan i xs) = 0"
| "listener_rank (LRemove xs) = 3 + 6 * length xs"
| "listener_rank (LRemoveOp o' xs) = 3 + op_rank o' + 6 * length xs"
| "listener_rank LJoinCleanup = 2"
| "listener_rank LJoinSender = 1"
| "listener_rank LReturned = 0"

fun cleanup_rank :: "cleanup_pc \<Rightarrow> nat" where
  "cleanup_rank CWait = 1"
| "cleanup_rank (CScan now i es xs) = 3 + 7 * length es + 6 * length xs"
| "cleanup_rank (CRemove xs) = 2 + 6 * length xs"
| "cleanup_rank (COp o' xs) = 2 + op_rank o' + 6 * length xs"
| "cleanup_rank CDone = 0"

fun reply_rank :: "reply_pc \<Rightarrow> nat" where
  "reply_rank RWait = 5"
| "reply_rank (RQueue xs) = 6 + 5 * length xs"
| "reply_rank (RTouch xs) = 7 + 5 * length xs"
| "reply_rank (RDrop xs) = 7 + 5 * length xs"
| "reply_rank (RRemove o') = op_rank o'"

fun sender_rank :: "sender_pc \<Rightarrow> nat" where
  "sender_rank SWait = 1"
| "sender_rank (SFlush pkts) = 2 + length pkts"
| "sender_rank SDone = 0"

definition replies_rank :: "(nat \<times> reply_pc) multiset \<Rightarrow> nat" where
  "replies_rank rs = (\<Sum>x \<in># rs. reply_rank (snd x))"

lemma replies_rank_simps [simp]:
  "replies_rank {#} = 0" "replies_rank (add_mset x rs) = reply_rank (snd x) + replies_rank rs"
  "replies_rank (rs + rs') = replies_rank rs + replies_rank rs'"
  by (simp_all add: replies_rank_def)

text \<open>What is left of the walks through the \<open>n\<close> shards; how many sessions they find is not known
  before.\<close>

fun listener_scan :: "nat \<Rightarrow> listener_pc \<Rightarrow> nat" where
  "listener_scan n (LScan i xs) = Suc (n - i)"
| "listener_scan n l = 0"

fun cleanup_scan :: "nat \<Rightarrow> cleanup_pc \<Rightarrow> nat" where
  "cleanup_scan n (CScan now i es xs) = Suc (n - i)"
| "cleanup_scan n c = 0"

text \<open>First whether the receive loop still runs, then the walks, then the work that is left. A reply
  that waits in the queue costs the sender a receive, a send and the end of the batch.\<close>

definition port_rank :: "nat \<Rightarrow> 'c reply_chan \<Rightarrow> ('m, 'c) udp_port \<Rightarrow> nat \<times> nat \<times> nat \<times> nat" where
  "port_rank n C p =
     (if looping (up_listener p) then 1 else 0,
      listener_scan n (up_listener p), cleanup_scan n (up_cleanup p),
      listener_rank (up_listener p) + cleanup_rank (up_cleanup p) + replies_rank (up_replies p) +
      sender_rank (up_sender p) + 3 * length (ch_items C (up_chan p)))"

definition rank_less :: "((nat \<times> nat \<times> nat \<times> nat) \<times> (nat \<times> nat \<times> nat \<times> nat)) set" where
  "rank_less = less_than <*lex*> less_than <*lex*> less_than <*lex*> less_than"

lemma wf_rank: "wf rank_less"
  by (simp add: rank_less_def wf_lex_prod)

lemma scan_looping [simp]: "looping l \<Longrightarrow> listener_scan n l = 0"
  by (cases l) simp_all

lemma rank_lessI:
  assumes "looping l' \<Longrightarrow> looping l" and "listener_scan n l' = listener_scan n l"
    and "cleanup_scan n c' = cleanup_scan n c" and "k' < k"
  shows "((if looping l' then 1 else 0, listener_scan n l', cleanup_scan n c', k'),
    (if looping l then 1 else 0, listener_scan n l, cleanup_scan n c, k)) \<in> rank_less"
  using assms by (auto simp: rank_less_def)

lemma op_rank_pos [simp]: "0 < op_rank o'"
  by (cases o') simp_all

lemma op_rank_bound: "op_rank o' \<le> 5"
  by (cases o') simp_all

lemma op_rank_next: "table_op D sys target now o' tb = (tb', Some o'') \<Longrightarrow> op_rank o'' < op_rank o'"
  by (cases o') (auto split: option.splits sum.splits prod.splits if_splits)

lemma rank_after_get:
  assumes "table_op D sys target now o' tb = (tb', k)"
  shows "listener_rank (after_get o' k b xs) + replies_rank (spawned o') < 11 + op_rank o' + 20 * length xs"
    and "looping (after_get o' k b xs)"
proof -
  show "listener_rank (after_get o' k b xs) + replies_rank (spawned o') < 11 + op_rank o' + 20 * length xs"
  proof (cases k)
    case None
    have "replies_rank (spawned o') \<le> 5" by (cases o') simp_all
    with None show ?thesis using op_rank_pos [of o'] by (auto simp: after_get_def split: option.splits)
  next
    case (Some o'')
    then have "spawned o' = {#}" using assms by (cases o') simp_all
    moreover have "op_rank o'' < op_rank o'" using op_rank_next assms Some by blast
    ultimately show ?thesis by (simp add: after_get_def Some)
  qed
  show "looping (after_get o' k b xs)" by (auto simp: after_get_def split: option.splits)
qed

text \<open>The rank after a step of one task, while the other tasks stay where they are.\<close>

lemma listener_ranked:
  assumes "listener_step D Progress p p'"
  shows "(port_rank (dm_shards D) C p', port_rank (dm_shards D) C p) \<in> rank_less"
  using assms
proof (cases rule: listener_step.cases)
  case (l_get o' payload xs sys target now tb k)
  from rank_after_get [OF l_get(3), of payload xs] show ?thesis
    unfolding port_rank_def l_get(1) by (intro rank_lessI) (simp_all add: l_get(2))
next
  case (l_remove_op o' xs sys target now tb k)
  have "op_rank o'' < op_rank o'" if "k = Some o''" for o'' using op_rank_next l_remove_op(3) that by blast
  then have "listener_rank (case k of Some o'' \<Rightarrow> LRemoveOp o'' xs | None \<Rightarrow> LRemove xs) < listener_rank (LRemoveOp o' xs)"
    using op_rank_pos [of o'] by (cases k) simp_all
  then show ?thesis
    unfolding port_rank_def l_remove_op(1) by (intro rank_lessI) (simp_all add: l_remove_op(2) split: option.splits)
qed (simp_all add: port_rank_def rank_less_def)

lemma cleanup_ranked:
  assumes "cleanup_step D timely Progress p p'"
  shows "(port_rank (dm_shards D) C p', port_rank (dm_shards D) C p) \<in> rank_less"
  using assms
proof (cases rule: cleanup_step.cases)
  case (c_op o' xs sys target now tb k)
  have "op_rank o'' < op_rank o'" if "k = Some o''" for o'' using op_rank_next c_op(3) that by blast
  then have "cleanup_rank (case k of Some o'' \<Rightarrow> COp o'' xs | None \<Rightarrow> CRemove xs) < cleanup_rank (COp o' xs)"
    using op_rank_pos [of o'] by (cases k) simp_all
  then show ?thesis unfolding port_rank_def c_op(1) by (intro rank_lessI) (simp_all add: c_op(2) split: option.splits)
qed (simp_all add: port_rank_def rank_less_def stale_entry_def)

lemma reply_goes_ranked:
  assumes "(r, pc) \<in># up_replies p"
    and "(case pc' of Some q \<Rightarrow> reply_rank q | None \<Rightarrow> 0) + 3 * length (ch_items C (up_chan p')) <
      reply_rank pc + 3 * length (ch_items C (up_chan p))"
    and "up_replies p' = up_replies (reply_goes r pc pc' p)" and "up_listener p' = up_listener p"
    and "up_cleanup p' = up_cleanup p" and "up_sender p' = up_sender p"
  shows "(port_rank n C p', port_rank n C p) \<in> rank_less"
proof -
  obtain rest where "up_replies p = add_mset (r, pc) rest" using assms(1) by (metis mset_add)
  with assms show ?thesis unfolding port_rank_def by (intro rank_lessI) (simp_all split: option.splits)
qed

lemma reply_goes_frame:
  "up_replies (reply_goes r pc pc' (p\<lparr>up_table := tb\<rparr>)) = up_replies (reply_goes r pc pc' p)"
  "up_replies (reply_goes r pc pc' (p\<lparr>up_chan := c\<rparr>)) = up_replies (reply_goes r pc pc' p)"
  by (simp_all add: reply_goes_def)

lemma reply_ranked:
  assumes "reply_step D C Progress p p'" and "bounded_channel C"
  shows "(port_rank n C p', port_rank n C p) \<in> rank_less"
  using assms(1)
proof (cases rule: reply_step.cases)
  case (r_send r payload payloads c res)
  have "reply_rank (after_try_send p r res payloads) + 3 * length (ch_items C c) <
      reply_rank (RQueue (payload # payloads)) + 3 * length (ch_items C (up_chan p))"
    by (rule bounded_channel.try_send_cases [OF assms(2), of "up_chan p" "reply_to p r payload"])
      (use r_send(3) in \<open>simp_all add: after_try_send_def leave_def\<close>)
  with r_send(2) show ?thesis
    by (elim reply_goes_ranked [where pc' = "Some (after_try_send p r res payloads)"])
      (simp_all add: r_send(1) reply_goes_frame)
next
  case (r_remove r o' sys target now tb k)
  have "op_rank o'' < op_rank o'" if "k = Some o''" for o'' using op_rank_next r_remove(3) that by blast
  with r_remove(2) show ?thesis
    by (elim reply_goes_ranked [where pc' = "case k of Some o'' \<Rightarrow> Some (RRemove o'') | None \<Rightarrow> None"])
      (simp_all add: r_remove(1) reply_goes_frame split: option.splits)
qed (erule reply_goes_ranked; simp add: leave_def)+

lemma sender_ranked:
  assumes "sender_step C Progress p p'" and "bounded_channel C"
  shows "(port_rank n C p', port_rank n C p) \<in> rank_less"
  using assms(1)
proof (cases rule: sender_step.cases)
  case (s_recv c pkts)
  have "pkts = take send_batch_size (ch_items C (up_chan p))" "ch_items C c = drop send_batch_size (ch_items C (up_chan p))"
    using bounded_channel.recv_many(1,2) [OF assms(2), of "up_chan p" send_batch_size] s_recv(3) by simp_all
  then have "length (ch_items C (up_chan p)) = length pkts + length (ch_items C c)"
    by (metis append_take_drop_id length_append)
  moreover have "Suc 0 < 2 * length pkts" using s_recv(4) by (cases pkts) simp_all
  ultimately show ?thesis unfolding port_rank_def s_recv(1) by (intro rank_lessI) (simp_all add: s_recv(2))
qed (auto simp: port_rank_def rank_less_def sender_ends_def bounded_channel.close_chan(2) [OF assms(2)])

lemma port_ranked:
  assumes "port_step D C timely Progress p p'" and "bounded_channel C"
  shows "(port_rank (dm_shards D) C p', port_rank (dm_shards D) C p) \<in> rank_less"
  using assms(1)
  by (cases rule: port_step.cases)
    (use assms(2) in \<open>auto intro: listener_ranked cleanup_ranked reply_ranked sender_ranked\<close>)

lemma progress_shutdown: "port_step D C timely Progress p p' \<Longrightarrow> up_shutdown p' = up_shutdown p"
  by (erule port_step.cases; (elim task_stepE)?; simp)

text \<open>Without new input a port comes to rest, whether or not the token is cancelled.\<close>

lemma no_endless_work:
  assumes "bounded_channel C"
  shows "\<nexists>f. f 0 = p \<and> (\<forall>n. port_step D C timely Progress (f n) (f (Suc n)))"
proof
  assume "\<exists>f. f 0 = p \<and> (\<forall>n. port_step D C timely Progress (f n) (f (Suc n)))"
  then obtain f where f: "\<And>n. port_step D C timely Progress (f n) (f (Suc n))" by blast
  have "\<exists>g. \<forall>n. (g (Suc n), g n) \<in> rank_less"
    by (intro exI [of _ "\<lambda>n. port_rank (dm_shards D) C (f n)"]) (simp add: port_ranked [OF f assms])
  with wf_rank show False unfolding wf_iff_no_infinite_down_chain by blast
qed

section \<open>No orphans\<close>

text \<open>A session that is in no place where a removal could find it has been cancelled, or the removal
  that took it is about to do so.\<close>

definition covered :: "'m session_map \<Rightarrow> 'm session_table \<Rightarrow> tbl_op multiset \<Rightarrow> nat \<Rightarrow> bool" where
  "covered D tb ops r \<longleftrightarrow> listed D tb r \<or> us_shutdown (tb_arena tb ! r) \<or> OpCancel r \<in># ops"

definition serving :: "('m, 'c) udp_port \<Rightarrow> nat \<Rightarrow> bool" where
  "serving p r \<longleftrightarrow> r \<in> fst ` set_mset (up_replies p) \<or> publishing r (up_listener p)"

lemma publishing_after_get:
  assumes "table_op D sys target now o' tb = (tb', k)" and "publishing r (after_get o' k b xs)"
  shows "publishing r (LGet o' b xs) \<or> (\<exists>s. o' = OpEntry s r) \<and> k = Some (OpOpen r)"
  using assms
  by (cases o') (auto simp: after_get_def new_session_def split: option.splits sum.splits prod.splits if_splits)

context session_dashmap
begin

lemma covered_act:
  assumes "table_op D sys target now o' tb = (tb', k)" and "r < length (tb_arena tb)"
    and "covered D tb (add_mset o' ops) r"
  shows "covered D tb' (case k of None \<Rightarrow> ops | Some o'' \<Rightarrow> add_mset o'' ops) r"
proof (cases o')
  case (OpEntry s r')
  have "\<exists>a. (if a = s then Some r' else dm_get D (tb_sessions tb) a) = Some r"
    if "dm_get D (tb_sessions tb) s = None" "dm_get D (tb_sessions tb) b = Some r" for b
    using that by (intro exI [of _ b]) auto
  with OpEntry assms show ?thesis
    by (auto simp: covered_def listed_def get_insert split: option.splits)
next
  case (OpRemove s i)
  with assms(1) obtain m v where res: "dm_remove_if D (tb_sessions tb) s (\<lambda>c. us_id (tb_arena tb ! c) = i) = (m, v)"
    "tb' = tb\<lparr>tb_sessions := m\<rparr>" "k = map_option OpCancel v" by (auto split: prod.splits)
  have "listed D tb' r \<or> v = Some r" if "listed D tb r"
  proof -
    from that obtain a where "dm_get D (tb_sessions tb) a = Some r" by (auto simp: listed_def)
    then have "dm_get D m a = Some r \<or> v = Some r"
      using res(1) get_remove [of "tb_sessions tb" s "\<lambda>c. us_id (tb_arena tb ! c) = i"]
        remove_result [of "tb_sessions tb" s "\<lambda>c. us_id (tb_arena tb ! c) = i"]
      by (auto split: option.splits if_splits)
    then show ?thesis using res(2) by (auto simp: listed_def)
  qed
  with assms(3) OpRemove res show ?thesis by (auto simp: covered_def split: option.splits)
qed (use assms in \<open>auto simp: covered_def listed_def new_session_def nth_append session_cancel_def
    session_touch_def session_mark_closed_def split: option.splits sum.splits if_splits\<close>)

lemma covered_moves:
  assumes "table_moves D timely tb ops tb' ops'" and "r < length (tb_arena tb)" and "covered D tb ops r"
  shows "covered D tb' ops' r"
  using assms(1)
proof (cases rule: table_moves.cases)
  case (m_act sys target now o' k ops0)
  with assms(2,3) show ?thesis using covered_act [OF m_act(3)] by simp
qed (use assms(2,3) in \<open>auto simp: covered_def listed_def\<close>)

lemma serving_step:
  assumes "port_step D C timely kind p p'" and "serving p' r"
  shows "serving p r \<or> listed D (up_table p') r"
  using assms(1)
proof (cases rule: port_step.cases)
  case p_listener
  then show ?thesis
  proof (cases rule: listener_step.cases)
    case (l_get o' payload xs sys target now tb k)
    have "r \<in> fst ` set_mset (spawned o') \<Longrightarrow> publishing r (LGet o' payload xs)" by (cases o') auto
    moreover have "listed D tb r" if "o' = OpEntry s r" "k = Some (OpOpen r)" for s
      using l_get(4) that by (auto simp: listed_def get_insert split: option.splits)
    ultimately show ?thesis
      using assms(2) publishing_after_get [OF l_get(4), of r payload xs] l_get(2,3) by (auto simp: serving_def)
  qed (use assms(2) in \<open>auto simp: serving_def split: option.splits\<close>)
next
  case p_cleanup
  then show ?thesis using assms(2) by (cases rule: cleanup_step.cases) (auto simp: serving_def)
next
  case p_reply
  then have "fst ` set_mset (up_replies p') \<subseteq> fst ` set_mset (up_replies p) \<and> up_listener p' = up_listener p"
    by (cases rule: reply_step.cases) (force simp: reply_goes_def dest: in_diffD split: option.splits)+
  then show ?thesis using assms(2) by (auto simp: serving_def)
next
  case p_sender
  then show ?thesis using assms(2) by (cases rule: sender_step.cases) (auto simp: serving_def)
qed (use assms(2) in \<open>simp add: serving_def\<close>)

end

section \<open>Where no work is left\<close>

lemma listener_can:
  assumes "up_listener p \<noteq> LReturned" and "up_listener p = LWait \<Longrightarrow> up_shutdown p"
    and "up_listener p = LJoinCleanup \<Longrightarrow> up_cleanup p = CDone"
    and "up_listener p = LJoinSender \<Longrightarrow> up_sender p = SDone"
  shows "\<exists>p'. listener_step D Progress p p'"
proof (cases "up_listener p")
  case (LSlots xs)
  then show ?thesis by (cases xs) (auto intro: l_empty l_slot)
next
  case (LRemove xs)
  then show ?thesis by (cases xs) (auto intro: l_removed l_remove)
next
  case (LScan i xs)
  then show ?thesis using l_scan l_scanned by (metis leI)
next
  case (LGet o' b xs)
  then show ?thesis by (meson l_get surj_pair)
next
  case (LRemoveOp o' xs)
  then show ?thesis by (meson l_remove_op surj_pair)
qed (use assms in \<open>auto intro: listener_step.intros\<close>)

lemma cleanup_can:
  assumes "up_cleanup p \<noteq> CDone" and "up_cleanup p = CWait \<Longrightarrow> up_shutdown p" and "\<And>r. OpOpen r \<notin># port_ops p"
  shows "\<exists>p'. cleanup_step D timely Progress p p'"
proof (cases "up_cleanup p")
  case (CRemove xs)
  then show ?thesis by (cases xs) (auto intro: c_removed c_remove)
next
  case (CScan now i es xs)
  show ?thesis
  proof (cases es)
    case Nil
    with CScan show ?thesis using c_shard c_scanned by (metis leI)
  next
    case (Cons e rest)
    with CScan show ?thesis using c_entry by metis
  qed
next
  case (COp o' xs)
  have "OpOpen r \<notin># port_ops (p\<lparr>up_cleanup := CWait\<rparr>)" for r
    using assms(3) [of r] by (simp add: port_ops_def)
  then have "in_time D o' (up_table p) (port_ops (p\<lparr>up_cleanup := CWait\<rparr>))" by (rule in_time_no_open)
  then show ?thesis using c_op [OF COp] by (meson surj_pair)
qed (use assms in \<open>auto intro: c_shutdown\<close>)

lemma reply_can:
  assumes "(r, pc) \<in># up_replies p" and "pc = RWait \<Longrightarrow> up_shutdown p \<or> us_shutdown (the_session p r)"
  shows "\<exists>p'. reply_step D C Progress p p'"
proof (cases pc)
  case (RQueue xs)
  with assms(1) show ?thesis by (cases xs) (auto intro: r_empty, meson r_send surj_pair)
next
  case (RRemove o')
  with assms(1) show ?thesis by (meson r_remove surj_pair)
qed (use assms in \<open>auto intro: reply_step.intros\<close>)

lemma sender_can:
  assumes "bounded_channel C" and "up_sender p \<noteq> SDone"
    and "up_sender p = SWait \<Longrightarrow> up_shutdown p \<or> ch_items C (up_chan p) \<noteq> []"
  shows "\<exists>p'. sender_step C Progress p p'"
proof (cases "up_sender p")
  case SWait
  obtain c pkts where c: "ch_recv_many C (up_chan p) send_batch_size = (c, pkts)" by fastforce
  show ?thesis
  proof (cases "up_shutdown p")
    case False
    with assms(3) SWait have "ch_items C (up_chan p) \<noteq> []" by blast
    then have "pkts \<noteq> []"
      using bounded_channel.recv_many(1) [OF assms(1), of "up_chan p" send_batch_size] c
      by (simp add: send_batch_size_def)
    then show ?thesis using s_recv [OF SWait c] by blast
  qed (use SWait s_shutdown in blast)
next
  case (SFlush pkts)
  then show ?thesis using s_flushed s_stopped by (cases "pkts = []") blast+
qed (use assms(2) in blast)

text \<open>Outside of \<open>get_or_create\<close> no opening is due.\<close>

lemma no_opening:
  assumes "tasks_ok D (up_table p) (up_listener p) (up_cleanup p) (up_replies p)"
    and "\<nexists>o' b xs. up_listener p = LGet o' b xs" and "replies_ops (up_replies p) = {#}"
  shows "OpOpen r \<notin># port_ops p"
proof -
  have "OpOpen r \<notin># listener_ops (up_listener p)"
    using assms(2) tasks_parts(2) [OF assms(1)] by (cases "up_listener p") (auto simp: pcs_ok_def)
  moreover have "OpOpen r \<notin># cleanup_ops (up_cleanup p)"
    using tasks_parts(2) [OF assms(1)] by (cases "up_cleanup p") (auto simp: pcs_ok_def)
  ultimately show ?thesis by (simp add: port_ops_def assms(3))
qed

lemma stuck_ended:
  assumes "\<nexists>p'. port_step D C timely Progress p p'" and "up_shutdown p"
    and "tasks_ok D (up_table p) (up_listener p) (up_cleanup p) (up_replies p)" and "bounded_channel C"
  shows "up_listener p = LReturned \<and> up_cleanup p = CDone \<and> up_replies p = {#} \<and> up_sender p = SDone"
proof -
  have "(r, pc) \<notin># up_replies p" for r pc using assms(1,2) reply_can p_reply by metis
  then have replies: "up_replies p = {#}" by (metis multiset_nonemptyE surj_pair)
  have sender: "up_sender p = SDone" using assms(1,2) sender_can [OF assms(4)] p_sender by metis
  have idle: "\<nexists>p'. listener_step D Progress p p'" using assms(1) p_listener by metis
  have "\<nexists>o' b xs. up_listener p = LGet o' b xs" using idle by (meson l_get surj_pair)
  then have "OpOpen r \<notin># port_ops p" for r using no_opening [OF assms(3)] replies by simp
  then have "up_cleanup p = CDone" using cleanup_can [OF _ assms(2)] assms(1) p_cleanup by metis
  with replies sender idle listener_can [OF _ assms(2)] show ?thesis by metis
qed

context udp_tasks
begin

lemma serving_known:
  assumes "port_inv D C p" and "serving p r"
  shows "r < length (tb_arena (up_table p))"
proof (cases "r \<in> fst ` set_mset (up_replies p)")
  case True
  then obtain x where "x \<in># up_replies p" "r = fst x" by blast
  with assms(1) show ?thesis by (auto simp: port_inv_def tasks_ok_def reply_ok_def)
next
  case False
  with assms(2) obtain b xs where
    "up_listener p = LGet (OpOpen r) b xs \<or> up_listener p = LGet (OpSpawn r) b xs"
    by (auto simp: serving_def elim: publishing.elims)
  then have "OpOpen r \<in># port_ops p \<or> OpSpawn r \<in># port_ops p" by (auto simp: port_ops_def)
  then have "op_ok D (up_table p) (OpOpen r) \<or> op_ok D (up_table p) (OpSpawn r)"
    using assms(1) by (auto simp: port_inv_def table_inv_def)
  then show ?thesis by auto
qed

lemma covered_reach:
  assumes "port_reach D C timely (udp_port_new D C d port) p" and "serving p r"
  shows "covered D (up_table p) (port_ops p) r"
  using assms
proof (induction rule: port_reach.induct)
  case p_here
  then show ?case by (simp add: serving_def udp_port_new_def)
next
  case (p_step p kind p')
  have inv: "port_inv D C p" by (rule port_inv_reach [OF p_step.hyps(1)])
  from serving_step [OF p_step.hyps(2) p_step.prems] show ?case
  proof
    assume "serving p r"
    from covered_moves [OF port_moves [OF p_step.hyps(2)] serving_known [OF inv this] p_step.IH [OF this]] inv
    show ?thesis by (simp add: port_inv_def)
  qed (simp add: covered_def)
qed

lemma returned_reach:
  assumes "port_reach D C timely (udp_port_new D C d port) p" and "up_listener p = LReturned"
  shows "dm_get D (tb_sessions (up_table p)) = Map.empty" and "up_cleanup p = CDone" and "up_sender p = SDone"
proof -
  have "due_ok D (up_table p) LReturned"
    using port_inv_reach [OF assms(1)] assms(2) by (simp add: port_inv_def tasks_ok_def)
  then show "dm_get D (tb_sessions (up_table p)) = Map.empty" by (auto simp: due_ok_def)
qed (use joined_reach [OF assms(1)] assms(2) in \<open>simp_all add: joined_def\<close>)

lemma ended_flows:
  assumes "port_reach D C True (udp_port_new D C d port) p" and "length (tb_arena (up_table p)) < 2 ^ 64"
    and "up_listener p = LReturned" and "up_replies p = {#}"
  shows "ps_udp_active_flows (tb_stats (up_table p)) = 0"
proof -
  have "port_ops p = {#}" using returned_reach(2) [OF assms(1,3)] assms(3,4) by (simp add: port_ops_def)
  with port_gauge_reach [OF assms(1)] assms(2) returned_reach(1) [OF assms(1,3)] show ?thesis
    by (simp add: port_gauge_def gauge_inv_def opened_def flows_def unat_eq_0)
qed

end

section \<open>Properties\<close>

lemmas port_laws = udp_tasks.intro [OF session_laws]

text \<open>C8: In every state that the receive loop, the cleanup task, the reply loops and the sender of a
  port can reach together, in any order and whatever they receive: every session in the table has
  a reply loop, or the receive loop is about to start it; no reply loop is orphaned, since the
  session of each is in the table, or cancelled, or in the hands of the removal that cancels it
  next; at most 512 replies are queued and the sender holds at most 32; and when the receive loop
  has returned, no session is in the table, and the cleanup task and the sender have ended.\<close>

theorem udp_port_sound:
  assumes "dashmap D" and "bounded_channel C" and "port_reach D C timely (udp_port_new D C d port) p"
  shows "(\<forall>k r. dm_get D (tb_sessions (up_table p)) k = Some r \<longrightarrow>
      r \<in> fst ` set_mset (up_replies p) \<or> publishing r (up_listener p)) \<and>
    (\<forall>r pc. (r, pc) \<in># up_replies p \<longrightarrow>
      (\<exists>k. dm_get D (tb_sessions (up_table p)) k = Some r) \<or> us_shutdown (the_session p r) \<or>
      OpCancel r \<in># port_ops p) \<and>
    length (ch_items C (up_chan p)) \<le> 512 \<and>
    (\<forall>pkts. up_sender p = SFlush pkts \<longrightarrow> length pkts \<le> 32) \<and>
    (up_listener p = LReturned \<longrightarrow>
      dm_get D (tb_sessions (up_table p)) = Map.empty \<and> up_cleanup p = CDone \<and> up_sender p = SDone)"
proof (intro conjI)
  note laws = port_laws [OF assms(1,2)]
  have inv: "port_inv D C p" by (rule udp_tasks.port_inv_reach [OF laws assms(3)])
  then show "\<forall>k r. dm_get D (tb_sessions (up_table p)) k = Some r \<longrightarrow>
      r \<in> fst ` set_mset (up_replies p) \<or> publishing r (up_listener p)"
    by (simp add: port_inv_def tasks_ok_def served_def)
  show "\<forall>r pc. (r, pc) \<in># up_replies p \<longrightarrow>
      (\<exists>k. dm_get D (tb_sessions (up_table p)) k = Some r) \<or> us_shutdown (the_session p r) \<or>
      OpCancel r \<in># port_ops p"
    using udp_tasks.covered_reach [OF laws assms(3)] by (force simp: serving_def covered_def listed_def)
  show "length (ch_items C (up_chan p)) \<le> 512" "\<forall>pkts. up_sender p = SFlush pkts \<longrightarrow> length pkts \<le> 32"
    using inv by (auto simp: port_inv_def chan_ok_def)
  show "up_listener p = LReturned \<longrightarrow>
      dm_get D (tb_sessions (up_table p)) = Map.empty \<and> up_cleanup p = CDone \<and> up_sender p = SDone"
    using udp_tasks.returned_reach [OF laws assms(3)] by blast
qed


section \<open>A run\<close>

abbreviation example_udp_port :: "((socket_addr, nat) shards, reply_packet queue_chan) udp_port" where
  "example_udp_port \<equiv> udp_port_new example_map queue_ops 120000000000 443"

abbreviation example_reach :: "((socket_addr, nat) shards, reply_packet queue_chan) udp_port \<Rightarrow> bool" where
  "example_reach \<equiv> port_reach example_map queue_ops True example_udp_port"


text \<open>A datagram arrives, and its session is made.\<close>

lemma example_session:
  "\<exists>p. example_reach p \<and> dm_get example_map (tb_sessions (up_table p)) (SockV4 5 1000) = Some 0 \<and>
     up_listener p = LSend 0 [1] [] \<and> up_replies p = {#(0, RWait)#} \<and>
     us_source (the_session p 0) = SockV4 5 1000 \<and> up_log p = [FromClients [(SockV4 5 1000, [1])]] \<and>
     up_cleanup p = CWait \<and> up_sender p = SWait \<and> ch_items queue_ops (up_chan p) = [] \<and> \<not> up_shutdown p \<and>
     dm_get example_map (tb_sessions (up_table p)) = [SockV4 5 1000 \<mapsto> 0] \<and>
     length (tb_arena (up_table p)) = 1 \<and> \<not> us_shutdown (the_session p 0)"
proof -
  let ?c = "SockV4 5 1000"
  let ?t0 = "up_table example_udp_port"
  let ?t1 = "snd (new_session 7 ?c \<lparr>sk_type = Dgram, sk_local = unspecified_for (SockV4 1 9000), sk_peer = Some (SockV4 1 9000)\<rparr> ?t0)"
  let ?t2 = "?t1\<lparr>tb_sessions := dm_insert example_map (tb_sessions ?t1) ?c 0\<rparr>"
  let ?t3 = "?t2\<lparr>tb_stats := record_udp_flow_open (tb_stats ?t2)\<rparr>"
  let ?t4 = "?t3\<lparr>tb_reply_tasks := tb_reply_tasks ?t3 @ [0]\<rparr>"
  let ?at = "\<lambda>tb pc. example_udp_port\<lparr>up_table := tb, up_listener := pc, up_log := [FromClients [(?c, [1])]]\<rparr>"
  have get: "example_reach (?at tb' (after_get o' k [1] []) \<lparr>up_replies := up_replies q + spawned o'\<rparr>)"
    if "example_reach q" "q = ?at tb (LGet o' [1] [])"
      "table_op example_map (\<lambda>_. None) (SockV4 1 9000) 7 o' tb = (tb', k)" "no_session o' k [1] = []" for q tb o' tb' k
    using p_step [OF that(1) p_listener [OF l_get [of q o' "[1]" "[]" example_map "\<lambda>_. None" "SockV4 1 9000" 7 tb' k]]] that
    by (simp add: udp_port_new_def logged_def)
  have "example_reach (?at ?t0 (LSlots [(?c, [1])]))"
    using p_step [OF p_here p_listener [OF l_receive [of example_udp_port "[(?c, [1])]"]]]
    by (simp add: udp_port_new_def logged_def)
  from p_step [OF this p_listener [OF l_slot]] have "example_reach (?at ?t0 (LGet (OpLookup ?c) [1] []))"
    by (simp add: udp_port_new_def)
  from get [OF this refl, of ?t0 "Some (OpCreate ?c)"] have "example_reach (?at ?t0 (LGet (OpCreate ?c) [1] []))"
    by (simp add: after_get_def udp_port_new_def table_new_def sharded.get_empty)
  from get [OF this refl, of ?t1 "Some (OpEntry ?c 0)"] have "example_reach (?at ?t1 (LGet (OpEntry ?c 0) [1] []))"
    by (simp add: after_get_def udp_port_new_def table_new_def new_session_def made_ok)
  from get [OF this refl, of ?t2 "Some (OpOpen 0)"] have "example_reach (?at ?t2 (LGet (OpOpen 0) [1] []))"
    by (simp add: after_get_def udp_port_new_def table_new_def new_session_def sharded.get_empty)
  from get [OF this refl, of ?t3 "Some (OpSpawn 0)"] have "example_reach (?at ?t3 (LGet (OpSpawn 0) [1] []))"
    by (simp add: after_get_def udp_port_new_def)
  from get [OF this refl, of ?t4 None]
  have "example_reach (?at ?t4 (LSend 0 [1] [])\<lparr>up_replies := {#(0, RWait)#}\<rparr>)"
    by (simp add: after_get_def udp_port_new_def)
  then show ?thesis
    by (rule exI [of _ "?at ?t4 (LSend 0 [1] [])\<lparr>up_replies := {#(0, RWait)#}\<rparr>", OF conjI])
      (simp add: sharded.get_insert udp_port_new_def table_new_def new_session_def session_new_def
        spawn_reply_sender_def queue_ops_def sharded.get_empty)
qed

theorem udp_port_sound_witness:
  "\<exists>p. example_reach p \<and> dm_get example_map (tb_sessions (up_table p)) (SockV4 5 1000) = Some 0 \<and>
     0 \<in> fst ` set_mset (up_replies p)"
proof -
  obtain p where p: "example_reach p" "dm_get example_map (tb_sessions (up_table p)) (SockV4 5 1000) = Some 0"
    "up_listener p = LSend 0 [1] []" using example_session by blast
  with udp_port_sound [OF sharded.dashmap_axioms queue.bounded_channel_axioms p(1)] show ?thesis by fastforce
qed

end
