(* ===== verification/Udp_System_Sim.thy ===== *)
theory Udp_System_Sim
  imports Udp_System_Spec Udp_Listener Udp_Sender
begin

text \<open>
  The loops of \<open>Udp_Listener\<close>, \<open>Udp_Reply\<close> and \<open>Udp_Sender\<close>, given there as functions, are runs
  of the tasks of \<open>Udp_System\<close> in which one task steps alone: the two models of the code agree.
\<close>

section \<open>Runs\<close>

abbreviation port_runs ::
    "'m session_map \<Rightarrow> 'c reply_chan \<Rightarrow> bool \<Rightarrow> ('m, 'c) udp_port \<Rightarrow> ('m, 'c) udp_port \<Rightarrow> bool" where
  "port_runs D C timely \<equiv> (port_step D C timely Progress)\<^sup>*\<^sup>*"

lemma runs_listener: "listener_step D Progress p p' \<Longrightarrow> port_runs D C timely p' q \<Longrightarrow> port_runs D C timely p q"
  by (blast intro: p_listener converse_rtranclp_into_rtranclp)

lemma runs_reply: "reply_step D C Progress p p' \<Longrightarrow> port_runs D C timely p' q \<Longrightarrow> port_runs D C timely p q"
  by (blast intro: p_reply converse_rtranclp_into_rtranclp)

lemma runs_sender: "sender_step C Progress p p' \<Longrightarrow> port_runs D C timely p' q \<Longrightarrow> port_runs D C timely p q"
  by (blast intro: p_sender converse_rtranclp_into_rtranclp)

section \<open>The receive loop\<close>

text \<open>The port with the receive loop at a place, over a table, with reply loops just started, and with
  a history.\<close>

definition at_listener ::
    "('m, 'c) udp_port \<Rightarrow> 'm session_table \<Rightarrow> listener_pc \<Rightarrow> nat list \<Rightarrow> traffic list \<Rightarrow>
     ('m, 'c) udp_port" where
  "at_listener p tb l new log =
     p\<lparr>up_table := tb, up_listener := l, up_replies := up_replies p + mset (map (\<lambda>r. (r, RWait)) new),
       up_log := log\<rparr>"

lemma at_listener_simps [simp]:
  "up_table (at_listener p tb l new log) = tb" "up_listener (at_listener p tb l new log) = l"
  "(at_listener p tb l new log)\<lparr>up_listener := l'\<rparr> = at_listener p tb l' new log"
  "on_table f (at_listener p tb l new log) = at_listener p (f tb) l new log"
  "logged evs (at_listener p tb l new log) = at_listener p tb l new (log @ evs)"
  by (simp_all add: at_listener_def on_table_def logged_def)

lemma runs_get:
  assumes "table_op D sys target now o' tb = (tb', k)"
    and "port_runs D C timely
      (at_listener p tb' (after_get o' k b xs) (new @ (case o' of OpSpawn r \<Rightarrow> [r] | _ \<Rightarrow> [])) (log @ no_session o' k b)) q"
  shows "port_runs D C timely (at_listener p tb (LGet o' b xs) new log) q"
proof -
  have "spawned o' = mset (map (\<lambda>r. (r, RWait)) (case o' of OpSpawn r \<Rightarrow> [r] | _ \<Rightarrow> []))"
    by (cases o') simp_all
  then have "listener_step D Progress (at_listener p tb (LGet o' b xs) new log)
      (at_listener p tb' (after_get o' k b xs) (new @ (case o' of OpSpawn r \<Rightarrow> [r] | _ \<Rightarrow> [])) (log @ no_session o' k b))"
    using l_get [of "at_listener p tb (LGet o' b xs) new log" o' b xs D sys target now tb' k] assms(1)
    by (simp add: at_listener_def logged_def add.assoc)
  from runs_listener [OF this assms(2)] show ?thesis .
qed

lemma get_runs:
  assumes "get_or_create D sys target now source tb = (res, tb')"
  shows "\<exists>fresh. tb_reply_tasks tb' = tb_reply_tasks tb @ fresh \<and>
    port_runs D C timely (at_listener p tb (LGet (OpLookup source) b xs) new log)
      (at_listener p tb' (case res of Inr s \<Rightarrow> LSend s b xs | Inl e \<Rightarrow> LSlots xs) (new @ fresh)
        (log @ (case res of Inr s \<Rightarrow> [] | Inl e \<Rightarrow> [NoSession source b])))"
proof (cases "dm_get D (tb_sessions tb) source")
  case (Some s)
  with assms have res: "res = Inr s" "tb' = on_session s (session_touch now) tb"
    by (simp_all add: get_or_create_def)
  have t: "table_op D sys target now (OpLookup source) tb = (tb, Some (OpTouch s))"
    "table_op D sys target now (OpTouch s) tb = (tb', None)"
    using Some res by simp_all
  have "port_runs D C timely (at_listener p tb (LGet (OpLookup source) b xs) new log)
      (at_listener p tb' (LSend s b xs) new log)"
    by (rule runs_get [OF t(1)], simp add: after_get_def, rule runs_get [OF t(2)], simp add: after_get_def)
  with res show ?thesis by (intro exI [of _ "[]"]) (simp add: on_session_def)
next
  case None
  then have t: "table_op D sys target now (OpLookup source) tb = (tb, Some (OpCreate source))" by simp
  show ?thesis
  proof (cases "snd (new_connected_udp_socket sys target)")
    case (Inl e)
    with None assms have res: "res = Inl e" "tb' = tb" by (simp_all add: get_or_create_def)
    have t': "table_op D sys target now (OpCreate source) tb = (tb, None)" using Inl by simp
    have "port_runs D C timely (at_listener p tb (LGet (OpLookup source) b xs) new log)
        (at_listener p tb (LSlots xs) new (log @ [NoSession source b]))"
      by (rule runs_get [OF t], simp add: after_get_def, rule runs_get [OF t'], simp add: after_get_def)
    with res show ?thesis by (intro exI [of _ "[]"]) simp
  next
    case (Inr up)
    define r t1 where "r = length (tb_arena tb)" and "t1 = snd (new_session now source up tb)"
    define t2 where "t2 = t1\<lparr>tb_sessions := dm_insert D (tb_sessions t1) source r\<rparr>"
    define t3 where "t3 = t2\<lparr>tb_stats := record_udp_flow_open (tb_stats t2)\<rparr>"
    from None Inr assms have res: "res = Inr r" "tb' = t3\<lparr>tb_reply_tasks := tb_reply_tasks t3 @ [r]\<rparr>"
      by (simp_all add: get_or_create_def new_session_def Let_def r_def t1_def t2_def t3_def)
    have s: "table_op D sys target now (OpCreate source) tb = (t1, Some (OpEntry source r))"
      "table_op D sys target now (OpEntry source r) t1 = (t2, Some (OpOpen r))"
      "table_op D sys target now (OpOpen r) t2 = (t3, Some (OpSpawn r))"
      "table_op D sys target now (OpSpawn r) t3 = (tb', None)"
      using Inr None by (simp_all add: new_session_def t1_def r_def t2_def t3_def res)
    have "port_runs D C timely (at_listener p tb (LGet (OpLookup source) b xs) new log)
        (at_listener p tb' (LSend r b xs) (new @ [r]) log)"
      by (rule runs_get [OF t], simp add: after_get_def, rule runs_get [OF s(1)], simp add: after_get_def,
          rule runs_get [OF s(2)], simp add: after_get_def, rule runs_get [OF s(3)], simp add: after_get_def,
          rule runs_get [OF s(4)], simp add: after_get_def)
    moreover have "tb_reply_tasks t3 = tb_reply_tasks tb" by (simp add: t1_def t2_def t3_def new_session_def)
    ultimately show ?thesis using res by (intro exI [of _ "[r]"]) simp
  qed
qed

text \<open>The datagrams that the slots of a batch hold, as the loop over the slots takes them.\<close>

fun arrived :: "batch_buf \<Rightarrow> nat list \<Rightarrow> todo" where
  "arrived batch [] = []"
| "arrived batch (i # is) =
     (case (batch_addr batch i, batch_slot batch i) of
        (Some (Some source), Some payload) \<Rightarrow>
          if payload = [] then arrived batch is else (source, payload) # arrived batch is
      | _ \<Rightarrow> arrived batch is)"

lemma forward_runs:
  assumes "forward_client_packet send now s b tb = (res, tb')"
  shows "port_runs D C timely (at_listener p tb (LSend s b xs) new log)
    (at_listener p tb' (LSlots xs) new (log @ (case res of Inl e \<Rightarrow> [NotSent s b] | Inr u \<Rightarrow> [ToTarget s b])))"
proof (cases "send b")
  case (Inl e)
  with assms have "tb' = tb" "res = Inl e" by (auto simp: forward_client_packet_def forward_to_target_def)
  moreover have "listener_step D Progress (at_listener p tb (LSend s b xs) new log)
      (at_listener p tb (LSlots xs) new (log @ [NotSent s b]))"
    using l_send_error [of "at_listener p tb (LSend s b xs) new log" s b xs D] by simp
  ultimately show ?thesis using runs_listener by (simp, blast)
next
  case (Inr n)
  let ?t1 = "on_session s (session_touch now) tb" and ?log = "log @ [ToTarget s b]"
  have tb': "tb' = count_in b ?t1" and res: "\<exists>u. res = Inr u"
    using Inr assms by (auto simp: forward_client_packet_def forward_to_target_def count_in_def Let_def)
  have "listener_step D Progress (at_listener p tb (LSend s b xs) new log) (at_listener p tb (LTouch s b xs) new ?log)"
    using l_sent [of "at_listener p tb (LSend s b xs) new log" s b xs D] by simp
  moreover have "listener_step D Progress (at_listener p tb (LTouch s b xs) new ?log) (at_listener p ?t1 (LCount b xs) new ?log)"
    using l_touch [of "at_listener p tb (LTouch s b xs) new ?log" s b xs D now] by simp
  moreover have "listener_step D Progress (at_listener p ?t1 (LCount b xs) new ?log) (at_listener p tb' (LSlots xs) new ?log)"
    using l_count [of "at_listener p ?t1 (LCount b xs) new ?log" b xs D] by (simp add: tb')
  ultimately have "port_runs D C timely (at_listener p tb (LSend s b xs) new log) (at_listener p tb' (LSlots xs) new ?log)"
    using runs_listener [where D = D] by blast
  with res show ?thesis by auto
qed

lemma slots_runs:
  assumes "forward_slots D env batch is tb out = Some (tb', out')" and "\<And>i. se_others (env i) = id"
  shows "\<exists>fresh log'. tb_reply_tasks tb' = tb_reply_tasks tb @ fresh \<and>
    port_runs D C timely (at_listener p tb (LSlots (arrived batch is)) new log)
      (at_listener p tb' (LSlots []) (new @ fresh) log')"
  using assms(1)
proof (induction "is" arbitrary: tb out new log)
  case Nil
  then show ?case by (intro exI [of _ "[]"] exI [of _ log]) simp
next
  case (Cons i "is")
  show ?case
  proof (cases "\<exists>source payload. batch_addr batch i = Some (Some source) \<and> batch_slot batch i = Some payload \<and> payload \<noteq> []")
    case False
    with Cons show ?thesis by (auto split: option.splits if_splits)
  next
    case True
    then obtain source payload where slot: "batch_addr batch i = Some (Some source)" "batch_slot batch i = Some payload"
      "payload \<noteq> []" by blast
    obtain res t1 where get: "get_or_create D (se_sys (env i)) (se_target (env i)) (se_now (env i)) source tb = (res, t1)"
      by (cases "get_or_create D (se_sys (env i)) (se_target (env i)) (se_now (env i)) source tb")
    define log1 where "log1 = log @ (case res of Inr s \<Rightarrow> [] | Inl e \<Rightarrow> [NoSession source payload])"
    have "listener_step D Progress (at_listener p tb (LSlots (arrived batch (i # is))) new log)
        (at_listener p tb (LGet (OpLookup source) payload (arrived batch is)) new log)"
      using l_slot [of "at_listener p tb (LSlots (arrived batch (i # is))) new log" source payload "arrived batch is" D] slot
      by simp
    moreover obtain f1 where f1: "tb_reply_tasks t1 = tb_reply_tasks tb @ f1"
      "port_runs D C timely (at_listener p tb (LGet (OpLookup source) payload (arrived batch is)) new log)
        (at_listener p t1 (case res of Inr s \<Rightarrow> LSend s payload (arrived batch is) | Inl e \<Rightarrow> LSlots (arrived batch is)) (new @ f1) log1)"
      using get_runs [OF get] unfolding log1_def by blast
    moreover obtain t2 out2 log2 where rest: "forward_slots D env batch is t2 out2 = Some (tb', out')"
      "tb_reply_tasks t2 = tb_reply_tasks t1"
      "port_runs D C timely
        (at_listener p t1 (case res of Inr s \<Rightarrow> LSend s payload (arrived batch is) | Inl e \<Rightarrow> LSlots (arrived batch is)) (new @ f1) log1)
        (at_listener p t2 (LSlots (arrived batch is)) (new @ f1) log2)"
    proof (cases res)
      case (Inl e)
      with that [of t1 out log1] Cons.prems slot get show ?thesis by simp
    next
      case (Inr s)
      obtain res2 t2 where fwd: "forward_client_packet (se_send (env i)) (se_sent_at (env i)) s payload t1 = (res2, t2)"
        by (cases "forward_client_packet (se_send (env i)) (se_sent_at (env i)) s payload t1")
      then have "tb_reply_tasks t2 = tb_reply_tasks t1"
        by (auto simp: forward_client_packet_def on_session_def Let_def split: sum.splits)
      moreover obtain out2 where "forward_slots D env batch is t2 out2 = Some (tb', out')"
        using Cons.prems slot get Inr fwd assms(2) by (auto split: sum.splits)
      ultimately show ?thesis using that forward_runs [OF fwd] unfolding Inr by (simp only: sum.case) blast
    qed
    moreover obtain f2 log3 where "tb_reply_tasks tb' = tb_reply_tasks t2 @ f2"
      "port_runs D C timely (at_listener p t2 (LSlots (arrived batch is)) (new @ f1) log2)
        (at_listener p tb' (LSlots []) ((new @ f1) @ f2) log3)"
      using Cons.IH [OF rest(1)] by blast
    ultimately show ?thesis
      by (intro exI [of _ "f1 @ f2"] exI [of _ log3])
        (auto intro: runs_listener rtranclp_trans simp del: arrived.simps)
  qed
qed

section \<open>A reply loop\<close>

definition at_reply ::
    "('m, 'c) udp_port \<Rightarrow> (nat \<times> reply_pc) multiset \<Rightarrow> nat \<Rightarrow> 'm session_table \<Rightarrow> 'c \<Rightarrow> reply_pc \<Rightarrow> traffic list \<Rightarrow>
     ('m, 'c) udp_port" where
  "at_reply p rest r tb c pc log =
     p\<lparr>up_table := tb, up_chan := c, up_replies := add_mset (r, pc) rest, up_log := log\<rparr>"

lemma at_reply_simps [simp]:
  "up_table (at_reply p rest r tb c pc log) = tb" "up_chan (at_reply p rest r tb c pc log) = c"
  "(r, pc) \<in># up_replies (at_reply p rest r tb c pc log)"
  "reply_goes r pc (Some pc') (at_reply p rest r tb c pc log) = at_reply p rest r tb c pc' log"
  "reply_goes r pc (Some pc') ((at_reply p rest r tb c pc log)\<lparr>up_chan := c'\<rparr>) = at_reply p rest r tb c' pc' log"
  "on_table f (at_reply p rest r tb c pc log) = at_reply p rest r (f tb) c pc log"
  "logged evs (at_reply p rest r tb c pc log) = at_reply p rest r tb c pc (log @ evs)"
  by (simp_all add: at_reply_def reply_goes_def on_table_def logged_def)

fun payloads :: "batch_buf \<Rightarrow> nat list \<Rightarrow> u8 list list" where
  "payloads batch [] = []"
| "payloads batch (i # is) =
     (case batch_slot batch i of
        Some payload \<Rightarrow> if payload = [] then payloads batch is else payload # payloads batch is
      | None \<Rightarrow> payloads batch is)"

definition left_with :: "bool \<Rightarrow> nat \<Rightarrow> 'm session_table \<Rightarrow> reply_pc" where
  "left_with closed r tb =
     (if closed then RRemove (OpRemove (us_source (tb_arena tb ! r)) (us_id (tb_arena tb ! r))) else RQueue [])"

lemma queue_runs:
  assumes "queue_replies C clock r batch is tb c = Some (tb', c', closed)"
  shows "\<exists>log'. port_runs D C timely (at_reply p rest r tb c (RQueue (payloads batch is)) log)
    (at_reply p rest r tb' c' (left_with closed r tb') log')"
  using assms
proof (induction "is" arbitrary: tb c log)
  case Nil
  then show ?case by (auto simp: left_with_def)
next
  case (Cons i "is")
  then obtain payload where slot: "batch_slot batch i = Some payload" by (auto split: option.splits)
  show ?case
  proof (cases "payload = []")
    case True
    with Cons slot show ?thesis by simp
  next
    case False
    let ?here = "at_reply p rest r tb c (RQueue (payload # payloads batch is)) log"
    let ?packet = "\<lparr>rp_dst = us_source (tb_arena tb ! r), rp_payload = payload, rp_bytes = length payload\<rparr>"
    obtain c1 res where sent: "ch_try_send C c ?packet = (c1, res)" by (cases "ch_try_send C c ?packet")
    let ?log = "log @ refused ?here r res payload (payloads batch is)"
    have step: "reply_step D C Progress ?here
        (at_reply p rest r tb c1 (after_try_send ?here r res (payloads batch is)) ?log)"
      using r_send [of r payload "payloads batch is" ?here C c1 res D] sent by (simp add: reply_to_def)
    have "\<exists>log'. port_runs D C timely (at_reply p rest r tb c1 (after_try_send ?here r res (payloads batch is)) ?log)
        (at_reply p rest r tb' c' (left_with closed r tb') log')"
    proof (cases res)
      case Sent
      let ?tb = "on_session r (session_touch (clock i)) tb"
      have "reply_step D C Progress (at_reply p rest r tb c1 (RTouch (payloads batch is)) ?log)
          (at_reply p rest r ?tb c1 (RQueue (payloads batch is)) ?log)"
        using r_touch [of r "payloads batch is" "at_reply p rest r tb c1 (RTouch (payloads batch is)) ?log" D C "clock i"] by simp
      moreover have "queue_replies C clock r batch is ?tb c1 = Some (tb', c', closed)"
        using Cons.prems slot False sent Sent by (simp add: Let_def)
      ultimately show ?thesis using Cons.IH runs_reply unfolding after_try_send_def Sent by (simp only: try_send.case) blast
    next
      case Full
      have "reply_step D C Progress (at_reply p rest r tb c1 (RDrop (payloads batch is)) ?log)
          (at_reply p rest r (count_drop tb) c1 (RQueue (payloads batch is)) ?log)"
        using r_drop [of r "payloads batch is" "at_reply p rest r tb c1 (RDrop (payloads batch is)) ?log" D C] by simp
      moreover have "queue_replies C clock r batch is (count_drop tb) c1 = Some (tb', c', closed)"
        using Cons.prems slot False sent Full by (simp add: Let_def count_drop_def)
      ultimately show ?thesis using Cons.IH runs_reply unfolding after_try_send_def Full by (simp only: try_send.case) blast
    next
      case Closed
      then have "tb' = tb" "c' = c1" "closed" using Cons.prems slot False sent by (simp_all add: Let_def)
      then show ?thesis by (auto simp: Closed after_try_send_def left_with_def leave_def)
    qed
    then obtain log' where "port_runs D C timely
        (at_reply p rest r tb c1 (after_try_send ?here r res (payloads batch is)) ?log)
        (at_reply p rest r tb' c' (left_with closed r tb') log')" by blast
    from runs_reply [OF step this] slot False show ?thesis by (intro exI [of _ log']) simp
  qed
qed

section \<open>The sender\<close>

definition at_sender :: "('m, 'c) udp_port \<Rightarrow> port_stats \<Rightarrow> sender_pc \<Rightarrow> traffic list \<Rightarrow> ('m, 'c) udp_port" where
  "at_sender p st pc log = p\<lparr>up_table := (up_table p)\<lparr>tb_stats := st\<rparr>, up_sender := pc, up_log := log\<rparr>"

lemma at_sender_simps [simp]:
  "up_sender (at_sender p st pc log) = pc" "(at_sender p st pc log)\<lparr>up_sender := pc'\<rparr> = at_sender p st pc' log"
  "logged evs (at_sender p st pc log) = at_sender p st pc (log @ evs)"
  by (simp_all add: at_sender_def logged_def)

lemma at_sender_sent:
  "logged evs (on_table (count_out pkts) (at_sender p st pc log)) = at_sender p (count_sent pkts st) pc (log @ evs)"
  by (rule udp_port.equality) (simp_all add: at_sender_def on_table_def count_out_def logged_def)

lemma flush_stops:
  "\<exists>log'. port_runs D C timely (at_sender p st (SFlush pkts) log) (at_sender p st SWait log')"
proof (cases "pkts = []")
  case True
  then show ?thesis using runs_sender [OF s_flushed [of "at_sender p st (SFlush pkts) log" C]]
    by (intro exI [of _ log]) simp
next
  case False
  then show ?thesis using runs_sender [OF s_stopped [of "at_sender p st (SFlush pkts) log" pkts C]]
    by (intro exI [of _ "log @ [ThrownAway pkts]"]) simp
qed

lemma flush_runs:
  assumes "flush sock_addr ks batch start st out = Some (fin, n, st', out')"
    and "\<forall>k \<in> set ks. honest k" and "start \<le> length batch"
  shows "\<exists>log'. port_runs D C timely (at_sender p st (SFlush (drop start batch)) log)
    (at_sender p st' (if fin then SWait else SFlush (drop n batch)) log')"
  using assms
proof (induction ks arbitrary: start st out log)
  case Nil
  then show ?case using flush_stops [of D C timely p st "drop start batch" log] by (auto split: if_splits)
next
  case (Cons k ks)
  let ?here = "at_sender p st (SFlush (drop start batch)) log"
  note stop = flush_stops [of D C timely p st "drop start batch" log]
  show ?case
  proof (cases "start < length batch")
    case False
    with Cons.prems stop show ?thesis by simp
  next
    case True
    show ?thesis
    proof (cases "send_batch sock_addr k (drop start batch)")
      case (Inl e)
      with Cons True stop show ?thesis by (auto split: if_splits)
    next
      case (Inr m)
      have bound: "start + m \<le> length batch" using honest_send [OF _ Inr] Cons.prems(2) True by simp
      show ?thesis
      proof (cases "m = 0")
        case True
        with Cons.prems Inr \<open>start < length batch\<close> stop show ?thesis by simp
      next
        case False
        let ?st = "count_sent (take m (drop start batch)) st"
        let ?log = "log @ [ToClients (take m (drop start batch))]"
        have step: "sender_step C Progress ?here (at_sender p ?st (SFlush (drop (start + m) batch)) ?log)"
          using s_sent [of ?here "drop start batch" m C] False bound
          by (simp add: at_sender_sent le_diff_conv2 add.commute)
        have "flush sock_addr ks batch (start + m) ?st
            (out @ map (message_of sock_addr) (take m (drop start batch))) = Some (fin, n, st', out')"
          using Cons.prems(1) Inr False True slice_batch [OF bound] by simp
        from Cons.IH [OF this _ bound] Cons.prems(2) obtain log' where
          "port_runs D C timely (at_sender p ?st (SFlush (drop (start + m) batch)) ?log)
            (at_sender p st' (if fin then SWait else SFlush (drop n batch)) log')" by fastforce
        from runs_sender [OF step this] show ?thesis ..
      qed
    qed
  qed
qed

section \<open>The cleanup task\<close>

lemma runs_cleanup: "cleanup_step D timely Progress p p' \<Longrightarrow> port_runs D C timely p' q \<Longrightarrow> port_runs D C timely p q"
  by (blast intro: p_cleanup converse_rtranclp_into_rtranclp)

definition at_cleanup :: "('m, 'c) udp_port \<Rightarrow> 'm session_table \<Rightarrow> cleanup_pc \<Rightarrow> ('m, 'c) udp_port" where
  "at_cleanup p tb c = p\<lparr>up_table := tb, up_cleanup := c\<rparr>"

lemma at_cleanup_simps [simp]:
  "up_table (at_cleanup p tb c) = tb" "up_cleanup (at_cleanup p tb c) = c"
  "(at_cleanup p tb c)\<lparr>up_cleanup := c'\<rparr> = at_cleanup p tb c'"
  "(at_cleanup p tb c)\<lparr>up_table := tb', up_cleanup := c'\<rparr> = at_cleanup p tb' c'"
  "port_ops (at_cleanup p tb c) = listener_ops (up_listener p) + cleanup_ops c + replies_ops (up_replies p)"
  by (simp_all add: at_cleanup_def port_ops_def)

text \<open>No session of which the opening is not recorded yet.\<close>

definition no_opening :: "('m, 'c) udp_port \<Rightarrow> bool" where
  "no_opening p \<longleftrightarrow> (\<forall>r. OpOpen r \<notin># listener_ops (up_listener p) + replies_ops (up_replies p))"

lemma cleanup_op_runs:
  assumes "op_alone n D sys target now o' tb = Some tb'" and "no_opening p"
  shows "port_runs D C timely (at_cleanup p tb (COp o' xs)) (at_cleanup p tb' (CRemove xs))"
  using assms(1)
proof (induction n arbitrary: o' tb)
  case (Suc n)
  obtain t1 k where op: "table_op D sys target now o' tb = (t1, k)" by fastforce
  have "in_time D o' tb (port_ops (at_cleanup p tb CWait))"
    by (rule in_time_no_open) (use assms(2) in \<open>simp add: no_opening_def\<close>)
  then have step: "cleanup_step D timely Progress (at_cleanup p tb (COp o' xs))
      (at_cleanup p t1 (case k of Some o'' \<Rightarrow> COp o'' xs | None \<Rightarrow> CRemove xs))"
    using c_op [of "at_cleanup p tb (COp o' xs)" o' xs D sys target now t1 k] op by simp
  show ?case
  proof (cases k)
    case None
    with Suc.prems op have "t1 = tb'" by simp
    with runs_cleanup [OF step] None show ?thesis by simp
  next
    case (Some o'')
    with Suc.prems op have "op_alone n D sys target now o'' t1 = Some tb'" by simp
    from Suc.IH [OF this] runs_cleanup [OF step] Some show ?thesis by simp
  qed
qed simp

lemma cleanup_remove_runs:
  assumes "no_opening p"
  shows "port_runs D C timely (at_cleanup p tb (CRemove xs)) (at_cleanup p (remove_all D xs tb) CWait)"
proof (induction xs arbitrary: tb)
  case Nil
  show ?case using runs_cleanup [OF c_removed [of "at_cleanup p tb (CRemove [])"]] by (simp add: remove_all_def)
next
  case (Cons x xs)
  obtain s i where x: "x = (s, i)" by (cases x)
  have "port_runs D C timely (at_cleanup p tb (COp (OpRemove s i) xs)) (at_cleanup p (remove_session D s i tb) (CRemove xs))"
    by (rule cleanup_op_runs [OF remove_session_steps assms])
  with Cons [of "remove_session D s i tb"]
  have "port_runs D C timely (at_cleanup p tb (COp (OpRemove s i) xs)) (at_cleanup p (remove_all D (x # xs) tb) CWait)"
    by (simp add: remove_all_def x)
  with runs_cleanup [OF c_remove [of "at_cleanup p tb (CRemove (x # xs))" s i xs]] x show ?case by simp
qed

lemma cleanup_shard_runs:
  "port_runs D C timely (at_cleanup p tb (CScan now i es xs))
    (at_cleanup p tb (CScan now i [] (xs @ concat (map (stale_entry now tb) es))))"
proof (induction es arbitrary: xs)
  case (Cons e es)
  from runs_cleanup [OF c_entry [of "at_cleanup p tb (CScan now i (e # es) xs)" now i e es xs]]
    Cons [of "xs @ stale_entry now tb e"] show ?case by simp
qed simp

lemma cleanup_scan_runs:
  assumes "i \<le> dm_shards D"
  shows "port_runs D C timely (at_cleanup p tb (CScan now i [] xs))
    (at_cleanup p tb (CRemove (xs @ concat (map (stale_entry now tb)
      (concat (map (dm_shard D (tb_sessions tb)) [i..<dm_shards D]))))))"
  using assms
proof (induction "dm_shards D - i" arbitrary: i xs)
  case 0
  then show ?case using runs_cleanup [OF c_scanned [of "at_cleanup p tb (CScan now i [] xs)" now i xs]] by simp
next
  case (Suc k)
  let ?es = "dm_shard D (tb_sessions tb) i"
  let ?xs = "xs @ concat (map (stale_entry now tb) ?es)"
  have i: "i < dm_shards D" using Suc.hyps(2) by simp
  have "port_runs D C timely (at_cleanup p tb (CScan now (Suc i) ?es xs)) (at_cleanup p tb (CScan now (Suc i) [] ?xs))"
    by (rule cleanup_shard_runs)
  also have "port_runs D C timely (at_cleanup p tb (CScan now (Suc i) [] ?xs))
      (at_cleanup p tb (CRemove (?xs @ concat (map (stale_entry now tb)
        (concat (map (dm_shard D (tb_sessions tb)) [Suc i..<dm_shards D]))))))"
    using Suc.hyps(1) [of "Suc i" ?xs] Suc.hyps(2) i by simp
  finally show ?case
    using runs_cleanup [OF c_shard [of "at_cleanup p tb (CScan now i [] xs)" now i xs D timely]] i
    by (simp add: upt_conv_Cons)
qed

lemma stale_entries:
  "map (\<lambda>(s, r). (s, us_id (tb_arena tb ! r)))
      (filter (\<lambda>(s, r). cleanup_timeout tb \<le> saturating_sub now (us_last_active_epoch (tb_arena tb ! r))) es) =
   concat (map (stale_entry now tb) es)"
  by (induction es) (auto simp: stale_entry_def)

lemma at_listener_moved:
  "(at_listener p tb l new log)\<lparr>up_table := tb', up_listener := l'\<rparr> = at_listener p tb' l' new log"
  by (rule udp_port.equality) (simp_all add: at_listener_def)

lemma listener_op_runs:
  assumes "op_alone n D sys target now o' tb = Some tb'"
  shows "port_runs D C timely (at_listener p tb (LRemoveOp o' xs) new log) (at_listener p tb' (LRemove xs) new log)"
  using assms
proof (induction n arbitrary: o' tb)
  case (Suc n)
  obtain t1 k where op: "table_op D sys target now o' tb = (t1, k)" by fastforce
  have step: "listener_step D Progress (at_listener p tb (LRemoveOp o' xs) new log)
      (at_listener p t1 (case k of Some o'' \<Rightarrow> LRemoveOp o'' xs | None \<Rightarrow> LRemove xs) new log)"
    using l_remove_op [of "at_listener p tb (LRemoveOp o' xs) new log" o' xs D sys target now t1 k] op
    by (simp add: at_listener_moved)
  show ?case
  proof (cases k)
    case None
    with Suc.prems op have "t1 = tb'" by simp
    with runs_listener [OF step] None show ?thesis by simp
  next
    case (Some o'')
    with Suc.prems op have "op_alone n D sys target now o'' t1 = Some tb'" by simp
    from Suc.IH [OF this] runs_listener [OF step] Some show ?thesis by simp
  qed
qed simp

lemma listener_remove_runs:
  "port_runs D C timely (at_listener p tb (LRemove xs) new log) (at_listener p (remove_all D xs tb) LJoinCleanup new log)"
proof (induction xs arbitrary: tb)
  case Nil
  show ?case using runs_listener [OF l_removed [of "at_listener p tb (LRemove []) new log"]] by (simp add: remove_all_def)
next
  case (Cons x xs)
  obtain s i where x: "x = (s, i)" by (cases x)
  have "port_runs D C timely (at_listener p tb (LRemoveOp (OpRemove s i) xs) new log)
      (at_listener p (remove_session D s i tb) (LRemove xs) new log)"
    by (rule listener_op_runs [OF remove_session_steps])
  with Cons [of "remove_session D s i tb"]
  have "port_runs D C timely (at_listener p tb (LRemoveOp (OpRemove s i) xs) new log)
      (at_listener p (remove_all D (x # xs) tb) LJoinCleanup new log)"
    by (simp add: remove_all_def x)
  with runs_listener [OF l_remove [of "at_listener p tb (LRemove (x # xs)) new log" s i xs]] x show ?case by simp
qed

lemma listener_scan_runs:
  assumes "i \<le> dm_shards D"
  shows "port_runs D C timely (at_listener p tb (LScan i xs) new log)
    (at_listener p tb (LRemove (xs @ concat (map (\<lambda>i. shard_sessions D i tb) [i..<dm_shards D]))) new log)"
  using assms
proof (induction "dm_shards D - i" arbitrary: i xs)
  case 0
  then show ?case using runs_listener [OF l_scanned [of "at_listener p tb (LScan i xs) new log" i xs]] by simp
next
  case (Suc k)
  have i: "i < dm_shards D" using Suc.hyps(2) by simp
  show ?case
    using runs_listener [OF l_scan [of "at_listener p tb (LScan i xs) new log" i xs D]] i
      Suc.hyps(1) [of "Suc i" "xs @ shard_sessions D i tb"] Suc.hyps(2)
    by (simp add: upt_conv_Cons)
qed

context session_dashmap
begin

lemma cleanup_runs:
  assumes "no_opening p"
  shows "port_runs D C timely (at_cleanup p tb (CScan now 0 [] [])) (at_cleanup p (cleanup_tick D now tb) CWait)"
proof -
  have "stale_sessions D now tb =
      concat (map (stale_entry now tb) (concat (map (dm_shard D (tb_sessions tb)) [0..<dm_shards D])))"
    unfolding stale_sessions_def stale_entries iter_shards ..
  with rtranclp_trans [OF cleanup_scan_runs [OF le0, of D C timely p tb now "[]"] cleanup_remove_runs [OF assms]]
  show ?thesis by (simp add: cleanup_tick_def)
qed

lemma shutdown_runs:
  "port_runs D C timely (at_listener p tb (LScan 0 []) new log) (at_listener p (shutdown_all D tb) LJoinCleanup new log)"
proof -
  have "all_sessions D tb = concat (map (\<lambda>i. shard_sessions D i tb) [0..<dm_shards D])"
    by (simp add: all_sessions_def iter_shards shard_sessions_def map_concat comp_def)
  with rtranclp_trans [OF listener_scan_runs [OF le0, of D C timely p tb "[]"] listener_remove_runs]
  show ?thesis by (simp add: shutdown_all_def)
qed

end

section \<open>Properties\<close>



end
