(* ===== verification/Udp_Traffic.thy ===== *)
theory Udp_Traffic
  imports Udp_System_Spec Udp_Sender
begin

text \<open>
  The datagrams of a UDP port, from the socket they arrive at to the socket they leave by, with all
  tasks of the port running together. What the history of \<open>Udp_System\<close> says that came in is, at
  every moment, what went out, what was given up, and what a task holds; the counters of bytes and
  drops are what the history says.
\<close>

section \<open>The way to the target\<close>

text \<open>The datagrams that clients sent, and those the receive loop is done with: sent to the target by a
  session (then with the address of the client of the session), not sent because of an error, or
  without a session.\<close>

fun received_by :: "traffic \<Rightarrow> todo" where
  "received_by (FromClients xs) = xs"
| "received_by _ = []"

fun settled_by :: "'m session_table \<Rightarrow> traffic \<Rightarrow> todo" where
  "settled_by tb (ToTarget r b) = [(us_source (tb_arena tb ! r), b)]"
| "settled_by tb (NotSent r b) = [(us_source (tb_arena tb ! r), b)]"
| "settled_by tb (NoSession s b) = [(s, b)]"
| "settled_by tb _ = []"

definition received :: "('m, 'c) udp_port \<Rightarrow> todo" where
  "received p = concat (map received_by (up_log p))"

definition settled :: "('m, 'c) udp_port \<Rightarrow> todo" where
  "settled p = concat (map (settled_by (up_table p)) (up_log p))"

text \<open>The datagrams that the receive loop still holds.\<close>

fun op_client :: "'m session_table \<Rightarrow> tbl_op \<Rightarrow> socket_addr list" where
  "op_client tb (OpLookup s) = [s]"
| "op_client tb (OpCreate s) = [s]"
| "op_client tb (OpEntry s r) = [s]"
| "op_client tb (OpTouch r) = [us_source (tb_arena tb ! r)]"
| "op_client tb (OpOpen r) = [us_source (tb_arena tb ! r)]"
| "op_client tb (OpSpawn r) = [us_source (tb_arena tb ! r)]"
| "op_client tb _ = []"

fun in_hand :: "'m session_table \<Rightarrow> listener_pc \<Rightarrow> todo" where
  "in_hand tb (LSlots xs) = xs"
| "in_hand tb (LGet o' b xs) = map (\<lambda>s. (s, b)) (op_client tb o') @ xs"
| "in_hand tb (LSend r b xs) = (us_source (tb_arena tb ! r), b) # xs"
| "in_hand tb (LTouch r b xs) = xs"
| "in_hand tb (LCount b xs) = xs"
| "in_hand tb _ = []"

fun bytes_to_target :: "traffic \<Rightarrow> nat" where
  "bytes_to_target (ToTarget r b) = length b"
| "bytes_to_target _ = 0"

text \<open>The bytes of a datagram that was sent and is about to be counted.\<close>

fun to_count :: "listener_pc \<Rightarrow> nat" where
  "to_count (LTouch r b xs) = length b"
| "to_count (LCount b xs) = length b"
| "to_count _ = 0"

section \<open>Sessions stay what they are\<close>

definition grows :: "'m session_table \<Rightarrow> 'm session_table \<Rightarrow> bool" where
  "grows tb tb' \<longleftrightarrow>
     length (tb_arena tb) \<le> length (tb_arena tb') \<and>
     (\<forall>r < length (tb_arena tb). us_source (tb_arena tb' ! r) = us_source (tb_arena tb ! r) \<and>
        us_upstream (tb_arena tb' ! r) = us_upstream (tb_arena tb ! r))"

lemma op_grows: "table_op D sys target now o' tb = (tb', k) \<Longrightarrow> grows tb tb'"
  by (cases o')
    (auto simp: grows_def new_session_def nth_append split: option.splits sum.splits prod.splits if_splits)

lemma moves_grow: "table_moves D timely tb ops tb' ops' \<Longrightarrow> grows tb tb'"
  by (induction rule: table_moves.induct) (auto intro: op_grows, auto simp: grows_def)

text \<open>No operation on the table touches the counters of bytes and drops.\<close>

lemma op_counts:
  assumes "table_op D sys target now o' tb = (tb', k)"
  shows "ps_udp_in_bytes (tb_stats tb') = ps_udp_in_bytes (tb_stats tb)"
    and "ps_udp_out_bytes (tb_stats tb') = ps_udp_out_bytes (tb_stats tb)"
    and "ps_udp_dropped (tb_stats tb') = ps_udp_dropped (tb_stats tb)"
  using assms
  by (cases o'; auto simp: new_session_def record_udp_flow_open_def record_udp_flow_close_def
      split: option.splits sum.splits prod.splits if_splits)+

text \<open>The session that an event or the receive loop names.\<close>

fun named :: "traffic \<Rightarrow> nat set" where
  "named (ToTarget r b) = {r}"
| "named (NotSent r b) = {r}"
| "named (FromTarget r bs) = {r}"
| "named _ = {}"

fun sending :: "listener_pc \<Rightarrow> nat set" where
  "sending (LSend r b xs) = {r}"
| "sending l = {}"

definition known :: "'m session_table \<Rightarrow> nat set \<Rightarrow> bool" where
  "known tb rs \<longleftrightarrow> rs \<subseteq> {..<length (tb_arena tb)}"

lemma known_simps [simp]:
  "known tb {}" "known tb {r} \<longleftrightarrow> r < length (tb_arena tb)"
  "known tb (A \<union> B) \<longleftrightarrow> known tb A \<and> known tb B"
  by (auto simp: known_def)

lemma known_grows: "known tb rs \<Longrightarrow> grows tb tb' \<Longrightarrow> known tb' rs"
  by (auto simp: known_def grows_def)

lemma settled_grows: "known tb (named ev) \<Longrightarrow> grows tb tb' \<Longrightarrow> settled_by tb' ev = settled_by tb ev"
  by (cases ev) (auto simp: grows_def)

lemma in_hand_grows:
  assumes "grows tb tb'" and "known tb (sending l)" and "\<And>o'. o' \<in># listener_ops l \<Longrightarrow> op_ok D tb o'"
  shows "in_hand tb' l = in_hand tb l"
proof (cases l)
  case (LGet o' b xs)
  with assms(3) have "op_ok D tb o'" by simp
  with assms(1) LGet show ?thesis by (cases o') (auto simp: grows_def)
qed (use assms in \<open>auto simp: grows_def\<close>)

section \<open>Nothing gets lost on the way to the target\<close>

definition ingress :: "('m, 'c) udp_port \<Rightarrow> bool" where
  "ingress p \<longleftrightarrow>
     received p = settled p @ in_hand (up_table p) (up_listener p) \<and>
     (\<forall>ev \<in> set (up_log p). known (up_table p) (named ev)) \<and>
     known (up_table p) (sending (up_listener p)) \<and>
     ps_udp_in_bytes (tb_stats (up_table p)) + of_nat (to_count (up_listener p)) =
       of_nat (sum_list (map bytes_to_target (up_log p)))"

lemma ingress_move:
  assumes "ingress p" and "grows (up_table p) (up_table p')" and "up_log p' = up_log p @ evs"
    and "in_hand (up_table p) (up_listener p) @ concat (map received_by evs) =
      concat (map (settled_by (up_table p')) evs) @ in_hand (up_table p') (up_listener p')"
    and "\<And>ev. ev \<in> set evs \<Longrightarrow> known (up_table p') (named ev)"
    and "known (up_table p') (sending (up_listener p'))"
    and "ps_udp_in_bytes (tb_stats (up_table p')) + of_nat (to_count (up_listener p')) =
      ps_udp_in_bytes (tb_stats (up_table p)) + of_nat (to_count (up_listener p)) +
      of_nat (sum_list (map bytes_to_target evs))"
  shows "ingress p'"
proof -
  have "map (settled_by (up_table p')) (up_log p) = map (settled_by (up_table p)) (up_log p)"
    by (rule map_cong [OF refl settled_grows [OF _ assms(2)]]) (use assms(1) in \<open>simp add: ingress_def\<close>)
  then have "settled p' = settled p @ concat (map (settled_by (up_table p')) evs)"
    unfolding settled_def assms(3) by (simp only: map_append concat_append)
  moreover have "received p' = received p @ concat (map received_by evs)"
    by (simp add: received_def assms(3))
  moreover have "known (up_table p') (named ev)" if "ev \<in> set (up_log p')" for ev
    using that assms(1,3,5) known_grows [OF _ assms(2)] by (auto simp: ingress_def)
  ultimately show ?thesis
    using assms(1,4,6,7) by (simp add: ingress_def assms(3))
qed

lemma ingress_quiet:
  assumes "ingress p" and "grows (up_table p) (up_table p')"
    and "\<And>o'. o' \<in># listener_ops (up_listener p) \<Longrightarrow> op_ok D (up_table p) o'"
    and "up_listener p' = up_listener p" and "up_log p' = up_log p @ evs"
    and "\<And>ev. ev \<in> set evs \<Longrightarrow> received_by ev = [] \<and> settled_by (up_table p') ev = [] \<and>
      bytes_to_target ev = 0 \<and> known (up_table p') (named ev)"
    and "ps_udp_in_bytes (tb_stats (up_table p')) = ps_udp_in_bytes (tb_stats (up_table p))"
  shows "ingress p'"
proof (rule ingress_move [OF assms(1,2,5)])
  have known: "known (up_table p) (sending (up_listener p))" using assms(1) by (simp add: ingress_def)
  show "in_hand (up_table p) (up_listener p) @ concat (map received_by evs) =
      concat (map (settled_by (up_table p')) evs) @ in_hand (up_table p') (up_listener p')"
  proof -
    have "concat (map received_by evs) = []" "concat (map (settled_by (up_table p')) evs) = []"
      using assms(6) by simp_all
    moreover have "in_hand (up_table p') (up_listener p) = in_hand (up_table p) (up_listener p)"
      by (rule in_hand_grows [OF assms(2) known assms(3)])
    ultimately show ?thesis by (simp only: assms(4) append_Nil append_Nil2)
  qed
  show "known (up_table p') (sending (up_listener p'))"
    using known_grows [OF known assms(2)] assms(4) by simp
  have none: "sum_list (map bytes_to_target evs) = 0" using assms(6) by simp
  have "(of_nat (sum_list (map bytes_to_target evs)) :: u64) = 0" unfolding none by simp
  then show "ps_udp_in_bytes (tb_stats (up_table p')) + of_nat (to_count (up_listener p')) =
      ps_udp_in_bytes (tb_stats (up_table p)) + of_nat (to_count (up_listener p)) +
      of_nat (sum_list (map bytes_to_target evs))"
    by (simp only: assms(4,7) add_0_right)
qed (use assms(6) in blast)

lemma grows_refl [simp]: "grows tb tb"
  by (simp add: grows_def)

lemma grows_touch [simp]: "grows tb (on_session r (session_touch now) tb)"
  by (simp add: grows_def)

lemma grows_counts [simp]:
  "grows tb (count_in b tb)" "grows tb (count_drop tb)" "grows tb (count_out pkts tb)"
  by (simp_all add: grows_def count_in_def count_drop_def count_out_def)

lemma counts_simps [simp]:
  "ps_udp_in_bytes (tb_stats (count_in b tb)) = ps_udp_in_bytes (tb_stats tb) + of_nat (length b)"
  "ps_udp_out_bytes (tb_stats (count_in b tb)) = ps_udp_out_bytes (tb_stats tb)"
  "ps_udp_dropped (tb_stats (count_in b tb)) = ps_udp_dropped (tb_stats tb)"
  "ps_udp_in_bytes (tb_stats (count_drop tb)) = ps_udp_in_bytes (tb_stats tb)"
  "ps_udp_out_bytes (tb_stats (count_drop tb)) = ps_udp_out_bytes (tb_stats tb)"
  "ps_udp_dropped (tb_stats (count_drop tb)) = ps_udp_dropped (tb_stats tb) + 1"
  "ps_udp_in_bytes (tb_stats (count_out pkts tb)) = ps_udp_in_bytes (tb_stats tb)"
  "ps_udp_out_bytes (tb_stats (count_out pkts tb)) = ps_udp_out_bytes (tb_stats tb) + of_nat (bytes_of pkts)"
  "ps_udp_dropped (tb_stats (count_out pkts tb)) = ps_udp_dropped (tb_stats tb)"
  by (simp_all add: count_in_def count_drop_def count_out_def add_udp_in_def record_udp_drop_def count_sent_eq)

context session_dashmap
begin

text \<open>A datagram stays with its client while \<open>get_or_create\<close> finds or makes the session.\<close>

lemma get_in_hand:
  assumes "table_op D sys target now o' tb = (tb', k)" and "table_inv D tb (add_mset o' ops)" and "getting o'"
  shows "map (\<lambda>s. (s, b)) (op_client tb o') @ xs =
      concat (map (settled_by tb') (no_session o' k b)) @ in_hand tb' (after_get o' k b xs)"
    and "known tb' (sending (after_get o' k b xs))"
    and "concat (map received_by (no_session o' k b)) = []" "to_count (after_get o' k b xs) = 0"
    and "(of_nat (sum_list (map bytes_to_target (no_session o' k b))) :: u64) = 0"
    and "\<And>ev. ev \<in> set (no_session o' k b) \<Longrightarrow> known tb' (named ev)"
proof -
  have "sessions_ok D tb" "op_ok D tb o'" using assms(2) by (simp_all add: table_inv_def)
  then show "map (\<lambda>s. (s, b)) (op_client tb o') @ xs =
      concat (map (settled_by tb') (no_session o' k b)) @ in_hand tb' (after_get o' k b xs)"
    using assms(1,3)
    by (cases o') (auto simp: after_get_def sessions_ok_def new_session_def split: option.splits sum.splits)
  show "known tb' (sending (after_get o' k b xs))"
    using assms(1,3) \<open>op_ok D tb o'\<close>
    by (cases o') (auto simp: after_get_def new_session_def split: option.splits sum.splits)
  show "concat (map received_by (no_session o' k b)) = []" "(of_nat (sum_list (map bytes_to_target (no_session o' k b))) :: u64) = 0"
    "\<And>ev. ev \<in> set (no_session o' k b) \<Longrightarrow> known tb' (named ev)"
    by (cases o'; cases k; simp)+
  show "to_count (after_get o' k b xs) = 0" by (auto simp: after_get_def split: option.splits)
qed

lemma listener_ingress:
  assumes "listener_step D kind p p'" and "table_inv D (up_table p) (port_ops p)"
    and "tasks_ok D (up_table p) (up_listener p) (up_cleanup p) (up_replies p)" and "ingress p"
  shows "ingress p'"
proof -
  have known: "known (up_table p) (sending (up_listener p))" using assms(4) by (simp add: ingress_def)
  from assms(1) show ?thesis
  proof (cases rule: listener_step.cases)
    case (l_receive xs)
    then show ?thesis by (intro ingress_move [OF assms(4), of _ "[FromClients xs]"]) simp_all
  next
    case (l_get o' payload xs sys target now tb k)
    have ops: "port_ops p = add_mset o' (cleanup_ops (up_cleanup p) + replies_ops (up_replies p))"
      using l_get by (simp add: port_ops_def)
    have "getting o'" using tasks_parts(2) [OF assms(3)] l_get by (simp add: pcs_ok_def)
    note get = get_in_hand [OF l_get(4) assms(2) [unfolded ops] this]
    show ?thesis
      by (rule ingress_move [OF assms(4), of _ "no_session o' k payload"])
        (use l_get op_grows [OF l_get(4)] op_counts(1) [OF l_get(4)] get in \<open>simp_all\<close>)
  next
    case (l_sent r payload xs)
    with known show ?thesis by (intro ingress_move [OF assms(4), of _ "[ToTarget r payload]"]) simp_all
  next
    case (l_send_error r payload xs)
    with known show ?thesis by (intro ingress_move [OF assms(4), of _ "[NotSent r payload]"]) simp_all
  next
    case (l_remove_op o' xs sys target now tb k)
    then show ?thesis
      using op_grows [OF l_remove_op(4)] op_counts(1) [OF l_remove_op(4)]
      by (intro ingress_move [OF assms(4), of _ "[]"]) (simp_all split: option.splits)
  qed (rule ingress_move [OF assms(4), of _ "[]"]; use known in simp)+
qed

lemma port_ingress:
  assumes "port_step D C timely kind p p'" and "table_inv D (up_table p) (port_ops p)"
    and "tasks_ok D (up_table p) (up_listener p) (up_cleanup p) (up_replies p)" and "ingress p"
  shows "ingress p'"
proof -
  have grows: "grows (up_table p) (up_table p')" by (rule moves_grow [OF port_moves [OF assms(1-3)]])
  have ops: "op_ok D (up_table p) o'" if "o' \<in># listener_ops (up_listener p)" for o'
    using assms(2) that by (simp add: table_inv_def port_ops_def)
  note quiet = ingress_quiet [OF assms(4) grows ops]
  from assms(1) show ?thesis
  proof (cases rule: port_step.cases)
    case p_listener
    then show ?thesis using assms(2-4) by (rule listener_ingress)
  next
    case p_cleanup
    then show ?thesis
      by (cases rule: cleanup_step.cases; intro quiet [of "[]"]) (simp_all add: op_counts(1))
  next
    case p_reply
    then show ?thesis
    proof (cases rule: reply_step.cases)
      case (r_receive r payloads)
      have "reply_ok D (up_table p) (r, RWait)" by (rule tasks_parts(1) [OF assms(3) r_receive(3)])
      with r_receive show ?thesis by (intro quiet [of "[FromTarget r payloads]"]) (simp_all add: reply_ok_def)
    next
      case (r_send r payload payloads c res)
      then show ?thesis
        by (intro quiet [of "refused p r res payload payloads"]) (auto simp: refused_def split: try_send.splits)
    next
      case (r_remove r o' sys target now tb k)
      then show ?thesis by (intro quiet [of "[]"]) (simp_all add: op_counts(1) [OF r_remove(4)])
    qed (rule quiet [of "[]"]; simp)+
  next
    case p_sender
    then show ?thesis
    proof (cases rule: sender_step.cases)
      case s_shutdown
      then show ?thesis by (intro quiet [of "[ThrownAway (ch_items C (up_chan p))]"]) simp_all
    next
      case s_producers_gone
      then show ?thesis by (intro quiet [of "[ThrownAway (ch_items C (up_chan p))]"]) simp_all
    next
      case (s_sent pkts n)
      then show ?thesis by (intro quiet [of "[ToClients (take n pkts)]"]) simp_all
    next
      case (s_stopped pkts)
      then show ?thesis by (intro quiet [of "[ThrownAway pkts]"]) simp_all
    qed (rule quiet [of "[]"]; simp)+
  qed (rule quiet [of "[]"]; simp)+
qed

end

section \<open>The way back to the clients\<close>

definition reply_of :: "'m session_table \<Rightarrow> nat \<Rightarrow> u8 list \<Rightarrow> reply_packet" where
  "reply_of tb r b = \<lparr>rp_dst = us_source (tb_arena tb ! r), rp_payload = b, rp_bytes = length b\<rparr>"

lemma reply_to_of: "reply_to p r = reply_of (up_table p) r"
  by (rule ext) (simp add: reply_to_def reply_of_def)

text \<open>What the target answered, addressed to the client of the session that received it; what became of
  it: sent to the client, refused by a full queue, thrown away with the rest of a batch after an error,
  or when the sender had ended.\<close>

fun answered_by :: "'m session_table \<Rightarrow> traffic \<Rightarrow> reply_packet list" where
  "answered_by tb (FromTarget r bs) = map (reply_of tb r) bs"
| "answered_by tb _ = []"

fun delivered_by :: "traffic \<Rightarrow> reply_packet list" where
  "delivered_by (ToClients pkts) = pkts"
| "delivered_by _ = []"

fun dropped_by :: "traffic \<Rightarrow> reply_packet list" where
  "dropped_by (QueueFull pkt) = [pkt]"
| "dropped_by _ = []"

fun thrown_by :: "traffic \<Rightarrow> reply_packet list" where
  "thrown_by (ThrownAway pkts) = pkts"
| "thrown_by _ = []"

definition answered :: "('m, 'c) udp_port \<Rightarrow> reply_packet list" where
  "answered p = concat (map (answered_by (up_table p)) (up_log p))"

definition delivered :: "('m, 'c) udp_port \<Rightarrow> reply_packet list" where
  "delivered p = concat (map delivered_by (up_log p))"

definition dropped :: "('m, 'c) udp_port \<Rightarrow> reply_packet list" where
  "dropped p = concat (map dropped_by (up_log p))"

definition thrown :: "('m, 'c) udp_port \<Rightarrow> reply_packet list" where
  "thrown p = concat (map thrown_by (up_log p))"

text \<open>The replies that the loops, the queue and the sender hold. What is in the queue when the sender
  ends goes with it.\<close>

fun held :: "reply_pc \<Rightarrow> u8 list list" where
  "held (RQueue bs) = bs"
| "held (RTouch bs) = bs"
| "held (RDrop bs) = bs"
| "held _ = []"

definition loops_hold :: "'m session_table \<Rightarrow> (nat \<times> reply_pc) multiset \<Rightarrow> reply_packet multiset" where
  "loops_hold tb rs = (\<Sum>x \<in># rs. mset (map (reply_of tb (fst x)) (held (snd x))))"

fun in_sender :: "sender_pc \<Rightarrow> reply_packet list" where
  "in_sender (SFlush pkts) = pkts"
| "in_sender _ = []"

definition in_queue :: "'c reply_chan \<Rightarrow> ('m, 'c) udp_port \<Rightarrow> reply_packet list" where
  "in_queue C p = (if up_sender p = SDone then [] else ch_items C (up_chan p))"

definition in_flight :: "'c reply_chan \<Rightarrow> ('m, 'c) udp_port \<Rightarrow> reply_packet multiset" where
  "in_flight C p =
     loops_hold (up_table p) (up_replies p) + mset (in_queue C p) + mset (in_sender (up_sender p))"

text \<open>The drops that are about to be counted.\<close>

fun drops :: "reply_pc \<Rightarrow> nat" where
  "drops (RDrop bs) = 1"
| "drops _ = 0"

definition pending_drops :: "(nat \<times> reply_pc) multiset \<Rightarrow> nat" where
  "pending_drops rs = (\<Sum>x \<in># rs. drops (snd x))"

lemma loops_simps [simp]:
  "loops_hold tb {#} = {#}"
  "loops_hold tb (add_mset x rs) = mset (map (reply_of tb (fst x)) (held (snd x))) + loops_hold tb rs"
  "loops_hold tb (rs + rs') = loops_hold tb rs + loops_hold tb rs'"
  "pending_drops {#} = 0" "pending_drops (add_mset x rs) = drops (snd x) + pending_drops rs"
  "pending_drops (rs + rs') = pending_drops rs + pending_drops rs'"
  by (simp_all add: loops_hold_def pending_drops_def)

lemma reply_grows: "grows tb tb' \<Longrightarrow> r < length (tb_arena tb) \<Longrightarrow> reply_of tb' r = reply_of tb r"
  by (rule ext) (simp add: reply_of_def grows_def)

lemma answered_grows: "known tb (named ev) \<Longrightarrow> grows tb tb' \<Longrightarrow> answered_by tb' ev = answered_by tb ev"
  by (cases ev) (simp_all add: reply_grows)

lemma loops_grow:
  assumes "grows tb tb'" and "\<forall>x \<in># rs. fst x < length (tb_arena tb)"
  shows "loops_hold tb' rs = loops_hold tb rs"
  using assms(2) by (induction rs) (simp_all add: reply_grows [OF assms(1)])

definition egress :: "'c reply_chan \<Rightarrow> ('m, 'c) udp_port \<Rightarrow> bool" where
  "egress C p \<longleftrightarrow>
     mset (answered p) = mset (delivered p) + mset (dropped p) + mset (thrown p) + in_flight C p \<and>
     (up_sender p = SDone \<longrightarrow> \<not> ch_open C (up_chan p)) \<and>
     ps_udp_out_bytes (tb_stats (up_table p)) = of_nat (bytes_of (delivered p)) \<and>
     ps_udp_dropped (tb_stats (up_table p)) + of_nat (pending_drops (up_replies p)) = of_nat (length (dropped p))"

lemma egress_move:
  assumes "egress C p" and "grows (up_table p) (up_table p')" and "up_log p' = up_log p @ evs"
    and "\<forall>ev \<in> set (up_log p). known (up_table p) (named ev)"
    and "in_flight C p + mset (concat (map (answered_by (up_table p')) evs)) =
      mset (concat (map delivered_by evs)) + mset (concat (map dropped_by evs)) +
      mset (concat (map thrown_by evs)) + in_flight C p'"
    and "up_sender p' = SDone \<Longrightarrow> \<not> ch_open C (up_chan p')"
    and "ps_udp_out_bytes (tb_stats (up_table p')) =
      ps_udp_out_bytes (tb_stats (up_table p)) + of_nat (bytes_of (concat (map delivered_by evs)))"
    and "ps_udp_dropped (tb_stats (up_table p')) + of_nat (pending_drops (up_replies p')) =
      ps_udp_dropped (tb_stats (up_table p)) + of_nat (pending_drops (up_replies p)) +
      of_nat (length (concat (map dropped_by evs)))"
  shows "egress C p'"
proof -
  have "map (answered_by (up_table p')) (up_log p) = map (answered_by (up_table p)) (up_log p)"
    by (rule map_cong [OF refl answered_grows [OF _ assms(2)]]) (use assms(4) in blast)
  then have "answered p' = answered p @ concat (map (answered_by (up_table p')) evs)"
    unfolding answered_def assms(3) by (simp only: map_append concat_append)
  moreover have "delivered p' = delivered p @ concat (map delivered_by evs)"
    "dropped p' = dropped p @ concat (map dropped_by evs)" "thrown p' = thrown p @ concat (map thrown_by evs)"
    by (simp_all add: delivered_def dropped_def thrown_def assms(3))
  ultimately show ?thesis
    using assms(1,5-8) by (simp add: egress_def bytes_of_def add_ac)
qed

lemma egress_quiet:
  assumes "egress C p" and "grows (up_table p) (up_table p')" and "up_log p' = up_log p @ evs"
    and "\<forall>ev \<in> set (up_log p). known (up_table p) (named ev)"
    and "\<forall>x \<in># up_replies p. fst x < length (tb_arena (up_table p))"
    and "up_replies p' = up_replies p + new" and "loops_hold (up_table p') new = {#}" "pending_drops new = 0"
    and "up_chan p' = up_chan p" "up_sender p' = up_sender p"
    and "\<forall>ev \<in> set evs. answered_by (up_table p') ev = [] \<and> delivered_by ev = [] \<and> dropped_by ev = [] \<and> thrown_by ev = []"
    and "ps_udp_out_bytes (tb_stats (up_table p')) = ps_udp_out_bytes (tb_stats (up_table p))"
    and "ps_udp_dropped (tb_stats (up_table p')) = ps_udp_dropped (tb_stats (up_table p))"
  shows "egress C p'"
proof -
  have none: "concat (map (answered_by (up_table p')) evs) = []" "concat (map delivered_by evs) = []"
    "concat (map dropped_by evs) = []" "concat (map thrown_by evs) = []"
    using assms(11) by simp_all
  have flow: "in_flight C p' = in_flight C p"
    using loops_grow [OF assms(2,5)] by (simp add: in_flight_def in_queue_def assms(6,7,9,10))
  show ?thesis
    by (rule egress_move [OF assms(1-4)], unfold none)
      (use assms(1) in \<open>simp_all add: flow assms(6,8,9,10,12,13) egress_def bytes_of_def\<close>)
qed

lemma no_session_quiet:
  "\<forall>ev \<in> set (no_session o' k b). answered_by tb ev = [] \<and> delivered_by ev = [] \<and> dropped_by ev = [] \<and> thrown_by ev = []"
  by (cases o'; cases k) simp_all

lemma spawned_quiet: "loops_hold tb (spawned o') = {#}" "pending_drops (spawned o') = 0"
  by (cases o'; simp)+

context udp_tasks
begin

lemma listener_egress:
  assumes "listener_step D kind p p'" and "egress C p"
    and "\<forall>ev \<in> set (up_log p). known (up_table p) (named ev)"
    and "\<forall>x \<in># up_replies p. fst x < length (tb_arena (up_table p))"
    and "grows (up_table p) (up_table p')"
  shows "egress C p'"
proof -
  note quiet = egress_quiet [OF assms(2,5) _ assms(3,4)]
  from assms(1) show ?thesis
  proof (cases rule: listener_step.cases)
    case (l_receive xs)
    then show ?thesis by (intro quiet [of "[FromClients xs]" "{#}"]) simp_all
  next
    case (l_get o' payload xs sys target now tb k)
    then show ?thesis
      by (intro quiet [of "no_session o' k payload" "spawned o'"])
        (simp_all add: op_counts(2,3) [OF l_get(4)] no_session_quiet spawned_quiet)
  next
    case (l_sent r payload xs)
    then show ?thesis by (intro quiet [of "[ToTarget r payload]" "{#}"]) simp_all
  next
    case (l_send_error r payload xs)
    then show ?thesis by (intro quiet [of "[NotSent r payload]" "{#}"]) simp_all
  next
    case (l_remove_op o' xs sys target now tb k)
    then show ?thesis by (intro quiet [of "[]" "{#}"]) (simp_all add: op_counts(2,3) [OF l_remove_op(4)])
  qed (rule quiet [of "[]" "{#}"]; simp)+
qed

lemma cleanup_egress:
  assumes "cleanup_step D timely kind p p'" and "egress C p"
    and "\<forall>ev \<in> set (up_log p). known (up_table p) (named ev)"
    and "\<forall>x \<in># up_replies p. fst x < length (tb_arena (up_table p))"
    and "grows (up_table p) (up_table p')"
  shows "egress C p'"
  using assms(1)
  by (cases rule: cleanup_step.cases; intro egress_quiet [OF assms(2,5) _ assms(3,4), of "[]" "{#}"])
    (simp_all add: op_counts(2,3))

text \<open>A step of one reply loop.\<close>

lemma egress_reply:
  assumes "egress C p" and known: "\<forall>ev \<in> set (up_log p). known (up_table p) (named ev)"
    and small: "\<forall>x \<in># up_replies p. fst x < length (tb_arena (up_table p))"
    and grows: "grows (up_table p) (up_table p')"
    and rest: "up_replies p = add_mset (r, pc) rest"
    and p': "up_replies p' = new + rest" "up_log p' = up_log p @ evs" "up_sender p' = up_sender p"
    and chan: "up_sender p = SDone \<Longrightarrow> \<not> ch_open C (up_chan p) \<Longrightarrow> \<not> ch_open C (up_chan p')"
    and flow: "mset (map (reply_of (up_table p) r) (held pc)) + mset (in_queue C p) +
        mset (concat (map (answered_by (up_table p)) evs)) =
      mset (concat (map dropped_by evs)) + mset (concat (map thrown_by evs)) +
        loops_hold (up_table p) new + mset (in_queue C p')"
    and evs: "\<forall>ev \<in> set evs. delivered_by ev = [] \<and> named ev \<subseteq> {r}" and new: "\<forall>x \<in># new. fst x = r"
    and out: "ps_udp_out_bytes (tb_stats (up_table p')) = ps_udp_out_bytes (tb_stats (up_table p))"
    and drop: "ps_udp_dropped (tb_stats (up_table p')) + of_nat (pending_drops new) =
      ps_udp_dropped (tb_stats (up_table p)) + of_nat (drops pc) + of_nat (length (concat (map dropped_by evs)))"
  shows "egress C p'"
proof (rule egress_move [OF assms(1) grows p'(2) known])
  have r: "r < length (tb_arena (up_table p))" and small': "\<forall>x \<in># rest. fst x < length (tb_arena (up_table p))"
    using small rest by auto
  have none: "concat (map delivered_by evs) = []" using evs by simp
  have "known (up_table p) (named ev)" if "ev \<in> set evs" for ev using evs that r by (auto simp: known_def)
  then have "map (answered_by (up_table p')) evs = map (answered_by (up_table p)) evs"
    using answered_grows [OF _ grows] by (intro map_cong) simp_all
  then have same: "concat (map (answered_by (up_table p')) evs) = concat (map (answered_by (up_table p)) evs)"
    by (rule arg_cong)
  have "loops_hold (up_table p') new = loops_hold (up_table p) new"
    using new r by (intro loops_grow [OF grows]) auto
  then show "in_flight C p + mset (concat (map (answered_by (up_table p')) evs)) =
      mset (concat (map delivered_by evs)) + mset (concat (map dropped_by evs)) +
      mset (concat (map thrown_by evs)) + in_flight C p'"
    using flow loops_grow [OF grows small'] unfolding none same
    by (simp add: in_flight_def rest p'(1,3) add_ac)
  show "ps_udp_out_bytes (tb_stats (up_table p')) =
      ps_udp_out_bytes (tb_stats (up_table p)) + of_nat (bytes_of (concat (map delivered_by evs)))"
    unfolding none by (simp add: out bytes_of_def)
  show "ps_udp_dropped (tb_stats (up_table p')) + of_nat (pending_drops (up_replies p')) =
      ps_udp_dropped (tb_stats (up_table p)) + of_nat (pending_drops (up_replies p)) +
      of_nat (length (concat (map dropped_by evs)))"
    using drop by (simp add: rest p'(1) add_ac)
  show "\<not> ch_open C (up_chan p')" if "up_sender p' = SDone"
    using chan assms(1) that p'(3) by (simp add: egress_def)
qed

lemma reply_egress_send:
  assumes "egress C p" and "\<forall>ev \<in> set (up_log p). known (up_table p) (named ev)"
    and "\<forall>x \<in># up_replies p. fst x < length (tb_arena (up_table p))"
    and "up_replies p = add_mset (r, RQueue (payload # payloads)) rest"
    and "ch_try_send C (up_chan p) (reply_to p r payload) = (c, res)"
  shows "egress C (logged (refused p r res payload payloads)
    (reply_goes r (RQueue (payload # payloads)) (Some (after_try_send p r res payloads)) (p\<lparr>up_chan := c\<rparr>)))"
    (is "egress C ?p'")
proof -
  have grows: "grows (up_table p) (up_table ?p')" by (simp add: logged_def reply_goes_def)
  note move = egress_reply [OF assms(1-3) grows assms(4)]
  show ?thesis
  proof (cases rule: try_send_cases [of "up_chan p" "reply_to p r payload"])
    case 1
    with assms(4,5) show ?thesis
      by (intro move [of "{#(r, leave p r)#}" "refused p r Closed payload payloads"])
        (simp_all add: after_try_send_def refused_def leave_def in_queue_def reply_to_of)
  next
    case 2
    with assms(4,5) show ?thesis
      by (intro move [of "{#(r, RDrop payloads)#}" "refused p r Full payload payloads"])
        (simp_all add: after_try_send_def refused_def in_queue_def reply_to_of)
  next
    case (3 c')
    moreover have "up_sender p \<noteq> SDone" using assms(1) 3(1) by (auto simp: egress_def)
    ultimately show ?thesis using assms(4,5)
      by (intro move [of "{#(r, RTouch payloads)#}" "[]"])
        (simp_all add: after_try_send_def refused_def in_queue_def reply_to_of)
  qed
qed

lemma reply_egress:
  assumes "reply_step D C kind p p'" and "egress C p"
    and "\<forall>ev \<in> set (up_log p). known (up_table p) (named ev)"
    and "\<forall>x \<in># up_replies p. fst x < length (tb_arena (up_table p))"
    and "grows (up_table p) (up_table p')"
  shows "egress C p'"
proof -
  note move = egress_reply [OF assms(2-5)]
  have found: thesis if "(r, pc) \<in># up_replies p" "\<And>rest. up_replies p = add_mset (r, pc) rest \<Longrightarrow> thesis" for r pc thesis
    using that by (metis mset_add)
  from assms(1) show ?thesis
  proof (cases rule: reply_step.cases)
    case (r_cancelled r)
    then obtain rest where rest: "up_replies p = add_mset (r, RWait) rest" using found by blast
    with r_cancelled show ?thesis by (intro move [OF rest, of "{#(r, leave p r)#}" "[]"]) (simp_all add: leave_def in_queue_def)
  next
    case (r_receive r payloads)
    then obtain rest where rest: "up_replies p = add_mset (r, RWait) rest" using found by blast
    with r_receive show ?thesis
      by (intro move [OF rest, of "{#(r, RQueue payloads)#}" "[FromTarget r payloads]"]) (simp_all add: in_queue_def)
  next
    case (r_transient r e)
    with assms(2) show ?thesis by simp
  next
    case (r_error r e)
    then obtain rest where rest: "up_replies p = add_mset (r, RWait) rest" using found by blast
    with r_error show ?thesis by (intro move [OF rest, of "{#(r, leave p r)#}" "[]"]) (simp_all add: leave_def in_queue_def)
  next
    case (r_empty r)
    then obtain rest where rest: "up_replies p = add_mset (r, RQueue []) rest" using found by blast
    with r_empty show ?thesis by (intro move [OF rest, of "{#(r, RWait)#}" "[]"]) (simp_all add: in_queue_def)
  next
    case (r_send r payload payloads c res)
    then obtain rest where rest: "up_replies p = add_mset (r, RQueue (payload # payloads)) rest" using found by blast
    from reply_egress_send [OF assms(2-4) rest r_send(4)] show ?thesis by (simp only: r_send(2))
  next
    case (r_touch r payloads now)
    then obtain rest where rest: "up_replies p = add_mset (r, RTouch payloads) rest" using found by blast
    with r_touch show ?thesis by (intro move [OF rest, of "{#(r, RQueue payloads)#}" "[]"]) (simp_all add: in_queue_def)
  next
    case (r_drop r payloads)
    then obtain rest where rest: "up_replies p = add_mset (r, RDrop payloads) rest" using found by blast
    with r_drop show ?thesis by (intro move [OF rest, of "{#(r, RQueue payloads)#}" "[]"]) (simp_all add: in_queue_def)
  next
    case (r_remove r o' sys target now tb k)
    then obtain rest where rest: "up_replies p = add_mset (r, RRemove o') rest" using found by blast
    with r_remove show ?thesis
      by (intro move [OF rest, of "case k of Some o'' \<Rightarrow> {#(r, RRemove o'')#} | None \<Rightarrow> {#}" "[]"])
        (simp_all add: in_queue_def op_counts(2,3) [OF r_remove(4)] split: option.splits)
  qed
qed

lemma sender_egress:
  assumes "sender_step C kind p p'" and "egress C p"
    and "\<forall>ev \<in> set (up_log p). known (up_table p) (named ev)"
    and small: "\<forall>x \<in># up_replies p. fst x < length (tb_arena (up_table p))"
    and grows: "grows (up_table p) (up_table p')"
  shows "egress C p'"
proof -
  note move = egress_move [OF assms(2) grows _ assms(3)]
  note loops = loops_grow [OF grows small]
  note flow = in_flight_def in_queue_def loops
  from assms(1) show ?thesis
  proof (cases rule: sender_step.cases)
    case s_shutdown
    then show ?thesis
      by (intro move [of "[ThrownAway (ch_items C (up_chan p))]"]) (simp_all add: flow bytes_of_def close_chan)
  next
    case s_producers_gone
    then show ?thesis
      by (intro move [of "[ThrownAway (ch_items C (up_chan p))]"]) (simp_all add: flow bytes_of_def close_chan)
  next
    case (s_recv c pkts)
    then have "mset (ch_items C (up_chan p)) = mset (ch_items C c) + mset pkts"
      using recv_many(1,2) [of "up_chan p" send_batch_size]
      by (metis append_take_drop_id fst_conv mset_append snd_conv union_commute)
    with s_recv show ?thesis by (intro move [of "[]"]) (simp_all add: flow bytes_of_def)
  next
    case s_flushed
    then show ?thesis by (intro move [of "[]"]) (simp_all add: flow bytes_of_def)
  next
    case (s_sent pkts n)
    have "mset pkts = mset (take n pkts) + mset (drop n pkts)" by (metis append_take_drop_id mset_append)
    with s_sent show ?thesis by (intro move [of "[ToClients (take n pkts)]"])
        (simp_all add: flow loops_grow [OF grows_counts(3) small])
  next
    case (s_stopped pkts)
    then show ?thesis by (intro move [of "[ThrownAway pkts]"]) (simp_all add: flow bytes_of_def)
  qed
qed

lemma port_egress:
  assumes "port_step D C timely kind p p'" and "port_inv D C p" and "ingress p" and "egress C p"
  shows "egress C p'"
proof -
  have inv: "table_inv D (up_table p) (port_ops p)"
    "tasks_ok D (up_table p) (up_listener p) (up_cleanup p) (up_replies p)"
    using assms(2) by (simp_all add: port_inv_def)
  have known: "\<forall>ev \<in> set (up_log p). known (up_table p) (named ev)" using assms(3) by (simp add: ingress_def)
  have small: "\<forall>x \<in># up_replies p. fst x < length (tb_arena (up_table p))"
    using tasks_parts(1) [OF inv(2)] by (simp add: reply_ok_def)
  have grows: "grows (up_table p) (up_table p')" by (rule moves_grow [OF port_moves [OF assms(1) inv]])
  from assms(1) show ?thesis
  proof (cases rule: port_step.cases)
    case p_listener
    then show ?thesis by (rule listener_egress [OF _ assms(4) known small grows])
  next
    case p_cleanup
    then show ?thesis by (rule cleanup_egress [OF _ assms(4) known small grows])
  next
    case p_reply
    then show ?thesis by (rule reply_egress [OF _ assms(4) known small grows])
  next
    case p_sender
    then show ?thesis by (rule sender_egress [OF _ assms(4) known small grows])
  next
    case p_shutdown
    then show ?thesis by (intro egress_quiet [OF assms(4) grows _ known small, of "[]" "{#}"]) simp_all
  qed
qed

lemma traffic_reach: "port_reach D C timely (udp_port_new D C d port) p \<Longrightarrow> ingress p \<and> egress C p"
proof (induction rule: port_reach.induct)
  case p_here
  show ?case
    by (simp add: udp_port_new_def ingress_def egress_def received_def settled_def answered_def delivered_def
        dropped_def thrown_def in_flight_def in_queue_def bytes_of_def table_new_def port_stats_new_def
        spawn_reply_sender_def new_chan)
next
  case (p_step p kind p')
  have inv: "port_inv D C p" by (rule port_inv_reach [OF p_step.hyps(1)])
  with port_ingress [OF p_step.hyps(2)] port_egress [OF p_step.hyps(2) inv] p_step.IH show ?case
    by (simp add: port_inv_def)
qed

end

section \<open>Properties\<close>

text \<open>C3: No datagram of a client is lost, doubled, reordered or given to the wrong session inside of
  a port. At every moment of every run of its tasks, the datagrams that were received, in their order, are
  those the receive loop is done with, followed by those it holds; it is done with one when it was
  sent on the upstream socket of a session (and then the client of the session is the one it came
  from), when that send failed, or when no session could be made. And the counter of bytes in is, but
  for the datagram that was just sent and is about to be counted, the sum of the bytes sent to the target.\<close>

theorem client_datagrams_conserved:
  assumes "dashmap D" and "bounded_channel C" and "port_reach D C timely (udp_port_new D C d port) p"
  shows "received p = settled p @ in_hand (up_table p) (up_listener p) \<and>
    (\<forall>r b. ToTarget r b \<in> set (up_log p) \<longrightarrow> r < length (tb_arena (up_table p))) \<and>
    ps_udp_in_bytes (tb_stats (up_table p)) + of_nat (to_count (up_listener p)) =
      of_nat (sum_list (map bytes_to_target (up_log p)))"
proof -
  have "ingress p" using udp_tasks.traffic_reach [OF port_laws [OF assms(1,2)] assms(3)] ..
  then show ?thesis by (force simp: ingress_def)
qed

theorem client_datagrams_conserved_witness:
  "\<exists>p. example_reach p \<and> received p = [(SockV4 5 1000, [1])] \<and>
     ToTarget 0 [1] \<in> set (up_log p) \<and> settled p = [(SockV4 5 1000, [1])]"
proof -
  obtain q where q: "example_reach q" "up_listener q = LSend 0 [1] []" "up_log q = [FromClients [(SockV4 5 1000, [1])]]"
    using example_session by blast
  let ?p = "logged [ToTarget 0 [1]] (q\<lparr>up_listener := LTouch 0 [1] []\<rparr>)"
  have reach: "example_reach ?p" by (rule p_step [OF q(1) p_listener [OF l_sent [OF q(2)]]])
  have "received ?p = [(SockV4 5 1000, [1])]" by (simp add: received_def q(3))
  with client_datagrams_conserved [OF sharded.dashmap_axioms queue.bounded_channel_axioms reach] reach
  show ?thesis by (intro exI [of _ ?p]) simp
qed

text \<open>C4: No reply of the target is lost without a trace, doubled, or sent to another client inside of a
  port. At every moment of every run of its tasks, the replies that the sessions received, each
  addressed to the client of its session, are exactly those sent to the clients, those refused by
  the full queue, those thrown away (after an error of a send, or at the shutdown), and those that a
  reply loop, the queue or the sender holds. Each reply that was sent to a client was received by a
  session of that client, with the same bytes. The counter of bytes out is the bytes sent to the clients, and the counter of drops, with the
  drops about to be counted, is the number of replies that the full queue refused.\<close>

theorem target_replies_conserved:
  assumes "dashmap D" and "bounded_channel C" and "port_reach D C timely (udp_port_new D C d port) p"
  shows "mset (answered p) = mset (delivered p) + mset (dropped p) + mset (thrown p) + in_flight C p \<and>
    (\<forall>pkt \<in> set (delivered p). \<exists>r bs. FromTarget r bs \<in> set (up_log p) \<and> rp_payload pkt \<in> set bs \<and>
      rp_dst pkt = us_source (the_session p r) \<and> rp_bytes pkt = length (rp_payload pkt)) \<and>
    ps_udp_out_bytes (tb_stats (up_table p)) = of_nat (bytes_of (delivered p)) \<and>
    ps_udp_dropped (tb_stats (up_table p)) + of_nat (pending_drops (up_replies p)) = of_nat (length (dropped p))"
proof -
  have egress: "egress C p" using udp_tasks.traffic_reach [OF port_laws [OF assms(1,2)] assms(3)] ..
  have "\<exists>r bs. FromTarget r bs \<in> set (up_log p) \<and> rp_payload pkt \<in> set bs \<and>
      rp_dst pkt = us_source (the_session p r) \<and> rp_bytes pkt = length (rp_payload pkt)"
    if "pkt \<in> set (delivered p)" for pkt
  proof -
    have "pkt \<in># mset (answered p)" using egress that by (simp add: egress_def)
    then obtain ev where ev: "ev \<in> set (up_log p)" "pkt \<in> set (answered_by (up_table p) ev)"
      by (auto simp: answered_def)
    from ev(2) obtain r bs b where "ev = FromTarget r bs" "b \<in> set bs" "pkt = reply_of (up_table p) r b"
      by (cases ev) auto
    with ev(1) show ?thesis by (intro exI [of _ r] exI [of _ bs]) (simp add: reply_of_def)
  qed
  with egress show ?thesis by (simp add: egress_def)
qed

theorem target_replies_conserved_witness:
  "\<exists>p. example_reach p \<and> FromTarget 0 [[9, 9]] \<in> set (up_log p) \<and>
     in_flight queue_ops p = {#\<lparr>rp_dst = SockV4 5 1000, rp_payload = [9, 9], rp_bytes = 2\<rparr>#}"
proof -
  obtain q where q: "example_reach q" "up_replies q = {#(0, RWait)#}" "us_source (the_session q 0) = SockV4 5 1000"
    "up_log q = [FromClients [(SockV4 5 1000, [1])]]"
    using example_session by blast
  let ?p = "logged [FromTarget 0 [[9, 9]]] (reply_goes 0 RWait (Some (RQueue [[9, 9]])) q)"
  have "reply_step example_map queue_ops Input q ?p" by (rule r_receive) (simp_all add: q(2))
  then have reach: "example_reach ?p" by (rule p_step [OF q(1) p_reply])
  have "answered ?p = [\<lparr>rp_dst = SockV4 5 1000, rp_payload = [9, 9], rp_bytes = 2\<rparr>]"
    "delivered ?p = []" "dropped ?p = []" "thrown ?p = []"
    by (simp_all add: answered_def delivered_def dropped_def thrown_def q(3,4) reply_of_def)
  with target_replies_conserved [OF sharded.dashmap_axioms queue.bounded_channel_axioms reach] reach
  show ?thesis by (intro exI [of _ ?p]) simp
qed

end
