(* ===== verification/Udp_Rest.thy ===== *)
theory Udp_Rest
  imports Udp_Traffic
begin

text \<open>
  A UDP port that is not shut down comes to rest: without new datagrams and ticks its tasks run out of
  work, and then each of them waits for input, every datagram has left the port, and the counters
  are exact.
\<close>

section \<open>The tasks of a port that is not shut down\<close>

definition working :: "('m, 'c) udp_port \<Rightarrow> bool" where
  "working p \<longleftrightarrow> looping (up_listener p) \<and> up_cleanup p \<noteq> CDone \<and> up_sender p \<noteq> SDone"

lemma working_step:
  assumes "port_step D C timely kind p p'" and "\<not> up_shutdown p'" and "\<not> up_shutdown p \<Longrightarrow> working p"
  shows "working p'"
  using assms(1)
proof (cases rule: port_step.cases)
  case p_listener
  then show ?thesis
  proof (cases rule: listener_step.cases)
    case (l_get o' payload xs sys target now tb k)
    then show ?thesis using assms(2,3) rank_after_get(2) [OF l_get(4)] by (simp add: working_def)
  qed (use assms(2,3) in \<open>simp_all add: working_def\<close>)
next
  case p_cleanup
  then show ?thesis
    using assms(2,3) by (cases rule: cleanup_step.cases) (simp_all add: working_def split: option.splits)
next
  case p_reply
  then show ?thesis using assms(2,3) by (cases rule: reply_step.cases) (simp_all add: working_def)
next
  case p_sender
  then show ?thesis using assms(2,3) by (cases rule: sender_step.cases) (simp_all add: working_def)
qed (use assms(2) in simp)

lemma working_reach:
  assumes "port_reach D C timely (udp_port_new D C d port) p" and "\<not> up_shutdown p"
  shows "working p"
  using assms
proof (induction rule: port_reach.induct)
  case p_here
  then show ?case by (simp add: working_def udp_port_new_def)
next
  case (p_step p kind p')
  then show ?case using working_step by blast
qed

section \<open>At rest\<close>

definition at_rest :: "'c reply_chan \<Rightarrow> ('m, 'c) udp_port \<Rightarrow> bool" where
  "at_rest C p \<longleftrightarrow>
     up_listener p = LWait \<and> up_cleanup p = CWait \<and> up_sender p = SWait \<and> ch_items C (up_chan p) = [] \<and>
     (\<forall>(r, pc) \<in># up_replies p. pc = RWait \<and> \<not> us_shutdown (the_session p r))"

lemma waiting_replies:
  assumes "\<forall>(r, pc) \<in># rs. pc = RWait"
  shows "replies_ops rs = {#}" and "loops_hold tb rs = {#}" and "pending_drops rs = 0"
  using assms by (induction rs) auto

lemma rest_reached:
  assumes "bounded_channel C" and "\<nexists>p'. port_step D C timely Progress p p'" and "working p"
    and "tasks_ok D (up_table p) (up_listener p) (up_cleanup p) (up_replies p)" and "\<not> up_shutdown p"
  shows "at_rest C p"
proof -
  have replies: "\<forall>(r, pc) \<in># up_replies p. pc = RWait \<and> \<not> us_shutdown (the_session p r)"
    using assms(2,5) reply_can p_reply by blast
  then have ops: "replies_ops (up_replies p) = {#}" using waiting_replies(1) [of "up_replies p"] by fast
  have idle: "\<nexists>p'. listener_step D Progress p p'" using assms(2) p_listener by metis
  have listener: "up_listener p = LWait"
    by (rule ccontr, insert idle, erule notE, rule listener_can) (use assms(3) in \<open>auto simp: working_def\<close>)
  then have "OpOpen r \<notin># port_ops p" for r using no_opening [OF assms(4) _ ops] by simp
  then have cleanup: "up_cleanup p = CWait"
    using cleanup_can [of p D timely] assms(2,3) p_cleanup unfolding working_def by metis
  have "\<nexists>p'. sender_step C Progress p p'" using assms(2) p_sender by metis
  then have sender: "up_sender p = SWait" and "ch_items C (up_chan p) = []"
    using sender_can [OF assms(1), of p] assms(3) unfolding working_def by blast+
  with replies listener cleanup show ?thesis by (simp add: at_rest_def)
qed

text \<open>And at rest nothing but input can happen.\<close>

lemma rest_stays:
  assumes "bounded_channel C" and "at_rest C p" and "\<not> up_shutdown p"
  shows "\<not> port_step D C timely Progress p p'"
proof
  have replies: "pc = RWait \<and> \<not> us_shutdown (the_session p r)" if "(r, pc) \<in># up_replies p" for r pc
    using assms(2) that by (auto simp: at_rest_def)
  assume "port_step D C timely Progress p p'"
  then show False
  proof (cases rule: port_step.cases)
    case p_listener
    then show ?thesis using assms(2,3) by (cases rule: listener_step.cases) (simp_all add: at_rest_def)
  next
    case p_cleanup
    then show ?thesis using assms(2,3) by (cases rule: cleanup_step.cases) (simp_all add: at_rest_def)
  next
    case p_reply
    then show ?thesis using assms(3) by (cases rule: reply_step.cases) (auto dest: replies)
  next
    case p_sender
    then show ?thesis
      using assms(2,3) bounded_channel.recv_many(1) [OF assms(1), of "up_chan p" send_batch_size]
      by (cases rule: sender_step.cases) (simp_all add: at_rest_def)
  qed
qed

text \<open>C10: A UDP port that is not shut down always comes to rest. From every state that its tasks can
  reach, there is no endless run of their own work (every step but the taking in of new datagrams
  and ticks); and no such step is left exactly when the receive loop, the cleanup task, the sender and
  every reply loop wait for input and the queue is empty. Then nothing is held anywhere: every datagram of a client was sent to
  the target, or its send failed, or it got no session; every reply of the target was sent to its
  client, refused by the full queue or thrown away by a failed send; the counters of bytes in,
  bytes out and drops are exactly what the history says. The sessions in the table are exactly
  those with a reply loop, and the gauge of active flows is their number if the cleanups were timely.\<close>

theorem udp_port_drains:
  assumes "dashmap D" and "bounded_channel C" and "port_reach D C timely (udp_port_new D C d port) p"
    and "\<not> up_shutdown p"
  shows "(\<nexists>f. f 0 = p \<and> (\<forall>n. port_step D C timely Progress (f n) (f (Suc n)))) \<and>
    ((\<nexists>p'. port_step D C timely Progress p p') \<longleftrightarrow> at_rest C p) \<and>
    (at_rest C p \<longrightarrow>
      received p = settled p \<and>
      mset (answered p) = mset (delivered p) + mset (dropped p) + mset (thrown p) \<and>
      ps_udp_in_bytes (tb_stats (up_table p)) = of_nat (sum_list (map bytes_to_target (up_log p))) \<and>
      ps_udp_out_bytes (tb_stats (up_table p)) = of_nat (bytes_of (delivered p)) \<and>
      ps_udp_dropped (tb_stats (up_table p)) = of_nat (length (dropped p)) \<and>
      ran (dm_get D (tb_sessions (up_table p))) = fst ` set_mset (up_replies p) \<and>
      (timely \<and> length (tb_arena (up_table p)) < 2 ^ 64 \<longrightarrow>
        unat (ps_udp_active_flows (tb_stats (up_table p))) = card (dom (dm_get D (tb_sessions (up_table p))))))"
proof (rule conjI [OF no_endless_work [OF assms(2)]], rule conjI, rule_tac [2] impI)
  note laws = port_laws [OF assms(1,2)]
  have inv: "tasks_ok D (up_table p) (up_listener p) (up_cleanup p) (up_replies p)"
    using udp_tasks.port_inv_reach [OF laws assms(3)] by (simp add: port_inv_def)
  show "(\<nexists>p'. port_step D C timely Progress p p') \<longleftrightarrow> at_rest C p"
    using rest_reached [OF assms(2) _ working_reach [OF assms(3,4)] inv assms(4)] rest_stays [OF assms(2) _ assms(4)]
    by blast
  assume rest: "at_rest C p"
  then have waiting: "\<forall>(r, pc) \<in># up_replies p. pc = RWait" by (auto simp: at_rest_def)
  note none = waiting_replies [OF waiting]
  have ops: "port_ops p = {#}" using rest none(1) by (simp add: at_rest_def port_ops_def)
  have traffic: "ingress p" "egress C p" using udp_tasks.traffic_reach [OF laws assms(3)] by simp_all
  have "in_flight C p = {#}" using rest by (simp add: at_rest_def in_flight_def in_queue_def none(2))
  with traffic rest have "received p = settled p"
      "mset (answered p) = mset (delivered p) + mset (dropped p) + mset (thrown p)"
      "ps_udp_in_bytes (tb_stats (up_table p)) = of_nat (sum_list (map bytes_to_target (up_log p)))"
      "ps_udp_out_bytes (tb_stats (up_table p)) = of_nat (bytes_of (delivered p))"
      "ps_udp_dropped (tb_stats (up_table p)) = of_nat (length (dropped p))"
    by (simp_all add: ingress_def egress_def at_rest_def none(3))
  moreover have "ran (dm_get D (tb_sessions (up_table p))) = fst ` set_mset (up_replies p)"
  proof
    show "ran (dm_get D (tb_sessions (up_table p))) \<subseteq> fst ` set_mset (up_replies p)"
      using inv rest by (auto simp: tasks_ok_def served_def at_rest_def ran_def)
    have "r \<in> ran (dm_get D (tb_sessions (up_table p)))" if "(r, pc) \<in># up_replies p" for r pc
    proof -
      have "serving p r" using that by (force simp: serving_def)
      from udp_tasks.covered_reach [OF laws assms(3) this] rest that show ?thesis
        by (auto simp: covered_def listed_def ops at_rest_def ran_def)
    qed
    then show "fst ` set_mset (up_replies p) \<subseteq> ran (dm_get D (tb_sessions (up_table p)))" by auto
  qed
  moreover have "unat (ps_udp_active_flows (tb_stats (up_table p))) = card (dom (dm_get D (tb_sessions (up_table p))))"
    if "timely" "length (tb_arena (up_table p)) < 2 ^ 64"
    using udp_tasks.port_gauge_reach [OF laws] assms(3) that
    by (simp add: port_gauge_def gauge_inv_def opened_def flows_def ops dom_def)
  ultimately show "received p = settled p \<and>
      mset (answered p) = mset (delivered p) + mset (dropped p) + mset (thrown p) \<and>
      ps_udp_in_bytes (tb_stats (up_table p)) = of_nat (sum_list (map bytes_to_target (up_log p))) \<and>
      ps_udp_out_bytes (tb_stats (up_table p)) = of_nat (bytes_of (delivered p)) \<and>
      ps_udp_dropped (tb_stats (up_table p)) = of_nat (length (dropped p)) \<and>
      ran (dm_get D (tb_sessions (up_table p))) = fst ` set_mset (up_replies p) \<and>
      (timely \<and> length (tb_arena (up_table p)) < 2 ^ 64 \<longrightarrow>
        unat (ps_udp_active_flows (tb_stats (up_table p))) = card (dom (dm_get D (tb_sessions (up_table p)))))"
    by blast
qed

text \<open>The session of \<open>example_session\<close>, once its datagram is sent and counted.\<close>

theorem udp_port_drains_witness:
  "\<exists>p. example_reach p \<and> \<not> up_shutdown p \<and> (\<nexists>p'. port_step example_map queue_ops True Progress p p') \<and>
     settled p = [(SockV4 5 1000, [1])] \<and> ps_udp_in_bytes (tb_stats (up_table p)) = 1 \<and>
     unat (ps_udp_active_flows (tb_stats (up_table p))) = 1"
proof -
  obtain q where q: "example_reach q" "up_listener q = LSend 0 [1] []" "up_log q = [FromClients [(SockV4 5 1000, [1])]]"
    "up_replies q = {#(0, RWait)#}" "us_source (the_session q 0) = SockV4 5 1000" "up_cleanup q = CWait" "up_sender q = SWait"
    "ch_items queue_ops (up_chan q) = []" "\<not> up_shutdown q" "\<not> us_shutdown (the_session q 0)"
    "length (tb_arena (up_table q)) = 1" "dm_get example_map (tb_sessions (up_table q)) = [SockV4 5 1000 \<mapsto> 0]"
    using example_session by blast
  define p1 where "p1 = logged [ToTarget 0 [1]] (q\<lparr>up_listener := LTouch 0 [1] []\<rparr>)"
  define p2 where "p2 = on_table (on_session 0 (session_touch 9)) (p1\<lparr>up_listener := LCount [1] []\<rparr>)"
  define p3 where "p3 = on_table (count_in [1]) (p2\<lparr>up_listener := LSlots []\<rparr>)"
  define p where "p = p3\<lparr>up_listener := LWait\<rparr>"
  note defs = p_def p3_def p2_def p1_def
  have "example_reach p1" unfolding p1_def by (rule p_step [OF q(1) p_listener [OF l_sent [OF q(2)]]])
  from p_step [OF this p_listener [OF l_touch]] have "example_reach p2" by (simp add: p2_def p1_def)
  from p_step [OF this p_listener [OF l_count]] have "example_reach p3" by (simp add: p3_def p2_def)
  from p_step [OF this p_listener [OF l_empty]] have reach: "example_reach p" by (simp add: p_def p3_def)
  have rest: "at_rest queue_ops p" using q by (simp add: defs at_rest_def session_touch_def count_in_def)
  have up: "\<not> up_shutdown p" using q(9) by (simp add: defs)
  have log: "received p = [(SockV4 5 1000, [1])]" "sum_list (map bytes_to_target (up_log p)) = 1"
    by (simp_all add: defs received_def q(3))
  have "card (dom (dm_get example_map (tb_sessions (up_table p)))) = 1" "length (tb_arena (up_table p)) = 1"
    by (simp_all add: defs q(11,12) count_in_def)
  with udp_port_drains [OF sharded.dashmap_axioms queue.bounded_channel_axioms reach up] rest reach up log show ?thesis
    by (intro exI [of _ p]) simp
qed

end
