(* ===== verification/Config.thy ===== *)
theory Config
  imports Portset Target
begin

text \<open>
  \<open>src/src/cli.rs\<close> and \<open>src/src/config.rs\<close>: the options of the command line and the checked
  configuration. The argument parser \<open>clap\<close> is not modelled: a \<open>cli\<close> is what it yields.
  The duration parser of \<open>humantime\<close> is a parameter. Durations are nanoseconds.
\<close>

section \<open>The code\<close>

record cli =
  cli_listen_host :: ip_addr
  cli_listen_ports :: str
  cli_target :: str
  cli_dns_server :: "socket_addr option"
  cli_udp_idle_timeout :: nat
  cli_stats_bind :: "socket_addr option"
  cli_stats_window :: nat
  cli_summary_interval :: nat
  cli_max_tcp_connections :: nat

definition parse_duration :: "(str \<Rightarrow> 'e + nat) \<Rightarrow> ('e \<Rightarrow> str) \<Rightarrow> str \<Rightarrow> str + nat" where
  "parse_duration humantime to_string input = map_err to_string (humantime input)"

text \<open>The options when only the two mandatory ones are given.\<close>

definition default_udp_idle_timeout :: str where "default_udp_idle_timeout = lit ''120s''"

definition default_summary_interval :: str where "default_summary_interval = lit ''60s''"

definition cli_defaults :: "(str \<Rightarrow> 'e + nat) \<Rightarrow> ('e \<Rightarrow> str) \<Rightarrow> str \<Rightarrow> str \<Rightarrow> str + cli" where
  "cli_defaults humantime to_string listen_ports target =
     rbind (parse_duration humantime to_string default_udp_idle_timeout) (\<lambda>udp_idle_timeout.
     rbind (parse_duration humantime to_string default_summary_interval) (\<lambda>summary_interval.
       Inr \<lparr>cli_listen_host = IpV4 0, cli_listen_ports = listen_ports, cli_target = target,
         cli_dns_server = None, cli_udp_idle_timeout = udp_idle_timeout, cli_stats_bind = None,
         cli_stats_window = 60, cli_summary_interval = summary_interval,
         cli_max_tcp_connections = 65536\<rparr>))"

record 'r runtime_config =
  rc_listen_host :: ip_addr
  rc_listen_ports :: "u16 list"
  rc_target :: "'r target_addr"
  rc_udp_idle_timeout :: nat
  rc_stats_bind :: "socket_addr option"
  rc_stats_window :: nat
  rc_summary_interval :: nat
  rc_max_tcp_connections :: nat

definition config_new ::
    "ip_addr \<Rightarrow> u16 list \<Rightarrow> 'r target_addr \<Rightarrow> nat \<Rightarrow> socket_addr option \<Rightarrow> nat \<Rightarrow> nat \<Rightarrow> nat \<Rightarrow>
     anyhow + 'r runtime_config" where
  "config_new listen_host listen_ports target udp_idle_timeout stats_bind stats_window summary_interval
      max_tcp_connections =
     (if listen_ports = [] then Inl [lit ''at least one listen port is required'']
      else if udp_idle_timeout = 0 then Inl [lit ''udp idle timeout must be greater than 0'']
      else if stats_window = 0 then Inl [lit ''stats window must be greater than 0'']
      else if max_tcp_connections = 0 then Inl [lit ''max tcp connections must be greater than 0'']
      else Inr \<lparr>rc_listen_host = listen_host, rc_listen_ports = listen_ports, rc_target = target,
             rc_udp_idle_timeout = udp_idle_timeout, rc_stats_bind = stats_bind, rc_stats_window = stats_window,
             rc_summary_interval = summary_interval, rc_max_tcp_connections = max_tcp_connections\<rparr>)"

definition from_cli :: "'r resolver_lib \<Rightarrow> nat \<Rightarrow> cli \<Rightarrow> anyhow + 'r runtime_config" where
  "from_cli lib now cli =
     rbind (map_err (\<lambda>e. [portset_error_fmt e]) (parse_portset (cli_listen_ports cli))) (\<lambda>listen_ports.
     rbind (target_bind lib now (cli_target cli) (cli_dns_server cli)) (\<lambda>target.
       config_new (cli_listen_host cli) listen_ports target (cli_udp_idle_timeout cli) (cli_stats_bind cli)
         (cli_stats_window cli) (cli_summary_interval cli) (cli_max_tcp_connections cli)))"

section \<open>What a configuration guarantees\<close>

lemma from_cli_Inr:
  "from_cli lib now cli = Inr cfg \<longleftrightarrow>
     (\<exists>ports t. parse_portset (cli_listen_ports cli) = Inr ports \<and>
        target_bind lib now (cli_target cli) (cli_dns_server cli) = Inr t \<and>
        0 < cli_udp_idle_timeout cli \<and> 0 < cli_stats_window cli \<and> 0 < cli_max_tcp_connections cli \<and>
        cfg = \<lparr>rc_listen_host = cli_listen_host cli, rc_listen_ports = ports, rc_target = t,
          rc_udp_idle_timeout = cli_udp_idle_timeout cli, rc_stats_bind = cli_stats_bind cli,
          rc_stats_window = cli_stats_window cli, rc_summary_interval = cli_summary_interval cli,
          rc_max_tcp_connections = cli_max_tcp_connections cli\<rparr>)"
  by (auto simp: from_cli_def config_new_def dest: parse_portset_ports split: if_splits)

lemma config_ports: "from_cli lib now cli = Inr cfg \<Longrightarrow>
    rc_listen_ports cfg \<noteq> [] \<and> 0 \<notin> set (rc_listen_ports cfg) \<and> sorted_wrt (<) (rc_listen_ports cfg)"
  by (auto simp: from_cli_Inr dest: parse_portset_ports)


text \<open>With only the two mandatory options, a well formed port expression and an address literal
  with a non-zero port make a valid configuration, whatever the resolver: it listens on all
  interfaces, has no stats endpoint, keeps sixty minutes, and sessions idle out after two
  minutes, provided the duration parser reads the two built-in texts.\<close>

lemma defaults_configure:
  assumes "humantime (lit ''120s'') = Inr (secs 120)" and "humantime (lit ''60s'') = Inr (secs 60)"
    and "parse_portset listen_ports = Inr ports" and "parse_socket_addr tgt = Some addr"
    and "split_host_port tgt = Inr hp"
  shows "\<exists>cli cfg. cli_defaults humantime to_string listen_ports tgt = Inr cli \<and>
    from_cli lib now cli = Inr cfg \<and>
    rc_listen_host cfg = IpV4 0 \<and> rc_listen_ports cfg = ports \<and>
    rc_target cfg = Static \<lparr>st_raw = tgt, st_addr = addr\<rparr> \<and> rc_udp_idle_timeout cfg = secs 120 \<and>
    rc_stats_bind cfg = None \<and> rc_stats_window cfg = 60 \<and> rc_max_tcp_connections cfg = 65536"
proof -
  obtain host port where "hp = (host, port)" by (cases hp)
  with assms(4,5) have "target_bind lib now tgt None = Inr (Static \<lparr>st_raw = tgt, st_addr = addr\<rparr>)"
    by (simp add: target_bind_def)
  with assms show ?thesis
    by (simp add: cli_defaults_def parse_duration_def default_udp_idle_timeout_def default_summary_interval_def
        from_cli_Inr secs_def)
qed

end
