(* ===== verification/Tcp_System.thy ===== *)
theory Tcp_System
  imports Port_Stats Socket "HOL-Library.Multiset"
begin

text \<open>
  \<open>src/src/listener/tcp.rs\<close> and \<open>src/src/forward/tcp.rs\<close>: the accept loops of all listen
  ports, their connections, and the semaphore they share. The semaphore of \<open>tokio\<close> is a
  parameter with its documented laws. Each task is where it stands between its awaits; a
  step is one choice of one task's \<open>select!\<close>, and the steps of all tasks interleave.
\<close>

section \<open>The semaphore\<close>

record 's sem_ops =
  sm_new :: "nat \<Rightarrow> 's"
  sm_acquire :: "'s \<Rightarrow> 's option"
  sm_release :: "'s \<Rightarrow> 's"
  sm_close :: "'s \<Rightarrow> 's"
  sm_available :: "'s \<Rightarrow> nat"
  sm_closed :: "'s \<Rightarrow> bool"

text \<open>\<open>acquire\<close> succeeds when a permit is free and the semaphore is not closed; it fails when the
  semaphore is closed; otherwise it waits (\<open>sm_acquire\<close> is \<^const>\<open>None\<close>).\<close>

locale semaphore =
  fixes S :: "'s sem_ops"
  assumes new_sem: "sm_available S (sm_new S n) = n" "\<not> sm_closed S (sm_new S n)"
    and acquire_None: "sm_acquire S s = None \<longleftrightarrow> sm_available S s = 0 \<or> sm_closed S s"
    and acquire_Some: "sm_acquire S s = Some s' \<Longrightarrow>
      sm_available S s = Suc (sm_available S s') \<and> sm_closed S s' = sm_closed S s"
    and release_sem: "sm_available S (sm_release S s) = Suc (sm_available S s)"
      "sm_closed S (sm_release S s) = sm_closed S s"
    and close_sem: "sm_available S (sm_close S s) = sm_available S s" "sm_closed S (sm_close S s)"

definition counting :: "(nat \<times> bool) sem_ops" where
  "counting =
     \<lparr>sm_new = (\<lambda>n. (n, False)),
      sm_acquire = (\<lambda>(n, closed). if closed \<or> n = 0 then None else Some (n - 1, closed)),
      sm_release = (\<lambda>(n, closed). (Suc n, closed)),
      sm_close = (\<lambda>(n, closed). (n, True)),
      sm_available = fst, sm_closed = snd\<rparr>"

interpretation counting: semaphore counting
  by unfold_locales (auto simp: counting_def split: if_splits)

section \<open>The code\<close>

text \<open>Where a listener stands: waiting for a permit, waiting in \<open>accept\<close> with the permit, waiting
  for its connections after the loop, returned.\<close>

datatype listener_phase = Acquiring | Accepting | Draining | Finished

text \<open>Where a connection task stands: before \<open>proxy\<close> asks for the current address of the target; in its
  \<open>select!\<close>, connecting to that address, then copying between the client and it; before
  \<open>record_tcp_close\<close>; before its permit is dropped.\<close>

datatype conn_phase = Spawned | Connecting socket_addr | Copying socket_addr | Closing | Releasing

record 's tcp_system =
  ts_sem :: 's
  ts_shutdown :: bool
  ts_listeners :: "listener_phase list"
  ts_stats :: "port_stats list"
  ts_conns :: "(nat \<times> conn_phase) multiset"

definition tcp_new :: "'s sem_ops \<Rightarrow> nat \<Rightarrow> u16 list \<Rightarrow> 's tcp_system" where
  "tcp_new S max_tcp_connections ports =
     \<lparr>ts_sem = sm_new S max_tcp_connections, ts_shutdown = False,
      ts_listeners = map (\<lambda>_. Acquiring) ports, ts_stats = map port_stats_new ports, ts_conns = {#}\<rparr>"

definition on_stats :: "nat \<Rightarrow> (port_stats \<Rightarrow> port_stats) \<Rightarrow> 's tcp_system \<Rightarrow> 's tcp_system" where
  "on_stats l f t = t\<lparr>ts_stats := (ts_stats t)[l := f (ts_stats t ! l)]\<rparr>"

definition set_phase :: "nat \<Rightarrow> listener_phase \<Rightarrow> 's tcp_system \<Rightarrow> 's tcp_system" where
  "set_phase l ph t = t\<lparr>ts_listeners := (ts_listeners t)[l := ph]\<rparr>"

definition drop_permit :: "'s sem_ops \<Rightarrow> 's tcp_system \<Rightarrow> 's tcp_system" where
  "drop_permit S t = t\<lparr>ts_sem := sm_release S (ts_sem t)\<rparr>"

text \<open>What a listener's \<open>select!\<close> or await chose.\<close>

datatype listener_choice = SeeShutdown | AcquireOk | AcquireErr | AcceptOk | AcceptErr | JoinedAll

fun listener_act :: "'s sem_ops \<Rightarrow> nat \<Rightarrow> listener_phase \<Rightarrow> listener_choice \<Rightarrow> 's tcp_system \<Rightarrow> 's tcp_system option" where
  "listener_act S l Acquiring SeeShutdown t =
     (if ts_shutdown t then Some (set_phase l Draining t) else None)"
| "listener_act S l Acquiring AcquireOk t =
     map_option (\<lambda>s. set_phase l Accepting (t\<lparr>ts_sem := s\<rparr>)) (sm_acquire S (ts_sem t))"
| "listener_act S l Acquiring AcquireErr t =
     (if sm_closed S (ts_sem t) then Some (set_phase l Draining t) else None)"
| "listener_act S l Accepting SeeShutdown t =
     (if ts_shutdown t then Some (set_phase l Draining (drop_permit S t)) else None)"
| "listener_act S l Accepting AcceptOk t =
     (let t = on_stats l record_tcp_accept t;
          t = t\<lparr>ts_conns := add_mset (l, Spawned) (ts_conns t)\<rparr>
      in Some (set_phase l Acquiring t))"
| "listener_act S l Accepting AcceptErr t = Some (set_phase l Acquiring (drop_permit S t))"
| "listener_act S l Draining JoinedAll t =
     (if \<forall>c \<in># ts_conns t. fst c \<noteq> l then Some (set_phase l Finished t) else None)"
| "listener_act S l ph choice t = None"

text \<open>What a connection task is answered, or what its \<open>select!\<close> chose: the address that \<open>current\<close>
  returns, the result of connecting, that of copying (the byte counts of the two directions), the
  shutdown, or nothing where it does not wait.\<close>

datatype proxy_event =
    CurrentIs socket_addr
  | ConnectIs "io_error + unit"
  | CopyIs "io_error + (u64 \<times> u64)"
  | SeesShutdown
  | Resumed

fun proxy_count :: "io_error + (u64 \<times> u64) \<Rightarrow> port_stats \<Rightarrow> port_stats" where
  "proxy_count (Inr (in_bytes, out_bytes)) stats = add_tcp_bytes in_bytes out_bytes stats"
| "proxy_count (Inl e) stats = stats"

definition conn_goes :: "nat \<times> conn_phase \<Rightarrow> conn_phase \<Rightarrow> 's tcp_system \<Rightarrow> 's tcp_system" where
  "conn_goes c ph t = t\<lparr>ts_conns := add_mset (fst c, ph) (ts_conns t - {#c#})\<rparr>"

fun conn_act :: "'s sem_ops \<Rightarrow> nat \<times> conn_phase \<Rightarrow> proxy_event \<Rightarrow> 's tcp_system \<Rightarrow> 's tcp_system option" where
  "conn_act S (l, Spawned) (CurrentIs a) t = Some (conn_goes (l, Spawned) (Connecting a) t)"
| "conn_act S (l, Connecting a) (ConnectIs (Inr u)) t = Some (conn_goes (l, Connecting a) (Copying a) t)"
| "conn_act S (l, Connecting a) (ConnectIs (Inl e)) t = Some (conn_goes (l, Connecting a) Closing t)"
| "conn_act S (l, Connecting a) SeesShutdown t =
     (if ts_shutdown t then Some (conn_goes (l, Connecting a) Closing t) else None)"
| "conn_act S (l, Copying a) (CopyIs result) t =
     Some (on_stats l (proxy_count result) (conn_goes (l, Copying a) Closing t))"
| "conn_act S (l, Copying a) SeesShutdown t =
     (if ts_shutdown t then Some (conn_goes (l, Copying a) Closing t) else None)"
| "conn_act S (l, Closing) Resumed t = Some (on_stats l record_tcp_close (conn_goes (l, Closing) Releasing t))"
| "conn_act S (l, Releasing) Resumed t = Some (drop_permit S (t\<lparr>ts_conns := ts_conns t - {#(l, Releasing)#}\<rparr>))"
| "conn_act S c ev t = None"

text \<open>A step of the system: of a listener, of a connection, or of \<open>RunningApp::shutdown\<close>, which
  cancels the token and then closes the semaphore.\<close>

inductive tcp_step :: "'s sem_ops \<Rightarrow> 's tcp_system \<Rightarrow> 's tcp_system \<Rightarrow> bool" for S :: "'s sem_ops" where
  listener: "l < length (ts_listeners t) \<Longrightarrow> listener_act S l (ts_listeners t ! l) choice t = Some t' \<Longrightarrow>
    tcp_step S t t'"
| conn: "c \<in># ts_conns t \<Longrightarrow> conn_act S c ev t = Some t' \<Longrightarrow> tcp_step S t t'"
| cancel: "\<not> ts_shutdown t \<Longrightarrow> tcp_step S t (t\<lparr>ts_shutdown := True\<rparr>)"
| close: "ts_shutdown t \<Longrightarrow> \<not> sm_closed S (ts_sem t) \<Longrightarrow> tcp_step S t (t\<lparr>ts_sem := sm_close S (ts_sem t)\<rparr>)"

inductive tcp_reach :: "'s sem_ops \<Rightarrow> 's tcp_system \<Rightarrow> 's tcp_system \<Rightarrow> bool"
  for S :: "'s sem_ops" and t0 :: "'s tcp_system" where
  here: "tcp_reach S t0 t0"
| step: "tcp_reach S t0 t \<Longrightarrow> tcp_step S t t' \<Longrightarrow> tcp_reach S t0 t'"

section \<open>Permits\<close>

definition holding :: "'s tcp_system \<Rightarrow> nat" where
  "holding t = length (filter (\<lambda>ph. ph = Accepting) (ts_listeners t))"

definition uncounted_close :: "nat \<Rightarrow> nat \<times> conn_phase \<Rightarrow> bool" where
  "uncounted_close l c \<longleftrightarrow> fst c = l \<and> snd c \<noteq> Releasing"

text \<open>The connections of a listener that are counted as active.\<close>

definition live :: "nat \<Rightarrow> 's tcp_system \<Rightarrow> nat" where
  "live l t = size (filter_mset (uncounted_close l) (ts_conns t))"

definition tcp_inv :: "'s sem_ops \<Rightarrow> nat \<Rightarrow> 's tcp_system \<Rightarrow> bool" where
  "tcp_inv S n t \<longleftrightarrow>
     sm_available S (ts_sem t) + holding t + size (ts_conns t) = n \<and>
     length (ts_stats t) = length (ts_listeners t) \<and>
     (\<forall>c \<in># ts_conns t. fst c < length (ts_listeners t) \<and> ts_listeners t ! fst c \<noteq> Finished) \<and>
     (\<forall>l < length (ts_listeners t). unat (ps_tcp_active (ts_stats t ! l)) = live l t)"

lemma filter_update:
  "l < length xs \<Longrightarrow> length (filter P (xs[l := y])) + (if P (xs ! l) then 1 else 0) =
    length (filter P xs) + (if P y then 1 else 0)"
proof (induction xs arbitrary: l)
  case (Cons x xs)
  then show ?case by (cases l) auto
qed simp

lemma holding_set_phase:
  assumes "l < length (ts_listeners t)"
  shows "holding (set_phase l ph t) + (if ts_listeners t ! l = Accepting then 1 else 0) =
    holding t + (if ph = Accepting then 1 else 0)"
  using filter_update [OF assms, of "\<lambda>ph. ph = Accepting" ph] by (simp add: holding_def set_phase_def)

lemma tcp_simps [simp]:
  "ts_sem (set_phase l ph t) = ts_sem t" "ts_shutdown (set_phase l ph t) = ts_shutdown t"
  "ts_stats (set_phase l ph t) = ts_stats t" "ts_conns (set_phase l ph t) = ts_conns t"
  "ts_listeners (set_phase l ph t) = (ts_listeners t)[l := ph]"
  "ts_sem (on_stats l f t) = ts_sem t" "ts_shutdown (on_stats l f t) = ts_shutdown t"
  "ts_listeners (on_stats l f t) = ts_listeners t" "ts_conns (on_stats l f t) = ts_conns t"
  "ts_stats (on_stats l f t) = (ts_stats t)[l := f (ts_stats t ! l)]"
  "ts_sem (drop_permit S t) = sm_release S (ts_sem t)" "ts_shutdown (drop_permit S t) = ts_shutdown t"
  "ts_listeners (drop_permit S t) = ts_listeners t" "ts_conns (drop_permit S t) = ts_conns t"
  "ts_stats (drop_permit S t) = ts_stats t"
  "ts_sem (conn_goes c cph t) = ts_sem t" "ts_shutdown (conn_goes c cph t) = ts_shutdown t"
  "ts_listeners (conn_goes c cph t) = ts_listeners t" "ts_stats (conn_goes c cph t) = ts_stats t"
  by (simp_all add: set_phase_def on_stats_def drop_permit_def conn_goes_def)

lemma conns_go: "ts_conns t = add_mset c rest \<Longrightarrow> ts_conns (conn_goes c ph t) = add_mset (fst c, ph) rest"
  by (simp add: conn_goes_def)

text \<open>What a step of a connection can be: it goes on, or its bytes are counted, or its closing, or it
  gives back its permit.\<close>

inductive goes_on :: "conn_phase \<Rightarrow> conn_phase \<Rightarrow> bool" where
  "goes_on Spawned (Connecting a)"
| "goes_on (Connecting a) (Copying a)"
| "goes_on (Connecting a) Closing"
| "goes_on (Copying a) Closing"

lemma on_stats_same [simp]: "on_stats l (\<lambda>s. s) t = t"
  by (simp add: on_stats_def)

lemma conn_act_cases:
  assumes "conn_act S c ev t = Some t'"
  obtains (goes) l ph ph' where "c = (l, ph)" and "goes_on ph ph'" and "t' = conn_goes c ph' t"
  | (counted) l a in_bytes out_bytes where "c = (l, Copying a)" and "ev = CopyIs (Inr (in_bytes, out_bytes))"
      and "t' = on_stats l (add_tcp_bytes in_bytes out_bytes) (conn_goes c Closing t)"
  | (closed) l where "c = (l, Closing)" and "t' = on_stats l record_tcp_close (conn_goes c Releasing t)"
  | (released) l where "c = (l, Releasing)" and "t' = drop_permit S (t\<lparr>ts_conns := ts_conns t - {#c#}\<rparr>)"
proof (cases "\<exists>l a result. c = (l, Copying a) \<and> ev = CopyIs result")
  case True
  then obtain l a result where at: "c = (l, Copying a)" "ev = CopyIs result" by blast
  with assms have t': "t' = on_stats l (proxy_count result) (conn_goes c Closing t)" by simp
  show ?thesis
  proof (cases result)
    case (Inl e)
    then have "proxy_count result = (\<lambda>s. s)" by (intro ext) simp
    with t' show ?thesis by (intro goes(1) [OF at(1)]) (simp_all add: goes_on.simps)
  next
    case (Inr bytes)
    obtain i j where "bytes = (i, j)" by (cases bytes)
    then have "proxy_count result = add_tcp_bytes i j" by (intro ext) (simp add: Inr)
    with t' at \<open>bytes = (i, j)\<close> Inr show ?thesis by (intro counted [of l a i j]) simp_all
  qed
next
  case False
  with assms goes closed released show ?thesis
    by (cases "(S, c, ev, t)" rule: conn_act.cases) (auto simp: goes_on.simps split: if_splits)
qed

lemma live_conns: "ts_conns t' = ts_conns t \<Longrightarrow> live l t' = live l t"
  by (simp add: live_def)

lemma live_add:
  "ts_conns t = add_mset c rest \<Longrightarrow>
   live l t = size (filter_mset (uncounted_close l) rest) + (if uncounted_close l c then 1 else 0)"
  by (simp add: live_def)

lemma active_accept:
  "unat (ps_tcp_active s) + 1 < 2 ^ 64 \<Longrightarrow> unat (ps_tcp_active (record_tcp_accept s)) = Suc (unat (ps_tcp_active s))"
  by (simp add: record_tcp_accept_def Let_def unat_plus_no_wrap)

lemma active_close: "unat (ps_tcp_active (record_tcp_close s)) = unat (ps_tcp_active s) - 1"
  by (simp add: record_tcp_close_def Let_def unat_atomic_dec)

lemma active_count [simp]: "ps_tcp_active (add_tcp_bytes i j s) = ps_tcp_active s"
  by (simp add: add_tcp_bytes_def Let_def)

lemma live_le: "live l t \<le> size (ts_conns t)"
  by (simp add: live_def size_filter_mset_lesseq)

text \<open>The bytes of a connection are counted when its copy ends without an error, and never before.\<close>

lemma tcp_bytes_at_end:
  assumes "tcp_step S t t'"
    and "(ps_tcp_in_bytes (ts_stats t' ! l), ps_tcp_out_bytes (ts_stats t' ! l)) \<noteq>
      (ps_tcp_in_bytes (ts_stats t ! l), ps_tcp_out_bytes (ts_stats t ! l))"
  shows "\<exists>a in_bytes out_bytes. (l, Copying a) \<in># ts_conns t \<and>
    conn_act S (l, Copying a) (CopyIs (Inr (in_bytes, out_bytes))) t = Some t'"
  using assms(1)
proof (cases rule: tcp_step.cases)
  case (listener l' choice)
  then show ?thesis using assms(2)
    by (cases "ts_listeners t ! l'"; cases choice; cases "l' = l"; cases "l < length (ts_stats t)")
      (auto simp: record_tcp_accept_def Let_def list_update_beyond split: if_splits)
next
  case (conn c ev)
  from conn(2) show ?thesis
  proof (cases rule: conn_act_cases)
    case (counted l' a i j)
    have "l' = l" using assms(2) by (cases "l' = l") (simp_all add: counted(3))
    with conn counted show ?thesis by blast
  next
    case (closed l')
    then show ?thesis using assms(2)
      by (cases "l' = l"; cases "l < length (ts_stats t)")
        (simp_all add: record_tcp_close_def Let_def list_update_beyond)
  qed (use assms(2) in simp_all)
qed (use assms(2) in simp_all)

context semaphore
begin

lemma inv_phase:
  assumes "tcp_inv S n t" and "l < length (ts_listeners t)"
    and "ts_listeners t' = (ts_listeners t)[l := ph]" and "ts_stats t' = ts_stats t" and "ts_conns t' = ts_conns t"
    and "sm_available S (ts_sem t') + (if ph = Accepting then 1 else 0) =
      sm_available S (ts_sem t) + (if ts_listeners t ! l = Accepting then 1 else 0)"
    and "ph = Finished \<Longrightarrow> \<forall>c \<in># ts_conns t. fst c \<noteq> l"
  shows "tcp_inv S n t'"
proof -
  have "holding t' + (if ts_listeners t ! l = Accepting then 1 else 0) = holding t + (if ph = Accepting then 1 else 0)"
    using filter_update [OF assms(2), of "\<lambda>ph. ph = Accepting" ph] by (simp add: holding_def assms(3))
  then have "sm_available S (ts_sem t') + holding t' = sm_available S (ts_sem t) + holding t"
    using assms(6) by (simp split: if_splits)
  moreover have "fst c < length (ts_listeners t') \<and> ts_listeners t' ! fst c \<noteq> Finished" if "c \<in># ts_conns t'" for c
    using assms(1,2,7) that by (auto simp: tcp_inv_def assms(3,5) nth_list_update)
  ultimately show ?thesis
    using assms(1) by (simp add: tcp_inv_def assms(3-5) live_conns [OF assms(5)])
qed

lemma inv_listener:
  assumes "tcp_inv S n t" and "n < 2 ^ 64" and "l < length (ts_listeners t)"
    and "listener_act S l (ts_listeners t ! l) choice t = Some t'"
  shows "tcp_inv S n t'"
proof -
  note ph = inv_phase [OF assms(1,3)]
  show ?thesis
  proof (cases "ts_listeners t ! l"; cases choice)
    assume at: "ts_listeners t ! l = Acquiring" "choice = AcquireOk"
    with assms(4) obtain s where s: "sm_acquire S (ts_sem t) = Some s" "t' = set_phase l Accepting (t\<lparr>ts_sem := s\<rparr>)"
      by auto
    show ?thesis by (rule ph [of _ Accepting]) (use s at acquire_Some [OF s(1)] in simp_all)
  next
    assume at: "ts_listeners t ! l = Acquiring" "choice = SeeShutdown"
    with assms(4) have t': "t' = set_phase l Draining t" by (simp split: if_splits)
    show ?thesis by (rule ph [of _ Draining]) (use t' at in simp_all)
  next
    assume at: "ts_listeners t ! l = Acquiring" "choice = AcquireErr"
    with assms(4) have t': "t' = set_phase l Draining t" by (simp split: if_splits)
    show ?thesis by (rule ph [of _ Draining]) (use t' at in simp_all)
  next
    assume at: "ts_listeners t ! l = Accepting" "choice = SeeShutdown"
    with assms(4) have t': "t' = set_phase l Draining (drop_permit S t)" by (simp split: if_splits)
    show ?thesis by (rule ph [of _ Draining]) (use t' at release_sem in simp_all)
  next
    assume at: "ts_listeners t ! l = Accepting" "choice = AcceptErr"
    with assms(4) have t': "t' = set_phase l Acquiring (drop_permit S t)" by simp
    show ?thesis by (rule ph [of _ Acquiring]) (use t' at release_sem in simp_all)
  next
    assume at: "ts_listeners t ! l = Draining" "choice = JoinedAll"
    with assms(4) have t': "t' = set_phase l Finished t" "\<forall>c \<in># ts_conns t. fst c \<noteq> l" by (auto split: if_splits)
    show ?thesis by (rule ph [of _ Finished]) (use t' at in simp_all)
  next
    assume at: "ts_listeners t ! l = Accepting" "choice = AcceptOk"
    define t1 where "t1 = on_stats l record_tcp_accept t"
    have t': "t' = set_phase l Acquiring (t1\<lparr>ts_conns := add_mset (l, Spawned) (ts_conns t1)\<rparr>)"
      using assms(4) at by (simp add: t1_def Let_def)
    have hold: "holding t' + 1 = holding t"
      using filter_update [OF assms(3), of "\<lambda>ph. ph = Accepting" Acquiring] at
      by (simp add: holding_def t' t1_def)
    note inv = assms(1) [unfolded tcp_inv_def]
    have "live l t + 1 < 2 ^ 64" using inv hold live_le [of l t] assms(2) by simp
    then have act: "unat (ps_tcp_active (record_tcp_accept (ts_stats t ! l))) = Suc (live l t)"
      using inv assms(3) by (simp add: active_accept)
    have live': "live l' t' = live l' t + (if l' = l then 1 else 0)" for l'
      by (simp add: live_def t' t1_def uncounted_close_def)
    have "unat (ps_tcp_active (ts_stats t' ! l')) = live l' t'" if "l' < length (ts_listeners t')" for l'
      unfolding live' using that inv act assms(3) by (cases "l' = l") (simp_all add: t' t1_def)
    moreover have "sm_available S (ts_sem t') + holding t' + size (ts_conns t') = n"
      using inv hold by (simp add: t' t1_def)
    moreover have "fst c < length (ts_listeners t') \<and> ts_listeners t' ! fst c \<noteq> Finished" if "c \<in># ts_conns t'" for c
      using that inv assms(3) by (auto simp: t' t1_def nth_list_update)
    ultimately show ?thesis using inv by (simp add: tcp_inv_def t' t1_def)
  qed (use assms(4) in simp_all)
qed

lemma inv_conn:
  assumes "tcp_inv S n t" and "c \<in># ts_conns t" and "conn_act S c ev t = Some t'"
  shows "tcp_inv S n t'"
proof -
  obtain rest where rest: "ts_conns t = add_mset c rest" using assms(2) by (metis mset_add)
  note inv = assms(1) [unfolded tcp_inv_def]
  have l: "fst c < length (ts_listeners t)" "ts_listeners t ! fst c \<noteq> Finished" using inv assms(2) by auto
  have others: "fst c' < length (ts_listeners t) \<and> ts_listeners t ! fst c' \<noteq> Finished" if "c' \<in># rest" for c'
    using inv that rest by simp
  note go = conns_go [OF rest]
  from assms(3) show ?thesis
  proof (cases rule: conn_act_cases)
    case (goes l' ph ph')
    have conns: "ts_conns t' = add_mset (l', ph') rest" "ts_conns t = add_mset (l', ph) rest"
      using go [of ph'] rest goes by simp_all
    have "ph \<noteq> Releasing" "ph' \<noteq> Releasing" using goes(2) by (auto elim: goes_on.cases)
    then have "live k t' = live k t" for k by (simp add: live_def conns uncounted_close_def)
    with inv conns rest l others show ?thesis by (auto simp: tcp_inv_def goes holding_def)
  next
    case (counted l' a i j)
    have conns: "ts_conns t' = add_mset (l', Closing) rest" "ts_conns t = add_mset (l', Copying a) rest"
      using go [of Closing] rest counted by simp_all
    have live': "live k t' = live k t" for k by (simp add: live_def conns uncounted_close_def)
    have "unat (ps_tcp_active (ts_stats t' ! k)) = live k t'" if "k < length (ts_listeners t')" for k
      unfolding live' using that inv l by (cases "k = l'") (simp_all add: counted)
    then show ?thesis using inv conns l others by (auto simp: tcp_inv_def counted holding_def)
  next
    case (closed l')
    have conns: "ts_conns t' = add_mset (l', Releasing) rest" "ts_conns t = add_mset (l', Closing) rest"
      using go [of Releasing] rest closed by simp_all
    have live': "live k t = live k t' + (if k = l' then 1 else 0)" for k
      by (simp add: live_def conns uncounted_close_def)
    have "unat (ps_tcp_active (ts_stats t' ! k)) = live k t'" if "k < length (ts_listeners t')" for k
      using that inv l live' [of k] by (cases "k = l'") (simp_all add: closed active_close)
    then show ?thesis using inv conns l others by (auto simp: tcp_inv_def closed holding_def)
  next
    case (released l')
    have live': "live k t = live k t'" for k
      using rest by (simp add: live_def released uncounted_close_def)
    show ?thesis using inv rest l others release_sem by (auto simp: tcp_inv_def released holding_def live')
  qed
qed

lemma inv_step:
  assumes "tcp_step S t t'" and "tcp_inv S n t" and "n < 2 ^ 64"
  shows "tcp_inv S n t'"
  using assms(1)
proof (cases rule: tcp_step.cases)
  case (listener l choice)
  with inv_listener assms(2,3) show ?thesis by blast
next
  case (conn c ev)
  with inv_conn assms(2) show ?thesis by blast
next
  case cancel
  with assms(2) show ?thesis by (simp add: tcp_inv_def holding_def live_def)
next
  case close
  with assms(2) close_sem show ?thesis by (simp add: tcp_inv_def holding_def live_def)
qed

lemma inv_new: "tcp_inv S n (tcp_new S n ports)"
  by (simp add: tcp_inv_def tcp_new_def new_sem holding_def live_def port_stats_new_def)

lemma inv_tcp_reach:
  assumes "tcp_reach S (tcp_new S n ports) t" and "n < 2 ^ 64"
  shows "tcp_inv S n t"
  using assms by (induction rule: tcp_reach.induct) (auto intro: inv_new inv_step)

end

section \<open>Properties\<close>

text \<open>C1: The connection cap holds. In every state that the listeners, the connections and the
  shutdown can reach together, every permit is free, or held by a listener that waits in
  \<open>accept\<close>, or held by a connection; so there are never more than \<open>max_tcp_connections\<close>
  connections, and each port's active gauge is exactly the number of its connections whose
  closing was not recorded yet. And the cap is not stricter than that: as long as the connections and
  the listeners together are at most that many, no listener waits for a permit, unless the semaphore
  was closed.\<close>

theorem tcp_cap:
  assumes "semaphore S" and "tcp_reach S (tcp_new S n ports) t" and "n < 2 ^ 64"
  shows "sm_available S (ts_sem t) + holding t + size (ts_conns t) = n \<and> size (ts_conns t) \<le> n \<and>
    (\<forall>l < length ports. unat (ps_tcp_active (ts_stats t ! l)) =
       size (filter_mset (\<lambda>c. fst c = l \<and> snd c \<noteq> Releasing) (ts_conns t))) \<and>
    (size (ts_conns t) + length ports \<le> n \<and> \<not> sm_closed S (ts_sem t) \<longrightarrow>
       (\<forall>l < length ports. ts_listeners t ! l = Acquiring \<longrightarrow>
          (\<exists>t'. listener_act S l Acquiring AcquireOk t = Some t')))"
proof -
  have inv: "tcp_inv S n t" by (rule semaphore.inv_tcp_reach [OF assms])
  have ports: "length (ts_listeners t) = length ports"
    using assms(2)
  proof (induction rule: tcp_reach.induct)
    case here
    then show ?case by (simp add: tcp_new_def)
  next
    case (step t t')
    from step.hyps(2) have "length (ts_listeners t') = length (ts_listeners t)"
    proof (cases rule: tcp_step.cases)
      case (listener l choice)
      then show ?thesis
        by (cases "ts_listeners t ! l"; cases choice) (auto simp: Let_def split: if_splits)
    next
      case (conn c ev)
      from conn(2) show ?thesis by (cases rule: conn_act_cases) simp_all
    qed simp_all
    with step.IH show ?case by simp
  qed
  have "\<exists>t'. listener_act S l Acquiring AcquireOk t = Some t'"
    if "size (ts_conns t) + length ports \<le> n" "\<not> sm_closed S (ts_sem t)" "l < length ports" "ts_listeners t ! l = Acquiring" for l
  proof -
    have "Acquiring \<in> set (ts_listeners t)" using that(3,4) ports by (metis nth_mem)
    then have "holding t < length ports"
      unfolding holding_def ports [symmetric] by (rule length_filter_less) simp
    with inv that(1) have "sm_available S (ts_sem t) \<noteq> 0" by (simp add: tcp_inv_def)
    then have "sm_acquire S (ts_sem t) \<noteq> None" using semaphore.acquire_None [OF assms(1)] that(2) by simp
    then show ?thesis by auto
  qed
  with inv ports show ?thesis by (auto simp: tcp_inv_def live_def uncounted_close_def [abs_def])
qed

lemma reach_listener:
  "tcp_reach S t0 t \<Longrightarrow> l < length (ts_listeners t) \<Longrightarrow>
   listener_act S l (ts_listeners t ! l) choice t = Some t' \<Longrightarrow> tcp_reach S t0 t'"
  by (rule tcp_reach.step [OF _ tcp_step.listener])

theorem tcp_cap_witness:
  "\<exists>t. tcp_reach counting (tcp_new counting 2 [80, 443]) t \<and> ts_conns t = {#(0, Spawned)#} \<and>
     sm_available counting (ts_sem t) = 1 \<and> unat (ps_tcp_active (ts_stats t ! 0)) = 1"
proof -
  let ?t0 = "tcp_new counting 2 [80, 443]"
  let ?t1 = "set_phase 0 Accepting (?t0\<lparr>ts_sem := (1, False)\<rparr>)"
  let ?a = "on_stats 0 record_tcp_accept ?t1"
  let ?t2 = "set_phase 0 Acquiring (?a\<lparr>ts_conns := add_mset (0, Spawned) (ts_conns ?a)\<rparr>)"
  have "tcp_reach counting ?t0 ?t1"
    by (rule reach_listener [OF tcp_reach.here, of 0 _ _ AcquireOk]) (simp_all add: tcp_new_def counting_def)
  then have reach: "tcp_reach counting ?t0 ?t2"
    by (rule reach_listener [of _ _ _ 0 AcceptOk]) (simp_all add: tcp_new_def Let_def)
  have conns: "ts_conns ?t2 = {#(0, Spawned)#}" "sm_available counting (ts_sem ?t2) = 1"
    by (simp_all add: tcp_new_def counting_def)
  from tcp_cap [OF counting.semaphore_axioms reach] conns
  have "unat (ps_tcp_active (ts_stats ?t2 ! 0)) = 1" by simp
  with reach conns show ?thesis by blast
qed

text \<open>C38: A listener takes its permit before it waits for a connection, so a permit can be held
  without one: with more listen ports than permits, the system can reach a state with no
  connection at all in which the listeners beyond the first \<open>max_tcp_connections\<close> cannot take
  any step: their ports accept nobody until some other port gets a connection that ends, or
  the program shuts down.\<close>

theorem idle_listeners_starve:
  assumes "semaphore S" and "n < length ports"
  shows "\<exists>t. tcp_reach S (tcp_new S n ports) t \<and> ts_conns t = {#} \<and>
    (\<forall>l. n \<le> l \<and> l < length ports \<longrightarrow>
       ts_listeners t ! l = Acquiring \<and> (\<forall>choice. listener_act S l Acquiring choice t = None))"
proof -
  note laws = semaphore.new_sem [OF assms(1)] semaphore.acquire_None [OF assms(1)] semaphore.acquire_Some [OF assms(1)]
  have "\<exists>t. tcp_reach S (tcp_new S n ports) t \<and> ts_conns t = {#} \<and> \<not> ts_shutdown t \<and>
      \<not> sm_closed S (ts_sem t) \<and> sm_available S (ts_sem t) = n - k \<and>
      length (ts_listeners t) = length ports \<and>
      (\<forall>l. k \<le> l \<and> l < length ports \<longrightarrow> ts_listeners t ! l = Acquiring)" if "k \<le> n" for k
    using that
  proof (induction k)
    case 0
    show ?case
      by (intro exI [of _ "tcp_new S n ports"]) (simp add: tcp_reach.here tcp_new_def laws)
  next
    case (Suc k)
    then obtain t where t: "tcp_reach S (tcp_new S n ports) t" "ts_conns t = {#}" "\<not> ts_shutdown t"
      "\<not> sm_closed S (ts_sem t)" "sm_available S (ts_sem t) = n - k" "length (ts_listeners t) = length ports"
      "\<forall>l. k \<le> l \<and> l < length ports \<longrightarrow> ts_listeners t ! l = Acquiring" by auto
    have "sm_acquire S (ts_sem t) \<noteq> None" using t(4,5) Suc.prems by (simp add: laws)
    then obtain s where s: "sm_acquire S (ts_sem t) = Some s" by blast
    let ?t' = "set_phase k Accepting (t\<lparr>ts_sem := s\<rparr>)"
    have k: "k < length (ts_listeners t)" "ts_listeners t ! k = Acquiring"
      using t(6,7) Suc.prems assms(2) by simp_all
    have "listener_act S k (ts_listeners t ! k) AcquireOk t = Some ?t'" by (simp add: k s)
    from reach_listener [OF t(1) k(1) this] show ?case
      using t laws(4) [OF s] Suc.prems by (intro exI [of _ ?t']) auto
  qed
  from this [of n] obtain t where t: "tcp_reach S (tcp_new S n ports) t" "ts_conns t = {#}" "\<not> ts_shutdown t"
    "\<not> sm_closed S (ts_sem t)" "sm_available S (ts_sem t) = 0"
    "\<forall>l. n \<le> l \<and> l < length ports \<longrightarrow> ts_listeners t ! l = Acquiring" by auto
  have "sm_acquire S (ts_sem t) = None" using t(5) by (simp add: laws)
  then have "listener_act S l Acquiring choice t = None" for l choice
    using t(3,4) by (cases choice) simp_all
  with t show ?thesis by blast
qed

theorem idle_listeners_starve_witness:
  "\<exists>t. tcp_reach counting (tcp_new counting 1 [80, 443]) t \<and> ts_conns t = {#} \<and>
     (\<forall>choice. listener_act counting 1 Acquiring choice t = None)"
  using idle_listeners_starve [OF counting.semaphore_axioms, of 1 "[80, 443]"] by auto

section \<open>Shutdown\<close>

fun phase_rank :: "listener_phase \<Rightarrow> nat" where
  "phase_rank Accepting = 8" | "phase_rank Acquiring = 2" | "phase_rank Draining = 1" | "phase_rank Finished = 0"

fun conn_rank :: "conn_phase \<Rightarrow> nat" where
  "conn_rank Spawned = 5" | "conn_rank (Connecting a) = 4" | "conn_rank (Copying a) = 3"
| "conn_rank Closing = 2" | "conn_rank Releasing = 1"

definition tcp_rank :: "'s tcp_system \<Rightarrow> nat" where
  "tcp_rank t = sum_list (map phase_rank (ts_listeners t)) + (\<Sum>c \<in># ts_conns t. conn_rank (snd c))"

lemma rank_update:
  "l < length xs \<Longrightarrow> sum_list (map phase_rank (xs[l := ph])) + phase_rank (xs ! l) = sum_list (map phase_rank xs) + phase_rank ph"
proof (induction xs arbitrary: l)
  case (Cons x xs)
  then show ?case by (cases l) auto
qed simp

lemma rank_listener:
  assumes "listener_act S l (ts_listeners t ! l) choice t = Some t'" and "l < length (ts_listeners t)"
    and "\<not> (ts_listeners t ! l = Acquiring \<and> choice = AcquireOk)"
  shows "tcp_rank t' < tcp_rank t \<and> ts_shutdown t' = ts_shutdown t"
proof -
  note up = rank_update [OF assms(2)]
  show ?thesis
    using assms up [of Acquiring] up [of Draining] up [of Finished]
    by (cases "ts_listeners t ! l"; cases choice) (auto simp: tcp_rank_def Let_def split: if_splits)
qed

lemma rank_conn:
  assumes "conn_act S c ev t = Some t'" and "c \<in># ts_conns t"
  shows "tcp_rank t' < tcp_rank t \<and> ts_shutdown t' = ts_shutdown t"
proof -
  obtain rest where rest: "ts_conns t = add_mset c rest" using assms(2) by (metis mset_add)
  from assms(1) show ?thesis
    by (cases rule: conn_act_cases) (use rest in \<open>auto simp: tcp_rank_def conns_go elim: goes_on.cases\<close>)
qed

context semaphore
begin

lemma closed_listener:
  "listener_act S l ph choice t = Some t' \<Longrightarrow> sm_closed S (ts_sem t) \<Longrightarrow> sm_closed S (ts_sem t')"
  using acquire_Some release_sem
  by (cases ph; cases choice) (auto simp: Let_def split: if_splits)

lemma closed_conn:
  assumes "conn_act S c ev t = Some t'" and "sm_closed S (ts_sem t)"
  shows "sm_closed S (ts_sem t')"
  using assms(1) by (cases rule: conn_act_cases) (use assms(2) release_sem in simp_all)

lemma shutdown_step:
  assumes "tcp_step S t t'" and "ts_shutdown t" and "sm_closed S (ts_sem t)"
  shows "tcp_rank t' < tcp_rank t \<and> ts_shutdown t' \<and> sm_closed S (ts_sem t')"
  using assms(1)
proof (cases rule: tcp_step.cases)
  case (listener l choice)
  have "sm_acquire S (ts_sem t) = None" using assms(3) by (simp add: acquire_None)
  with listener(2) have "\<not> (ts_listeners t ! l = Acquiring \<and> choice = AcquireOk)" by auto
  with rank_listener [OF listener(2,1)] closed_listener [OF listener(2) assms(3)] assms(2) show ?thesis by simp
next
  case (conn c ev)
  with rank_conn [OF conn(2,1)] closed_conn [OF conn(2) assms(3)] assms(2) show ?thesis by simp
qed (use assms in simp_all)

lemma shutdown_stuck:
  assumes "tcp_inv S n t" and "ts_shutdown t" and "\<nexists>t'. tcp_step S t t'"
  shows "ts_conns t = {#} \<and> (\<forall>ph \<in> set (ts_listeners t). ph = Finished) \<and> sm_available S (ts_sem t) = n"
proof -
  have conns: "ts_conns t = {#}"
  proof (rule ccontr)
    assume "ts_conns t \<noteq> {#}"
    then obtain c where c: "c \<in># ts_conns t" by blast
    obtain l ph where lp: "c = (l, ph)" by (cases c)
    have "\<exists>ev t'. conn_act S c ev t = Some t'"
      using assms(2) by (cases ph) (auto simp: lp intro: exI [of _ SeesShutdown] exI [of _ Resumed] exI [of _ "CurrentIs undefined"])
    with c assms(3) show False by (meson tcp_step.conn)
  qed
  have fin: "ts_listeners t ! l = Finished" if l: "l < length (ts_listeners t)" for l
  proof (rule ccontr)
    assume "ts_listeners t ! l \<noteq> Finished"
    then have "\<exists>choice t'. listener_act S l (ts_listeners t ! l) choice t = Some t'"
      using assms(2) conns
      by (cases "ts_listeners t ! l") (auto intro: exI [of _ SeeShutdown] exI [of _ JoinedAll])
    with l assms(3) show False by (meson tcp_step.listener)
  qed
  then have "holding t = 0" by (auto simp: holding_def filter_empty_conv in_set_conv_nth)
  with assms(1) conns fin show ?thesis by (auto simp: tcp_inv_def in_set_conv_nth)
qed

end

text \<open>C17: The TCP side shuts down. Once the token is cancelled and the semaphore closed, every step
  of any task lowers a rank and keeps it so, hence only finitely many more steps happen, even if
  connections still come in; and when no task can step any more, every listener has returned,
  no connection is left, all permits are back and the active gauge of every port is zero.\<close>

theorem tcp_shutdown_terminates:
  assumes "semaphore S" and "tcp_reach S (tcp_new S n ports) t" and "n < 2 ^ 64"
    and "ts_shutdown t" and "sm_closed S (ts_sem t)"
  shows "(\<forall>t'. tcp_step S t t' \<longrightarrow> tcp_rank t' < tcp_rank t \<and> ts_shutdown t' \<and> sm_closed S (ts_sem t')) \<and>
    ((\<nexists>t'. tcp_step S t t') \<longrightarrow> ts_conns t = {#} \<and> (\<forall>ph \<in> set (ts_listeners t). ph = Finished) \<and>
       sm_available S (ts_sem t) = n \<and> (\<forall>s \<in> set (ts_stats t). ps_tcp_active s = 0))"
proof -
  have inv: "tcp_inv S n t" by (rule semaphore.inv_tcp_reach [OF assms(1-3)])
  have "\<forall>s \<in> set (ts_stats t). ps_tcp_active s = 0" if "ts_conns t = {#}"
    using inv that by (auto simp: tcp_inv_def live_def in_set_conv_nth unat_eq_0)
  then show ?thesis
    using semaphore.shutdown_step [OF assms(1) _ assms(4,5)] semaphore.shutdown_stuck [OF assms(1) inv assms(4)]
    by blast
qed

theorem tcp_shutdown_terminates_witness:
  "\<exists>t. tcp_reach counting (tcp_new counting 1 [80]) t \<and> ts_shutdown t \<and>
     (\<forall>t'. tcp_step counting t t' \<longrightarrow> tcp_rank t' < 2)"
proof -
  let ?t0 = "tcp_new counting 1 [80]"
  let ?t1 = "?t0\<lparr>ts_shutdown := True\<rparr>"
  let ?t2 = "?t1\<lparr>ts_sem := sm_close counting (ts_sem ?t1)\<rparr>"
  have "tcp_reach counting ?t0 ?t1"
    by (rule tcp_reach.step [OF tcp_reach.here tcp_step.cancel]) (simp add: tcp_new_def)
  then have reach: "tcp_reach counting ?t0 ?t2"
    by (rule tcp_reach.step [OF _ tcp_step.close]) (simp_all add: tcp_new_def counting_def)
  have "tcp_rank ?t2 = 2" by (simp add: tcp_rank_def tcp_new_def)
  moreover have "ts_shutdown ?t2" "sm_closed counting (ts_sem ?t2)" by (simp_all add: counting.close_sem)
  ultimately show ?thesis
    using tcp_shutdown_terminates [OF counting.semaphore_axioms reach] reach by auto
qed

end
