(* ===== verification/Runtime.thy ===== *)
theory Runtime
  imports Config Stats_Flow Tcp_System "HOL-Library.Sublist"
begin

text \<open>
  \<open>src/src/runtime.rs\<close>: from a checked configuration to the running program and back. All
  sockets are bound before any task is spawned. The kernel answers the calls of the
  \<open>n\<close>-th socket construction of the start-up by \<open>sys n\<close>; the semaphore is the parameter of
  the TCP side. The messages of the errors are not rendered: an error says which socket
  failed, and how. A panic is \<^const>\<open>None\<close>.
\<close>

section \<open>The code: start\<close>

datatype startup_error =
    StatsBindFailed socket_addr io_error
  | StatsAddrFailed io_error
  | TcpBindFailed socket_addr io_error
  | UdpBindFailed socket_addr io_error

text \<open>The socket constructions that a start attempts.\<close>

datatype binding = BindTcp socket_addr | BindUdp socket_addr

datatype task =
    RollupTask
  | SummaryTask nat
  | HttpTask sock
  | TcpTask u16 sock
  | UdpTask u16 sock nat

record 's running_app =
  ra_stats_bind :: "socket_addr option"
  ra_stats :: stats_registry
  ra_shutdown :: bool
  ra_tasks :: "task list"
  ra_tcp_semaphore :: 's

text \<open>\<open>Semaphore::MAX_PERMITS\<close> of \<open>tokio\<close> on a 64-bit machine; more permits make \<open>new\<close> panic.\<close>

definition sem_max_permits :: nat where "sem_max_permits = 2 ^ 61 - 1"

definition bind_stats ::
    "(nat \<Rightarrow> kernel) \<Rightarrow> (sock \<Rightarrow> io_error + socket_addr) \<Rightarrow> socket_addr option \<Rightarrow>
     binding list \<times> (startup_error + (sock \<times> socket_addr) option)" where
  "bind_stats sys local_addr stats_bind =
     (case stats_bind of
        None \<Rightarrow> ([], Inr None)
      | Some addr \<Rightarrow>
          ([BindTcp addr],
           rbind (map_err (StatsBindFailed addr) (snd (bind_tcp_listener (sys 0) addr))) (\<lambda>listener.
           rbind (map_err StatsAddrFailed (local_addr listener)) (\<lambda>bound. Inr (Some (listener, bound))))))"

fun bind_ports ::
    "(nat \<Rightarrow> kernel) \<Rightarrow> nat \<Rightarrow> ip_addr \<Rightarrow> u16 list \<Rightarrow> binding list \<times> (startup_error + (u16 \<times> sock \<times> sock) list)" where
  "bind_ports sys n listen_host [] = ([], Inr [])"
| "bind_ports sys n listen_host (port # ports) =
     (let listen_addr = socket_addr_new listen_host port in
      (case snd (bind_tcp_listener (sys n) listen_addr) of
         Inl e \<Rightarrow> ([BindTcp listen_addr], Inl (TcpBindFailed listen_addr e))
       | Inr tcp_listener \<Rightarrow>
           (case snd (bind_udp_socket (sys (n + 1)) listen_addr) of
              Inl e \<Rightarrow> ([BindTcp listen_addr, BindUdp listen_addr], Inl (UdpBindFailed listen_addr e))
            | Inr udp_socket \<Rightarrow>
                (case bind_ports sys (n + 2) listen_host ports of
                   (calls, r) \<Rightarrow>
                     (BindTcp listen_addr # BindUdp listen_addr # calls,
                      rbind r (\<lambda>listeners. Inr ((port, tcp_listener, udp_socket) # listeners)))))))"

fun spawn_listeners :: "stats_registry \<Rightarrow> nat \<Rightarrow> (u16 \<times> sock \<times> sock) list \<Rightarrow> task list \<Rightarrow> task list option" where
  "spawn_listeners stats udp_idle_timeout [] tasks = Some tasks"
| "spawn_listeners stats udp_idle_timeout ((port, tcp_listener, udp_socket) # listeners) tasks =
     (case registry_port stats port of
        None \<Rightarrow> None
      | Some port_stats \<Rightarrow>
          spawn_listeners stats udp_idle_timeout listeners
            (tasks @ [TcpTask port_stats tcp_listener, UdpTask port_stats udp_socket udp_idle_timeout]))"

definition start ::
    "'s sem_ops \<Rightarrow> (nat \<Rightarrow> kernel) \<Rightarrow> (sock \<Rightarrow> io_error + socket_addr) \<Rightarrow> u64 \<Rightarrow> 'r runtime_config \<Rightarrow>
     (binding list \<times> (startup_error + 's running_app)) option" where
  "start S sys local_addr unix_now config =
     (if sem_max_permits < rc_max_tcp_connections config then None
      else
        let tcp_semaphore = sm_new S (rc_max_tcp_connections config);
            stats = registry_new unix_now (rc_listen_ports config) (target_display (rc_target config))
              (rc_stats_window config)
        in case bind_stats sys local_addr (rc_stats_bind config) of
          (calls, Inl e) \<Rightarrow> Some (calls, Inl e)
        | (calls, Inr stats_endpoint) \<Rightarrow>
            (case bind_ports sys (length calls) (rc_listen_host config) (rc_listen_ports config) of
               (calls', Inl e) \<Rightarrow> Some (calls @ calls', Inl e)
             | (calls', Inr listeners) \<Rightarrow>
                 let tasks = [RollupTask];
                     tasks = (if rc_summary_interval config \<noteq> 0
                              then tasks @ [SummaryTask (rc_summary_interval config)] else tasks);
                     tasks = (case stats_endpoint of
                                Some (stats_listener, _) \<Rightarrow> tasks @ [HttpTask stats_listener]
                              | None \<Rightarrow> tasks)
                 in map_option (\<lambda>tasks.
                      (calls @ calls', Inr \<lparr>ra_stats_bind = map_option snd stats_endpoint, ra_stats = stats,
                         ra_shutdown = False, ra_tasks = tasks, ra_tcp_semaphore = tcp_semaphore\<rparr>))
                    (spawn_listeners stats (rc_udp_idle_timeout config) listeners tasks)))"

section \<open>The code: shutdown\<close>

text \<open>The results of the tasks in the order in which they end.\<close>

datatype join_result = TaskOk | TaskErr anyhow | TaskPanicked str

fun join_all :: "anyhow option \<Rightarrow> join_result list \<Rightarrow> anyhow option" where
  "join_all first_error [] = first_error"
| "join_all first_error (TaskOk # rs) = join_all first_error rs"
| "join_all first_error (TaskErr error # rs) =
     join_all (if first_error = None then Some error else first_error) rs"
| "join_all first_error (TaskPanicked error # rs) =
     join_all (if first_error = None then Some [lit ''task join failure: '' @ error] else first_error) rs"

definition app_shutdown :: "'s sem_ops \<Rightarrow> join_result list \<Rightarrow> 's running_app \<Rightarrow> (anyhow + unit) \<times> 's running_app" where
  "app_shutdown S results app =
     (let app = app\<lparr>ra_shutdown := True\<rparr>;
          app = app\<lparr>ra_tcp_semaphore := sm_close S (ra_tcp_semaphore app)\<rparr>
      in (case join_all None results of Some error \<Rightarrow> Inl error | None \<Rightarrow> Inr (), app))"

section \<open>What a start attempts\<close>

definition port_plan :: "ip_addr \<Rightarrow> u16 list \<Rightarrow> binding list" where
  "port_plan host ports =
     concat (map (\<lambda>p. [BindTcp (socket_addr_new host p), BindUdp (socket_addr_new host p)]) ports)"

definition bind_plan :: "'r runtime_config \<Rightarrow> binding list" where
  "bind_plan config =
     (case rc_stats_bind config of None \<Rightarrow> [] | Some a \<Rightarrow> [BindTcp a]) @
     port_plan (rc_listen_host config) (rc_listen_ports config)"

definition tcp_sock :: "socket_addr \<Rightarrow> sock" where
  "tcp_sock a = \<lparr>sk_type = Stream, sk_local = a, sk_peer = None\<rparr>"

definition udp_sock :: "socket_addr \<Rightarrow> sock" where
  "udp_sock a = \<lparr>sk_type = Dgram, sk_local = a, sk_peer = None\<rparr>"

lemma bound_tcp: "snd (bind_tcp_listener sys a) = Inr s \<Longrightarrow> s = tcp_sock a"
  by (auto simp: bind_tcp_listener_def made_def tcp_sock_def split: option.splits)

lemma bound_udp: "snd (bind_udp_socket sys a) = Inr s \<Longrightarrow> s = udp_sock a"
  by (auto simp: bind_udp_socket_def made_def udp_sock_def split: option.splits)

text \<open>The socket that an error is about, when it is about binding.\<close>

fun failed_binding :: "startup_error \<Rightarrow> (binding \<times> io_error) option" where
  "failed_binding (StatsBindFailed a e) = Some (BindTcp a, e)"
| "failed_binding (StatsAddrFailed e) = None"
| "failed_binding (TcpBindFailed a e) = Some (BindTcp a, e)"
| "failed_binding (UdpBindFailed a e) = Some (BindUdp a, e)"

text \<open>What the kernel answers to the construction of a socket.\<close>

fun construct :: "kernel \<Rightarrow> binding \<Rightarrow> io_error + sock" where
  "construct sys (BindTcp a) = snd (bind_tcp_listener sys a)"
| "construct sys (BindUdp a) = snd (bind_udp_socket sys a)"

lemma bind_ports_spec:
  "case bind_ports sys n host ports of
     (calls, Inr ls) \<Rightarrow> calls = port_plan host ports \<and>
       ls = map (\<lambda>p. (p, tcp_sock (socket_addr_new host p), udp_sock (socket_addr_new host p))) ports \<and>
       (\<forall>i < length calls. \<exists>s. construct (sys (n + i)) (calls ! i) = Inr s)
   | (calls, Inl err) \<Rightarrow> \<exists>pre b e post. port_plan host ports = pre @ b # post \<and> calls = pre @ [b] \<and>
       failed_binding err = Some (b, e) \<and> construct (sys (n + length pre)) b = Inl e \<and>
       (\<forall>i < length pre. \<exists>s. construct (sys (n + i)) (pre ! i) = Inr s)"
proof (induction ports arbitrary: n)
  case Nil
  then show ?case by (simp add: port_plan_def)
next
  case (Cons p ports)
  let ?a = "socket_addr_new host p"
  have plan: "port_plan host (p # ports) = BindTcp ?a # BindUdp ?a # port_plan host ports"
    by (simp add: port_plan_def)
  show ?case
  proof (cases "snd (bind_tcp_listener (sys n) ?a)")
    case (Inl e)
    then show ?thesis
      by (simp add: plan Let_def)
  next
    case tcp: (Inr t)
    show ?thesis
    proof (cases "snd (bind_udp_socket (sys (n + 1)) ?a)")
      case (Inl e)
      with tcp show ?thesis
        by (simp add: plan Let_def)
    next
      case udp: (Inr u)
      obtain calls r where rest: "bind_ports sys (n + 2) host ports = (calls, r)"
        by (cases "bind_ports sys (n + 2) host ports")
      have both: "\<exists>s. construct (sys (n + i)) ((BindTcp ?a # BindUdp ?a # xs) ! i) = Inr s"
        if "i < length (BindTcp ?a # BindUdp ?a # xs)"
          and "\<forall>j < length xs. \<exists>s. construct (sys (n + 2 + j)) (xs ! j) = Inr s" for xs i
        using that tcp udp by (cases i; cases "i - 1") (auto simp: add.assoc)
      show ?thesis
      proof (cases r)
        case (Inr ls)
        have IH: "calls = port_plan host ports \<and>
            ls = map (\<lambda>p. (p, tcp_sock (socket_addr_new host p), udp_sock (socket_addr_new host p))) ports \<and>
            (\<forall>i < length calls. \<exists>s. construct (sys (n + 2 + i)) (calls ! i) = Inr s)"
          using Cons.IH [of "n + 2"] unfolding rest Inr prod.case sum.case .
        then have "\<forall>i < length (BindTcp ?a # BindUdp ?a # calls).
            \<exists>s. construct (sys (n + i)) ((BindTcp ?a # BindUdp ?a # calls) ! i) = Inr s" using both by blast
        with IH tcp udp rest Inr bound_tcp [OF tcp] bound_udp [OF udp] show ?thesis by (simp add: plan Let_def)
      next
        case (Inl err)
        from Cons.IH [of "n + 2"] obtain pre b e post where IH: "port_plan host ports = pre @ b # post"
          "calls = pre @ [b]" "failed_binding err = Some (b, e)" "construct (sys (n + 2 + length pre)) b = Inl e"
          "\<forall>i < length pre. \<exists>s. construct (sys (n + 2 + i)) (pre ! i) = Inr s"
          unfolding rest Inl prod.case sum.case by blast
        then have "\<forall>i < length (BindTcp ?a # BindUdp ?a # pre).
            \<exists>s. construct (sys (n + i)) ((BindTcp ?a # BindUdp ?a # pre) ! i) = Inr s" using both by blast
        with IH tcp udp rest Inl show ?thesis
          by (simp add: plan Let_def)
      qed
    qed
  qed
qed


lemma nth_append_all:
  assumes "\<forall>i < length xs. P i (xs ! i)" and "\<forall>i < length ys. P (length xs + i) (ys ! i)"
    and "i < length xs + length ys"
  shows "P i ((xs @ ys) ! i)"
proof (cases "i < length xs")
  case True
  with assms(1) show ?thesis by (simp add: nth_append)
next
  case False
  then obtain j where "i = length xs + j" using le_Suc_ex not_less by blast
  with assms(2,3) show ?thesis by simp
qed

lemma spawn_listeners_all:
  assumes "\<forall>l \<in> set ls. registry_port stats (fst l) = Some (fst l)"
  shows "spawn_listeners stats d ls tasks =
    Some (tasks @ concat (map (\<lambda>(p, t, u). [TcpTask p t, UdpTask p u d]) ls))"
  using assms by (induction ls arbitrary: tasks) auto

lemma registry_new_port: "p \<in> set ports \<Longrightarrow> registry_port (registry_new now ports target w) p = Some p"
  by (simp add: registry_port_def registry_new_ports)

text \<open>The tasks of a successful start.\<close>

definition task_plan :: "'r runtime_config \<Rightarrow> task list" where
  "task_plan config =
     [RollupTask] @
     (if rc_summary_interval config = 0 then [] else [SummaryTask (rc_summary_interval config)]) @
     (case rc_stats_bind config of None \<Rightarrow> [] | Some a \<Rightarrow> [HttpTask (tcp_sock a)]) @
     concat (map (\<lambda>p.
         [TcpTask p (tcp_sock (socket_addr_new (rc_listen_host config) p)),
          UdpTask p (udp_sock (socket_addr_new (rc_listen_host config) p)) (rc_udp_idle_timeout config)])
       (rc_listen_ports config))"

text \<open>The three ways of a start with an acceptable cap: the endpoint fails, a port fails, all sockets
  are bound.\<close>

lemma stats_calls:
  "bind_stats sys local_addr b = (calls, r) \<Longrightarrow> calls = (case b of None \<Rightarrow> [] | Some a \<Rightarrow> [BindTcp a])"
  by (auto simp: bind_stats_def split: option.splits)

lemma start_endpoint_fails:
  assumes "\<not> sem_max_permits < rc_max_tcp_connections config"
    and "bind_stats sys local_addr (rc_stats_bind config) = (calls, Inl err)"
  shows "start S sys local_addr unix_now config = Some (calls, Inl err)"
    and "\<exists>a. rc_stats_bind config = Some a \<and> calls = [BindTcp a] \<and>
      (failed_binding err = None \<or> (\<exists>e. failed_binding err = Some (BindTcp a, e) \<and> snd (bind_tcp_listener (sys 0) a) = Inl e))"
proof -
  show "start S sys local_addr unix_now config = Some (calls, Inl err)"
    using assms by (simp add: start_def Let_def)
  obtain a where a: "rc_stats_bind config = Some a" using assms(2) by (auto simp: bind_stats_def split: option.splits)
  with assms(2) have "failed_binding err = None \<or>
      (\<exists>e. failed_binding err = Some (BindTcp a, e) \<and> snd (bind_tcp_listener (sys 0) a) = Inl e)"
    by (auto simp: bind_stats_def rbind_Inl map_err_Inl)
  with a stats_calls [OF assms(2)] show "\<exists>a. rc_stats_bind config = Some a \<and> calls = [BindTcp a] \<and>
      (failed_binding err = None \<or> (\<exists>e. failed_binding err = Some (BindTcp a, e) \<and> snd (bind_tcp_listener (sys 0) a) = Inl e))"
    by simp
qed

lemma start_endpoint_bound:
  assumes "bind_stats sys local_addr (rc_stats_bind config) = (calls, Inr ep)"
  shows "\<forall>i < length calls. \<exists>s. construct (sys i) (calls ! i) = Inr s"
    and "map_option fst ep = map_option tcp_sock (rc_stats_bind config)"
    and "bind_plan config = calls @ port_plan (rc_listen_host config) (rc_listen_ports config)"
  using assms bound_tcp stats_calls [OF assms] by (auto simp: bind_stats_def bind_plan_def split: option.splits)

lemma start_port_fails:
  assumes "\<not> sem_max_permits < rc_max_tcp_connections config"
    and "bind_stats sys local_addr (rc_stats_bind config) = (calls0, Inr ep)"
    and "bind_ports sys (length calls0) (rc_listen_host config) (rc_listen_ports config) = (calls1, Inl err)"
  obtains pre b e where "start S sys local_addr unix_now config = Some (pre @ [b], Inl err)"
    and "prefix (pre @ [b]) (bind_plan config)" and "failed_binding err = Some (b, e)"
    and "construct (sys (length pre)) b = Inl e" and "\<forall>i < length pre. \<exists>s. construct (sys i) (pre ! i) = Inr s"
proof -
  note ep = start_endpoint_bound [OF assms(2)]
  from bind_ports_spec [where sys = sys and n = "length calls0" and host = "rc_listen_host config"
      and ports = "rc_listen_ports config", unfolded assms(3) prod.case sum.case]
  obtain pre b e post where p: "port_plan (rc_listen_host config) (rc_listen_ports config) = pre @ b # post"
    "calls1 = pre @ [b]" "failed_binding err = Some (b, e)" "construct (sys (length calls0 + length pre)) b = Inl e"
    "\<forall>i < length pre. \<exists>s. construct (sys (length calls0 + i)) (pre ! i) = Inr s" by blast
  have "\<exists>s. construct (sys i) ((calls0 @ pre) ! i) = Inr s" if "i < length (calls0 @ pre)" for i
    using nth_append_all [of calls0 "\<lambda>i c. \<exists>s. construct (sys i) c = Inr s" pre] ep(1) p(5) that by simp
  moreover have "start S sys local_addr unix_now config = Some ((calls0 @ pre) @ [b], Inl err)"
    using assms p(2) by (simp add: start_def Let_def)
  moreover have "prefix ((calls0 @ pre) @ [b]) (bind_plan config)" by (simp add: ep(3) p(1))
  ultimately show ?thesis using that [of "calls0 @ pre" b e] p(3,4) by simp
qed

lemma start_all_bound:
  assumes "\<not> sem_max_permits < rc_max_tcp_connections config"
    and "bind_stats sys local_addr (rc_stats_bind config) = (calls0, Inr ep)"
    and "bind_ports sys (length calls0) (rc_listen_host config) (rc_listen_ports config) = (calls1, Inr ls)"
  obtains app where "start S sys local_addr unix_now config = Some (bind_plan config, Inr app)"
    and "\<forall>i < length (bind_plan config). \<exists>s. construct (sys i) (bind_plan config ! i) = Inr s"
    and "ra_tasks app = task_plan config" and "ra_tcp_semaphore app = sm_new S (rc_max_tcp_connections config)"
    and "\<not> ra_shutdown app"
proof -
  let ?host = "rc_listen_host config" and ?ports = "rc_listen_ports config" and ?idle = "rc_udp_idle_timeout config"
  let ?stats = "registry_new unix_now ?ports (target_display (rc_target config)) (rc_stats_window config)"
  note ep = start_endpoint_bound [OF assms(2)]
  from bind_ports_spec [where sys = sys and n = "length calls0" and host = ?host and ports = ?ports,
      unfolded assms(3) prod.case sum.case]
  have p: "calls1 = port_plan ?host ?ports"
    "ls = map (\<lambda>p. (p, tcp_sock (socket_addr_new ?host p), udp_sock (socket_addr_new ?host p))) ?ports"
    "\<forall>i < length calls1. \<exists>s. construct (sys (length calls0 + i)) (calls1 ! i) = Inr s" by blast+
  have ok: "\<exists>s. construct (sys i) ((calls0 @ calls1) ! i) = Inr s" if "i < length calls0 + length calls1" for i
    using nth_append_all [of calls0 "\<lambda>i c. \<exists>s. construct (sys i) c = Inr s" calls1] ep(1) p(3) that by blast
  let ?pairs = "concat (map (\<lambda>(p, t, u). [TcpTask p t, UdpTask p u ?idle]) ls)"
  have spawn: "spawn_listeners ?stats ?idle ls tasks = Some (tasks @ ?pairs)" for tasks
    by (rule spawn_listeners_all) (auto simp: p(2) registry_new_port)
  let ?sum = "if rc_summary_interval config \<noteq> 0 then [RollupTask] @ [SummaryTask (rc_summary_interval config)] else [RollupTask]"
  define app where "app = \<lparr>ra_stats_bind = map_option snd ep, ra_stats = ?stats, ra_shutdown = False,
    ra_tasks = (case ep of Some (l, _) \<Rightarrow> ?sum @ [HttpTask l] | None \<Rightarrow> ?sum) @ ?pairs,
    ra_tcp_semaphore = sm_new S (rc_max_tcp_connections config)\<rparr>"
  have run: "start S sys local_addr unix_now config = Some (calls0 @ calls1, Inr app)"
    using assms(1) by (simp add: start_def Let_def assms(2,3) spawn app_def)
  have "ra_tasks app = task_plan config"
    using ep(2) by (cases ep; cases "rc_stats_bind config") (auto simp: app_def task_plan_def p(2) o_def)
  with that [of app] run ok ep(3) p(1) show ?thesis by (simp add: app_def)
qed

text \<open>C21: Starting is all or nothing. The sockets are attempted in a fixed order: the stats
  endpoint if there is one, then for each listen port in ascending order the TCP listener and the
  UDP socket. The first construction that fails ends the start with an error that names it, later
  ones are not attempted and no task exists yet. If all succeed, there is one rollup task, a
  summary task unless its interval is zero, a stats server if there is an endpoint, and for every
  listen port exactly one TCP and one UDP task with the sockets bound to that port; looking up the
  ports' counters does not panic. The only panic is a connection cap above the permits that a
  semaphore can have.\<close>

theorem start_spec:
  "case start S sys local_addr unix_now config of
     None \<Rightarrow> sem_max_permits < rc_max_tcp_connections config
   | Some (calls, Inr app) \<Rightarrow>
       rc_max_tcp_connections config \<le> sem_max_permits \<and> calls = bind_plan config \<and>
       (\<forall>i < length calls. \<exists>s. construct (sys i) (calls ! i) = Inr s) \<and>
       ra_tasks app =
         [RollupTask] @
         (if rc_summary_interval config = 0 then [] else [SummaryTask (rc_summary_interval config)]) @
         (case rc_stats_bind config of None \<Rightarrow> [] | Some a \<Rightarrow> [HttpTask (tcp_sock a)]) @
         concat (map (\<lambda>p.
             [TcpTask p (tcp_sock (socket_addr_new (rc_listen_host config) p)),
              UdpTask p (udp_sock (socket_addr_new (rc_listen_host config) p)) (rc_udp_idle_timeout config)])
           (rc_listen_ports config)) \<and>
       ra_tcp_semaphore app = sm_new S (rc_max_tcp_connections config) \<and> \<not> ra_shutdown app
   | Some (calls, Inl err) \<Rightarrow>
       rc_max_tcp_connections config \<le> sem_max_permits \<and> calls \<noteq> [] \<and> prefix calls (bind_plan config) \<and>
       (\<forall>i < length calls - 1. \<exists>s. construct (sys i) (calls ! i) = Inr s) \<and>
       (case failed_binding err of
          Some (b, e) \<Rightarrow> last calls = b \<and> construct (sys (length calls - 1)) b = Inl e
        | None \<Rightarrow> length calls = 1 \<and> rc_stats_bind config \<noteq> None)"
proof (cases "sem_max_permits < rc_max_tcp_connections config")
  case True
  then show ?thesis by (simp add: start_def)
next
  case small: False
  obtain calls0 r0 where stats: "bind_stats sys local_addr (rc_stats_bind config) = (calls0, r0)"
    by (cases "bind_stats sys local_addr (rc_stats_bind config)")
  show ?thesis
  proof (cases r0)
    case (Inl err)
    have run: "start S sys local_addr unix_now config = Some (calls0, Inl err)"
      by (rule start_endpoint_fails(1) [OF small stats [unfolded Inl]])
    from start_endpoint_fails(2) [OF small stats [unfolded Inl]] small show ?thesis
      unfolding run by (auto simp: bind_plan_def)
  next
    case (Inr ep)
    note stats = stats [unfolded Inr]
    obtain calls1 r1 where bind: "bind_ports sys (length calls0) (rc_listen_host config) (rc_listen_ports config) = (calls1, r1)"
      by (cases "bind_ports sys (length calls0) (rc_listen_host config) (rc_listen_ports config)")
    show ?thesis
    proof (cases r1)
      case (Inl err)
      from start_port_fails [OF small stats bind [unfolded Inl]] obtain pre b e where
        fails: "start S sys local_addr unix_now config = Some (pre @ [b], Inl err)" "prefix (pre @ [b]) (bind_plan config)"
        "failed_binding err = Some (b, e)" "construct (sys (length pre)) b = Inl e"
        "\<forall>i < length pre. \<exists>s. construct (sys i) (pre ! i) = Inr s" .
      then show ?thesis using small by (simp add: nth_append)
    next
      case listeners: (Inr ls)
      from start_all_bound [OF small stats bind [unfolded listeners]] obtain app where
        "start S sys local_addr unix_now config = Some (bind_plan config, Inr app)"
        "\<forall>i < length (bind_plan config). \<exists>s. construct (sys i) (bind_plan config ! i) = Inr s"
        "ra_tasks app = task_plan config" "ra_tcp_semaphore app = sm_new S (rc_max_tcp_connections config)"
        "\<not> ra_shutdown app" .
      then show ?thesis using small by (simp add: task_plan_def)
    qed
  qed
qed

definition example_config :: "unit runtime_config" where
  "example_config =
     \<lparr>rc_listen_host = IpV4 0, rc_listen_ports = [443], rc_target = Static \<lparr>st_raw = [], st_addr = SockV4 1 9\<rparr>,
      rc_udp_idle_timeout = secs 60, rc_stats_bind = None, rc_stats_window = 2, rc_summary_interval = 0,
      rc_max_tcp_connections = 5\<rparr>"

theorem start_spec_witness:
  "\<exists>app. start counting (\<lambda>_ _. None) (\<lambda>_. Inl (OtherError 0)) 7 example_config =
       Some ([BindTcp (SockV4 0 443), BindUdp (SockV4 0 443)], Inr app) \<and>
     ra_tasks app = [RollupTask, TcpTask 443 (tcp_sock (SockV4 0 443)), UdpTask 443 (udp_sock (SockV4 0 443)) (secs 60)]"
proof -
  let ?run = "start counting (\<lambda>_ _. None) (\<lambda>_. Inl (OtherError 0)) 7 example_config"
  have "registry_port (registry_new 7 [443] target 2) 443 = Some 443" for target
    by (rule registry_new_port) simp
  then obtain calls app where run: "?run = Some (calls, Inr app)"
    by (simp add: start_def example_config_def sem_max_permits_def bind_stats_def Let_def
        bind_tcp_listener_def bind_udp_socket_def made_def configure_udp_socket_def)
  from start_spec [where S = counting and sys = "\<lambda>_ _. None" and local_addr = "\<lambda>_. Inl (OtherError 0)" and unix_now = 7
      and config = example_config] run show ?thesis
    by (simp add: example_config_def bind_plan_def port_plan_def)
qed

section \<open>Shutdown\<close>

lemma join_all_spec:
  "join_all first rs =
     (case first of
        Some e \<Rightarrow> Some e
      | None \<Rightarrow>
          (case filter (\<lambda>r. r \<noteq> TaskOk) rs of
             [] \<Rightarrow> None
           | r # _ \<Rightarrow> Some (case r of TaskErr e \<Rightarrow> e | TaskPanicked m \<Rightarrow> [lit ''task join failure: '' @ m])))"
  by (induction first rs rule: join_all.induct) (auto split: option.splits)



end
