(* ===== verification/App.thy ===== *)
theory App
  imports Runtime
begin

text \<open>
  The edges of the program: the periodic summary
  (\<open>summary_loop\<close> in \<open>src/src/runtime.rs\<close>), the stats endpoint (\<open>src/src/http.rs\<close>) and
  \<open>main\<close> (\<open>src/src/main.rs\<close>). The HTTP server of \<open>axum\<close> is a parameter: it is given the
  routes and answers requests with them; the model says what the routes' handlers answer.
  The JSON text of a snapshot is not modelled, a response carries the snapshot.
\<close>

section \<open>The code: the summary\<close>

record summary_line =
  sl_tcp_active :: u64
  sl_udp_active_flows :: u64
  sl_tcp_in_bytes :: u64
  sl_tcp_out_bytes :: u64
  sl_udp_in_bytes :: u64
  sl_udp_out_bytes :: u64

definition summary_of :: "stats_snapshot \<Rightarrow> summary_line" where
  "summary_of snapshot =
     \<lparr>sl_tcp_active = at_tcp_active (ss_totals snapshot),
      sl_udp_active_flows = at_udp_active_flows (ss_totals snapshot),
      sl_tcp_in_bytes = at_tcp_in_bytes (ss_totals snapshot),
      sl_tcp_out_bytes = at_tcp_out_bytes (ss_totals snapshot),
      sl_udp_in_bytes = at_udp_in_bytes (ss_totals snapshot),
      sl_udp_out_bytes = at_udp_out_bytes (ss_totals snapshot)\<rparr>"

text \<open>A tick finds the registry and the clock as they are then.\<close>

datatype summary_event = SummaryShutdown | SummaryTick u64 stats_registry

fun summary_loop :: "summary_event list \<Rightarrow> summary_line list \<Rightarrow> summary_line list \<times> bool" where
  "summary_loop [] logged = (logged, False)"
| "summary_loop (SummaryShutdown # evs) logged = (logged, True)"
| "summary_loop (SummaryTick now stats # evs) logged =
     summary_loop evs (logged @ [summary_of (registry_snapshot now stats)])"

section \<open>The code: the stats endpoint\<close>

datatype handler = Healthz | StatsSnapshot

datatype response = Text str | Json stats_snapshot

definition router :: "(str \<times> handler) list" where
  "router = [(lit ''/healthz'', Healthz), (lit ''/stats'', StatsSnapshot)]"

fun handle :: "u64 \<Rightarrow> stats_registry \<Rightarrow> handler \<Rightarrow> response" where
  "handle now stats Healthz = Text (lit ''ok'')"
| "handle now stats StatsSnapshot = Json (registry_snapshot now stats)"

text \<open>The server, given the routes, runs until the shutdown or an error of its own.\<close>

definition serve :: "((str \<times> handler) list \<Rightarrow> anyhow + unit) \<Rightarrow> anyhow + unit" where
  "serve axum_serve = rbind (axum_serve router) (\<lambda>_. Inr ())"

text \<open>What a \<open>GET\<close> of a path is answered; other paths are the server's own business.\<close>

definition respond :: "u64 \<Rightarrow> stats_registry \<Rightarrow> str \<Rightarrow> response option" where
  "respond now stats path = map_option (handle now stats) (map_of router path)"

section \<open>The code: \<open>main\<close>\<close>

datatype main_error =
    ConfigError anyhow
  | StartError startup_error
  | SignalError anyhow
  | TaskError anyhow

text \<open>\<open>ctrl_c\<close> is what waiting for the signal answers, \<open>results\<close> how the tasks end after it.\<close>

definition main_run ::
    "'r resolver_lib \<Rightarrow> 's sem_ops \<Rightarrow> (nat \<Rightarrow> kernel) \<Rightarrow> (sock \<Rightarrow> io_error + socket_addr) \<Rightarrow> nat \<Rightarrow> u64 \<Rightarrow>
     cli \<Rightarrow> anyhow + unit \<Rightarrow> join_result list \<Rightarrow> (main_error + unit) option" where
  "main_run lib S sys local_addr now unix_now cli ctrl_c results =
     (case from_cli lib now cli of
        Inl e \<Rightarrow> Some (Inl (ConfigError e))
      | Inr config \<Rightarrow>
          (case start S sys local_addr unix_now config of
             None \<Rightarrow> None
           | Some (_, Inl e) \<Rightarrow> Some (Inl (StartError e))
           | Some (_, Inr app) \<Rightarrow>
               (case with_context (lit ''failed to listen for shutdown signal'') ctrl_c of
                  Inl e \<Rightarrow> Some (Inl (SignalError e))
                | Inr _ \<Rightarrow> Some (map_err TaskError (fst (app_shutdown S results app))))))"

section \<open>The TCP side of a running program\<close>

definition tcp_ports :: "task list \<Rightarrow> u16 list" where
  "tcp_ports tasks = concat (map (\<lambda>t. case t of TcpTask p _ \<Rightarrow> [p] | _ \<Rightarrow> []) tasks)"

text \<open>The state of \<open>Tcp_System\<close> right after the start: one listener per TCP task, with the
  semaphore and the counters of the application.\<close>

definition tcp_side :: "'s running_app \<Rightarrow> 's tcp_system" where
  "tcp_side app =
     \<lparr>ts_sem = ra_tcp_semaphore app, ts_shutdown = ra_shutdown app,
      ts_listeners = map (\<lambda>_. Acquiring) (tcp_ports (ra_tasks app)),
      ts_stats = map (\<lambda>p. the (btm_get (sr_ports (ra_stats app)) p)) (tcp_ports (ra_tasks app)),
      ts_conns = {#}\<rparr>"

lemma tcp_ports_simps [simp]:
  "tcp_ports [] = []" "tcp_ports (TcpTask p s # ts) = p # tcp_ports ts"
  "tcp_ports (UdpTask p s d # ts) = tcp_ports ts" "tcp_ports (RollupTask # ts) = tcp_ports ts"
  "tcp_ports (SummaryTask i # ts) = tcp_ports ts" "tcp_ports (HttpTask s # ts) = tcp_ports ts"
  "tcp_ports (ts @ us) = tcp_ports ts @ tcp_ports us"
  by (simp_all add: tcp_ports_def)

text \<open>What a start that succeeded has made, as far as the properties below need it.\<close>

lemma spawn_listeners_ports:
  assumes "spawn_listeners stats d ls tasks = Some tasks'"
  shows "tcp_ports tasks' = tcp_ports tasks @ map fst ls"
  using assms
  by (induction ls arbitrary: tasks) (auto simp: registry_port_def split: option.splits)

lemma bind_ports_ports: "bind_ports sys n host ports = (calls, Inr ls) \<Longrightarrow> map fst ls = ports"
proof (induction ports arbitrary: n calls ls)
  case (Cons p ports)
  then show ?case by (auto simp: Let_def split: sum.splits prod.splits)
qed simp

lemma started:
  assumes "start S sys local_addr unix_now config = Some (calls, Inr app)"
  shows "ra_stats app = registry_new unix_now (rc_listen_ports config) (target_display (rc_target config))
      (rc_stats_window config)"
    and "ra_tcp_semaphore app = sm_new S (rc_max_tcp_connections config)" and "\<not> ra_shutdown app"
    and "rc_max_tcp_connections config \<le> sem_max_permits"
    and "tcp_ports (ra_tasks app) = rc_listen_ports config"
  using assms
  by (auto simp: start_def Let_def bind_ports_ports dest!: spawn_listeners_ports
      split: if_splits prod.splits sum.splits option.splits)

lemma tcp_side_started:
  assumes "start S sys local_addr unix_now config = Some (calls, Inr app)"
  shows "tcp_side app = tcp_new S (rc_max_tcp_connections config) (rc_listen_ports config)"
  using started [OF assms] by (simp add: tcp_side_def tcp_new_def registry_new_ports)

section \<open>No rollup panics\<close>

lemma rollup_total:
  "br_buckets ring \<noteq> [] \<Longrightarrow> \<exists>ring' p. rollup ring now t p0 = Some (ring', p) \<and> br_buckets ring' \<noteq> []"
  by (simp add: rollup_def Let_def)

lemma registry_run_total:
  "br_buckets (sr_buckets reg) \<noteq> [] \<Longrightarrow> \<exists>reg'. registry_run evs reg = Some reg'"
proof (induction evs arbitrary: reg)
  case (Cons e evs)
  show ?case
  proof (cases e)
    case (PortOp p op)
    with Cons show ?thesis by (simp add: port_op_def)
  next
    case (Rollup now)
    from rollup_total [OF Cons.prems, of now "current_totals (sr_ports reg)" "sr_previous_totals reg"]
    obtain ring' q where "rollup (sr_buckets reg) now (current_totals (sr_ports reg)) (sr_previous_totals reg) =
      Some (ring', q)" "br_buckets ring' \<noteq> []" by blast
    with Cons.IH [of "reg\<lparr>sr_buckets := ring', sr_previous_totals := q\<rparr>"] Rollup show ?thesis
      by (simp add: rollup_at_epoch_def)
  qed
qed simp

lemma registry_run_keeps:
  assumes "registry_run evs reg = Some reg'"
  shows "sr_target reg' = sr_target reg \<and> sr_window_minutes reg' = sr_window_minutes reg"
  using assms
proof (induction evs arbitrary: reg)
  case (Cons e evs)
  then show ?case
    by (cases e) (auto simp: port_op_def rollup_at_epoch_def split: option.splits prod.splits)
qed simp

section \<open>What a snapshot lists\<close>

definition labelled :: "(u16 \<times> port_stats) list \<Rightarrow> bool" where
  "labelled m \<longleftrightarrow> (\<forall>(p, s) \<in> set m. ps_port s = p)"

lemma stats_apply_port [simp]: "ps_port (stats_apply op s) = ps_port s"
  by (cases op)
    (simp_all add: record_tcp_accept_def record_tcp_close_def add_tcp_bytes_def record_udp_flow_open_def
      record_udp_flow_close_def add_udp_in_def add_udp_out_def record_udp_drop_def Let_def)

lemma labelled_new: "labelled (sr_ports (registry_new now ports target w))"
proof -
  let ?m = "sr_ports (registry_new now ports target w)"
  have keys: "distinct (map fst ?m)"
    by (simp add: registry_new_def btm_collect_keys)
  have "ps_port s = p" if "(p, s) \<in> set ?m" for p s
    using map_of_is_SomeI [OF keys that] registry_new_ports [of now ports target w p]
    by (auto simp: btm_get_def port_stats_new_def split: if_splits)
  then show ?thesis by (auto simp: labelled_def)
qed

lemma labelled_modify: "labelled m \<Longrightarrow> labelled (btm_modify k (stats_apply op) m)"
  by (induction m) (auto simp: labelled_def btm_modify_def)

lemma labelled_run:
  assumes "registry_run evs reg = Some reg'" and "labelled (sr_ports reg)"
  shows "labelled (sr_ports reg')"
  using assms
proof (induction evs arbitrary: reg)
  case (Cons e evs)
  from Cons.prems(1) obtain reg1 where reg1: "registry_step e reg = Some reg1" "registry_run evs reg1 = Some reg'"
    by (auto split: option.splits)
  have "labelled (sr_ports reg1)"
  proof (cases e)
    case (PortOp p op)
    with reg1(1) have "sr_ports reg1 = btm_modify p (stats_apply op) (sr_ports reg)"
      by (auto simp: port_op_def)
    with labelled_modify Cons.prems(2) show ?thesis by simp
  next
    case (Rollup now)
    with reg1(1) Cons.prems(2) show ?thesis by (auto simp: rollup_at_epoch_def split: option.splits prod.splits)
  qed
  with Cons.IH reg1(2) show ?case by blast
qed simp

lemma labelled_ports: "labelled m \<Longrightarrow> map sn_port (map port_stats_snapshot (btm_values m)) = map fst m"
  by (auto simp: labelled_def btm_values_def port_stats_snapshot_def)

lemma started_snapshot:
  assumes "registry_run evs (registry_new now0 ports target w) = Some reg" and "sorted_wrt (<) ports"
  shows "ss_target (registry_snapshot now reg) = target \<and> ss_window_minutes (registry_snapshot now reg) = w \<and>
    map sn_port (ss_ports (registry_snapshot now reg)) = ports"
proof -
  have "map fst (sr_ports reg) = ports"
    using registry_run_ports [OF assms(1)] sorted_list_unique [of "sorted_list_of_set (set ports)" ports] assms(2)
    by (simp add: registry_new_def btm_collect_keys o_def)
  with registry_run_keeps [OF assms(1)] labelled_ports [OF labelled_run [OF assms(1) labelled_new]] show ?thesis
    by (simp add: registry_snapshot_def Let_def registry_new_def)
qed

lemma snapshot_sums:
  "summary_of (registry_snapshot now reg) =
     (let ports = ss_ports (registry_snapshot now reg) in
      \<lparr>sl_tcp_active = sum_list (map sn_tcp_active ports),
       sl_udp_active_flows = sum_list (map sn_udp_active_flows ports),
       sl_tcp_in_bytes = sum_list (map sn_tcp_in_bytes ports),
       sl_tcp_out_bytes = sum_list (map sn_tcp_out_bytes ports),
       sl_udp_in_bytes = sum_list (map sn_udp_in_bytes ports),
       sl_udp_out_bytes = sum_list (map sn_udp_out_bytes ports)\<rparr>)"
  by (simp add: summary_of_def registry_snapshot_def Let_def aggregate_from_snapshots_def add_snapshot_fields
      totals_default_def)

end
