(* ===== verification/Program.thy ===== *)
theory Program
  imports App Udp_System_Spec
begin

text \<open>
  The whole running program: the TCP side of all ports, the UDP tasks of every port, the other
  tasks (rollup, summary, stats server), and the main task, which waits for the signal and then
  runs \<open>RunningApp::shutdown\<close> (\<open>src/src/runtime.rs\<close>): it cancels the token that all tasks
  share, closes the semaphore and joins the tasks. Of the counters of a port, which the code keeps
  in one struct, each side has a copy of which it writes only its own fields; \<open>merged\<close> is the
  struct. The rollup task (\<open>run_rollup\<close> in \<open>src/src/stats/mod.rs\<close>) reads the counters at each of
  its ticks, and once more when it has seen the shutdown.
\<close>

section \<open>The program\<close>

datatype main_pc = MainRunning | MainCancelled | MainJoining | MainReturned

text \<open>How many moves the main task has before it; it passes its stages in this order.\<close>

fun main_rank :: "main_pc \<Rightarrow> nat" where
  "main_rank MainRunning = 3"
| "main_rank MainCancelled = 2"
| "main_rank MainJoining = 1"
| "main_rank MainReturned = 0"

lemma main_rank_inj [simp]: "main_rank m = main_rank m' \<longleftrightarrow> m = m'"
  by (cases m; cases m') simp_all

instantiation main_pc :: linorder
begin

definition less_eq_main_pc :: "main_pc \<Rightarrow> main_pc \<Rightarrow> bool" where
  "less_eq_main_pc m m' \<longleftrightarrow> main_rank m' \<le> main_rank m"

definition less_main_pc :: "main_pc \<Rightarrow> main_pc \<Rightarrow> bool" where
  "less_main_pc m m' \<longleftrightarrow> main_rank m' < main_rank m"

instance
proof
  fix m m' :: main_pc
  show "m \<le> m' \<Longrightarrow> m' \<le> m \<Longrightarrow> m = m'"
    unfolding less_eq_main_pc_def main_rank_inj [symmetric] by (rule antisym)
qed (auto simp: less_eq_main_pc_def less_main_pc_def)

end

lemma joining_iff [simp]: "MainJoining \<le> m \<longleftrightarrow> m = MainJoining \<or> m = MainReturned"
  by (cases m) (simp_all add: less_eq_main_pc_def)

record ('s, 'm, 'c) program =
  pg_main :: main_pc
  pg_tcp :: "'s tcp_system"
  pg_udp :: "('m, 'c) udp_port list"
  pg_services :: "task multiset"
  pg_buckets :: bucket_ring
  pg_previous_totals :: aggregate_totals

fun is_service :: "task \<Rightarrow> bool" where
  "is_service (TcpTask p s) \<longleftrightarrow> False"
| "is_service (UdpTask p s d) \<longleftrightarrow> False"
| "is_service _ \<longleftrightarrow> True"

definition udp_side :: "'m session_map \<Rightarrow> 'c reply_chan \<Rightarrow> task list \<Rightarrow> ('m, 'c) udp_port list" where
  "udp_side D C tasks = concat (map (\<lambda>t. case t of UdpTask p _ d \<Rightarrow> [udp_port_new D C d p] | _ \<Rightarrow> []) tasks)"

definition program_of :: "'m session_map \<Rightarrow> 'c reply_chan \<Rightarrow> 's running_app \<Rightarrow> ('s, 'm, 'c) program" where
  "program_of D C app =
     \<lparr>pg_main = MainRunning, pg_tcp = tcp_side app, pg_udp = udp_side D C (ra_tasks app),
      pg_services = mset (filter is_service (ra_tasks app)),
      pg_buckets = sr_buckets (ra_stats app), pg_previous_totals = sr_previous_totals (ra_stats app)\<rparr>"

definition merged :: "port_stats \<Rightarrow> port_stats \<Rightarrow> port_stats" where
  "merged tcp udp = tcp
     \<lparr>ps_udp_active_flows := ps_udp_active_flows udp, ps_udp_in_bytes := ps_udp_in_bytes udp,
      ps_udp_out_bytes := ps_udp_out_bytes udp, ps_udp_dropped := ps_udp_dropped udp\<rparr>"

text \<open>The counters of all ports as the registry has them, by port.\<close>

definition counters :: "('s, 'm, 'c) program \<Rightarrow> (u16 \<times> port_stats) list" where
  "counters g =
     map2 (\<lambda>tcp p. (ps_port tcp, merged tcp (tb_stats (up_table p)))) (ts_stats (pg_tcp g)) (pg_udp g)"

text \<open>A rollup panics only when the ring has no bucket, which no ring of a registry is.\<close>

definition roll :: "u64 \<Rightarrow> ('s, 'm, 'c) program \<Rightarrow> ('s, 'm, 'c) program" where
  "roll now g =
     (case rollup (pg_buckets g) now (current_totals (counters g)) (pg_previous_totals g) of
        None \<Rightarrow> g
      | Some (buckets, previous_totals) \<Rightarrow>
          g\<lparr>pg_buckets := buckets, pg_previous_totals := previous_totals\<rparr>)"

text \<open>A step of the TCP side or of a UDP port does not touch the token or close the semaphore, which
  only the main task does. A service ends when the token is cancelled, the rollup after a last
  rollup; the stats server may also end by an error of its own.\<close>

inductive program_step ::
    "'s sem_ops \<Rightarrow> 'm session_map \<Rightarrow> 'c reply_chan \<Rightarrow> bool \<Rightarrow> step_kind \<Rightarrow>
     ('s, 'm, 'c) program \<Rightarrow> ('s, 'm, 'c) program \<Rightarrow> bool"
  for S :: "'s sem_ops" and D :: "'m session_map" and C :: "'c reply_chan" and timely :: bool where
  g_tcp: "tcp_step S (pg_tcp g) t \<Longrightarrow> ts_shutdown t = ts_shutdown (pg_tcp g) \<Longrightarrow>
    sm_closed S (ts_sem t) = sm_closed S (ts_sem (pg_tcp g)) \<Longrightarrow>
    program_step S D C timely Progress g (g\<lparr>pg_tcp := t\<rparr>)"
| g_udp: "i < length (pg_udp g) \<Longrightarrow> port_step D C timely kind (pg_udp g ! i) p \<Longrightarrow>
    up_shutdown p = up_shutdown (pg_udp g ! i) \<Longrightarrow>
    program_step S D C timely kind g (g\<lparr>pg_udp := (pg_udp g)[i := p]\<rparr>)"
| g_tick: "RollupTask \<in># pg_services g \<Longrightarrow> program_step S D C timely Input g (roll now g)"
| g_rollup: "RollupTask \<in># pg_services g \<Longrightarrow> pg_main g \<noteq> MainRunning \<Longrightarrow>
    program_step S D C timely Progress g
      ((roll now g)\<lparr>pg_services := pg_services g - {#RollupTask#}\<rparr>)"
| g_service: "t \<in># pg_services g \<Longrightarrow> t \<noteq> RollupTask \<Longrightarrow> pg_main g \<noteq> MainRunning \<Longrightarrow>
    program_step S D C timely Progress g (g\<lparr>pg_services := pg_services g - {#t#}\<rparr>)"
| g_server: "HttpTask s \<in># pg_services g \<Longrightarrow>
    program_step S D C timely Input g (g\<lparr>pg_services := pg_services g - {#HttpTask s#}\<rparr>)"
| g_cancel: "pg_main g = MainRunning \<Longrightarrow>
    program_step S D C timely Input g
      (g\<lparr>pg_main := MainCancelled, pg_tcp := (pg_tcp g)\<lparr>ts_shutdown := True\<rparr>,
         pg_udp := map (\<lambda>p. p\<lparr>up_shutdown := True\<rparr>) (pg_udp g)\<rparr>)"
| g_close: "pg_main g = MainCancelled \<Longrightarrow>
    program_step S D C timely Progress g
      (g\<lparr>pg_main := MainJoining, pg_tcp := (pg_tcp g)\<lparr>ts_sem := sm_close S (ts_sem (pg_tcp g))\<rparr>\<rparr>)"
| g_join: "pg_main g = MainJoining \<Longrightarrow> pg_services g = {#} \<Longrightarrow>
    \<forall>ph \<in> set (ts_listeners (pg_tcp g)). ph = Finished \<Longrightarrow>
    \<forall>p \<in> set (pg_udp g). up_listener p = LReturned \<Longrightarrow>
    program_step S D C timely Progress g (g\<lparr>pg_main := MainReturned\<rparr>)"

inductive program_reach ::
    "'s sem_ops \<Rightarrow> 'm session_map \<Rightarrow> 'c reply_chan \<Rightarrow> bool \<Rightarrow>
     ('s, 'm, 'c) program \<Rightarrow> ('s, 'm, 'c) program \<Rightarrow> bool"
  for S :: "'s sem_ops" and D :: "'m session_map" and C :: "'c reply_chan" and timely :: bool
    and g0 :: "('s, 'm, 'c) program" where
  g_here: "program_reach S D C timely g0 g0"
| g_step: "program_reach S D C timely g0 g \<Longrightarrow> program_step S D C timely kind g g' \<Longrightarrow>
    program_reach S D C timely g0 g'"

section \<open>The parts of a reachable program are reachable\<close>

lemma roll_simps [simp]:
  "pg_main (roll now g) = pg_main g" "pg_tcp (roll now g) = pg_tcp g" "pg_udp (roll now g) = pg_udp g"
  "pg_services (roll now g) = pg_services g"
  by (simp_all add: roll_def split: option.splits prod.splits)

lemma main_forward: "program_step S D C timely kind g g' \<Longrightarrow> pg_main g \<le> pg_main g'"
  by (erule program_step.cases; simp add: less_eq_main_pc_def)

text \<open>Before the signal no part has seen the shutdown; after it all have.\<close>

definition main_ok :: "'s sem_ops \<Rightarrow> ('s, 'm, 'c) program \<Rightarrow> bool" where
  "main_ok S g \<longleftrightarrow>
     (ts_shutdown (pg_tcp g) \<longleftrightarrow> pg_main g \<noteq> MainRunning) \<and>
     (\<forall>p \<in> set (pg_udp g). up_shutdown p \<longleftrightarrow> pg_main g \<noteq> MainRunning) \<and>
     (sm_closed S (ts_sem (pg_tcp g)) \<longleftrightarrow> MainJoining \<le> pg_main g) \<and>
     (pg_main g = MainReturned \<longrightarrow> pg_services g = {#} \<and>
        (\<forall>ph \<in> set (ts_listeners (pg_tcp g)). ph = Finished) \<and>
        (\<forall>p \<in> set (pg_udp g). up_listener p = LReturned))"

definition port_from :: "'m session_map \<Rightarrow> 'c reply_chan \<Rightarrow> bool \<Rightarrow> ('m, 'c) udp_port \<Rightarrow> bool" where
  "port_from D C timely p \<longleftrightarrow> (\<exists>d port. port_reach D C timely (udp_port_new D C d port) p)"

lemma returned_stays: "port_step D C timely kind p p' \<Longrightarrow> up_listener p = LReturned \<Longrightarrow> up_listener p' = LReturned"
  by (erule port_step.cases; (elim task_stepE)?; simp)

lemma finished_stays:
  assumes "tcp_step S t t'" and "\<forall>ph \<in> set (ts_listeners t). ph = Finished"
  shows "\<forall>ph \<in> set (ts_listeners t'). ph = Finished"
  using assms(1)
proof (cases rule: tcp_step.cases)
  case (listener l choice)
  then have "ts_listeners t ! l = Finished" using assms(2) by simp
  with listener show ?thesis by simp
next
  case (conn c ev)
  from conn(2) show ?thesis by (cases rule: conn_act_cases) (use assms(2) in simp_all)
qed (use assms(2) in simp_all)

lemma main_ok_step:
  assumes "program_step S D C timely kind g g'" and "semaphore S" and "main_ok S g"
  shows "main_ok S g'"
  using assms(1)
proof (cases rule: program_step.cases)
  case (g_tcp t)
  then show ?thesis using assms(3) finished_stays [OF g_tcp(3)] by (simp add: main_ok_def)
next
  case (g_udp i p)
  have "set ((pg_udp g)[i := p]) \<subseteq> insert p (set (pg_udp g))" by (rule set_update_subset_insert)
  moreover have "up_listener p = LReturned" if "\<forall>q \<in> set (pg_udp g). up_listener q = LReturned"
    using returned_stays [OF g_udp(3)] g_udp(2) that by simp
  moreover have "up_shutdown p \<longleftrightarrow> pg_main g \<noteq> MainRunning"
    using assms(3) g_udp(2,4) by (simp add: main_ok_def)
  ultimately show ?thesis using assms(3) unfolding main_ok_def g_udp(1) by auto
qed (use assms(3) in \<open>auto simp: main_ok_def semaphore.close_sem [OF assms(2)]\<close>)

lemma main_ok_start:
  assumes "semaphore S" and "start S sys local_addr unix_now config = Some (calls, Inr app)"
  shows "main_ok S (program_of D C app)"
proof -
  have "\<not> up_shutdown p" if "p \<in> set (udp_side D C tasks)" for p tasks
    using that by (auto simp: udp_side_def udp_port_new_def split: task.splits)
  then show ?thesis
    using semaphore.new_sem [OF assms(1)] started(2,3) [OF assms(2)]
    by (simp add: main_ok_def program_of_def tcp_side_def)
qed

lemma parts_step:
  assumes "program_step S D C timely kind g g'" and "main_ok S g"
    and "tcp_reach S t0 (pg_tcp g)" and "\<forall>p \<in> set (pg_udp g). port_from D C timely p"
  shows "tcp_reach S t0 (pg_tcp g') \<and> (\<forall>p \<in> set (pg_udp g'). port_from D C timely p)"
  using assms(1)
proof (cases rule: program_step.cases)
  case (g_tcp t)
  then show ?thesis using tcp_reach.step [OF assms(3) g_tcp(3)] assms(4) by simp
next
  case (g_udp i p)
  then have "port_from D C timely (pg_udp g ! i)" using assms(4) by simp
  then have "port_from D C timely p" using p_step [OF _ g_udp(3)] unfolding port_from_def by blast
  moreover have "set ((pg_udp g)[i := p]) \<subseteq> insert p (set (pg_udp g))" by (rule set_update_subset_insert)
  ultimately show ?thesis using assms(3,4) unfolding g_udp(1) by auto
next
  case g_cancel
  have "tcp_reach S t0 ((pg_tcp g)\<lparr>ts_shutdown := True\<rparr>)"
    by (rule tcp_reach.step [OF assms(3) cancel]) (use assms(2) g_cancel in \<open>simp add: main_ok_def\<close>)
  moreover have "port_from D C timely (p\<lparr>up_shutdown := True\<rparr>)" if "p \<in> set (pg_udp g)" for p
  proof -
    have "\<not> up_shutdown p" using assms(2) g_cancel that by (simp add: main_ok_def)
    then have "port_step D C timely Input p (p\<lparr>up_shutdown := True\<rparr>)" by (rule p_shutdown)
    moreover have "port_from D C timely p" using assms(4) that by blast
    ultimately show ?thesis unfolding port_from_def by (blast intro: p_step)
  qed
  ultimately show ?thesis by (simp add: g_cancel)
next
  case g_close
  have "tcp_reach S t0 ((pg_tcp g)\<lparr>ts_sem := sm_close S (ts_sem (pg_tcp g))\<rparr>)"
    by (rule tcp_reach.step [OF assms(3) close]) (use assms(2) g_close in \<open>simp_all add: main_ok_def\<close>)
  with assms(4) show ?thesis by (simp add: g_close)
qed (use assms(3,4) in simp_all)

text \<open>A program in a state it can reach after a start.\<close>

definition running ::
    "'s sem_ops \<Rightarrow> 'm session_map \<Rightarrow> 'c reply_chan \<Rightarrow> bool \<Rightarrow> 's running_app \<Rightarrow> ('s, 'm, 'c) program \<Rightarrow> bool" where
  "running S D C timely app g \<longleftrightarrow>
     main_ok S g \<and> tcp_reach S (tcp_side app) (pg_tcp g) \<and> (\<forall>p \<in> set (pg_udp g). port_from D C timely p)"

lemma running_reach:
  assumes "semaphore S" and "start S sys local_addr unix_now config = Some (calls, Inr app)"
    and "program_reach S D C timely (program_of D C app) g"
  shows "running S D C timely app g"
  using assms(3)
proof (induction rule: program_reach.induct)
  case g_here
  have "port_from D C timely p" if "p \<in> set (udp_side D C tasks)" for p tasks
    using that by (auto simp: udp_side_def port_from_def split: task.splits intro: p_here)
  then show ?case
    using main_ok_start [OF assms(1,2)] by (simp add: running_def program_of_def tcp_reach.here)
next
  case (g_step g kind g')
  then show ?case
    using main_ok_step [OF _ assms(1)] parts_step unfolding running_def by blast
qed

section \<open>The shutdown of the program\<close>

text \<open>The ranks of the ports as a multiset, then what is left of the other parts.\<close>

definition program_rank ::
    "nat \<Rightarrow> 'c reply_chan \<Rightarrow> ('s, 'm, 'c) program \<Rightarrow> (nat \<times> nat \<times> nat \<times> nat) multiset \<times> nat" where
  "program_rank n C g =
     (image_mset (port_rank n C) (mset (pg_udp g)),
      tcp_rank (pg_tcp g) + size (pg_services g) + main_rank (pg_main g))"

definition program_less where
  "program_less = mult1 rank_less <*lex*> less_than"

lemma wf_program: "wf program_less"
  unfolding program_less_def by (intro wf_lex_prod wf_mult1 wf_rank wf_less_than)

lemma ports_rank_update:
  assumes "i < length ps" and "(port_rank n C p, port_rank n C (ps ! i)) \<in> rank_less"
  shows "(image_mset (port_rank n C) (mset (ps[i := p])), image_mset (port_rank n C) (mset ps)) \<in> mult1 rank_less"
proof -
  let ?rest = "image_mset (port_rank n C) (mset ps - {#ps ! i#})"
  have "mset ps = add_mset (ps ! i) (mset ps - {#ps ! i#})" using assms(1) by simp
  then have "image_mset (port_rank n C) (mset ps) = add_mset (port_rank n C (ps ! i)) ?rest"
    by (metis image_mset_add_mset)
  moreover have "image_mset (port_rank n C) (mset (ps[i := p])) = ?rest + {#port_rank n C p#}"
    using assms(1) by (simp add: mset_update)
  ultimately show ?thesis by (rule mult1I) (use assms(2) in auto)
qed

lemma program_ranked:
  assumes "program_step S D C timely Progress g g'" and "semaphore S" and "bounded_channel C" and "main_ok S g"
    and "MainJoining \<le> pg_main g"
  shows "(program_rank (dm_shards D) C g', program_rank (dm_shards D) C g) \<in> program_less"
proof -
  have down: "ts_shutdown (pg_tcp g)" "sm_closed S (ts_sem (pg_tcp g))"
    using assms(4,5) by (auto simp: main_ok_def)
  from assms(1) show ?thesis
  proof (cases rule: program_step.cases)
    case (g_tcp t)
    then show ?thesis using semaphore.shutdown_step [OF assms(2) g_tcp(2) down(1,2)]
      by (simp add: program_rank_def program_less_def)
  next
    case (g_udp i p)
    then have "port_step D C timely Progress (pg_udp g ! i) p" by simp
    from ports_rank_update [OF g_udp(2) port_ranked [OF this assms(3)]] show ?thesis
      by (simp add: g_udp(1) program_rank_def program_less_def)
  next
    case (g_service t)
    then obtain rest where "pg_services g = add_mset t rest" by (metis mset_add)
    with g_service show ?thesis by (simp add: program_rank_def program_less_def)
  next
    case (g_rollup now)
    then obtain rest where "pg_services g = add_mset RollupTask rest" by (metis mset_add)
    with g_rollup show ?thesis by (simp add: program_rank_def program_less_def)
  qed (use assms(5) in \<open>simp_all add: program_rank_def program_less_def\<close>)
qed

lemma started_tcp_inv:
  assumes "semaphore S" and "start S sys local_addr unix_now config = Some (calls, Inr app)"
    and "tcp_reach S (tcp_side app) t"
  shows "tcp_inv S (rc_max_tcp_connections config) t"
proof -
  have "rc_max_tcp_connections config < 2 ^ 64" using started(4) [OF assms(2)] by (simp add: sem_max_permits_def)
  with semaphore.inv_tcp_reach [OF assms(1)] assms(3) show ?thesis unfolding tcp_side_started [OF assms(2)] by blast
qed

lemma program_returned:
  assumes "semaphore S" and "dashmap D" and "bounded_channel C" and "running S D C timely app g"
    and "start S sys local_addr unix_now config = Some (calls, Inr app)" and "pg_main g = MainReturned"
  shows "pg_services g = {#} \<and> ts_conns (pg_tcp g) = {#} \<and>
    (\<forall>s \<in> set (ts_stats (pg_tcp g)). ps_tcp_active s = 0) \<and>
    (\<forall>p \<in> set (pg_udp g). dm_get D (tb_sessions (up_table p)) = Map.empty \<and> up_cleanup p = CDone \<and> up_sender p = SDone)"
proof -
  have main: "pg_services g = {#}" "\<forall>ph \<in> set (ts_listeners (pg_tcp g)). ph = Finished"
    "\<forall>p \<in> set (pg_udp g). up_listener p = LReturned \<and> port_from D C timely p"
    using assms(4,6) by (auto simp: running_def main_ok_def)
  have inv: "tcp_inv S (rc_max_tcp_connections config) (pg_tcp g)"
    by (rule started_tcp_inv [OF assms(1,5)]) (use assms(4) in \<open>simp add: running_def\<close>)
  have conns: "ts_conns (pg_tcp g) = {#}"
  proof (rule ccontr)
    assume "ts_conns (pg_tcp g) \<noteq> {#}"
    then obtain c where "c \<in># ts_conns (pg_tcp g)" by blast
    with inv main(2) show False by (auto simp: tcp_inv_def)
  qed
  then have "\<forall>s \<in> set (ts_stats (pg_tcp g)). ps_tcp_active s = 0"
    using inv by (auto simp: tcp_inv_def live_def in_set_conv_nth unat_eq_0)
  moreover have "dm_get D (tb_sessions (up_table p)) = Map.empty \<and> up_cleanup p = CDone \<and> up_sender p = SDone"
    if "p \<in> set (pg_udp g)" for p
    using main(3) that udp_tasks.returned_reach [OF port_laws [OF assms(2,3)]] unfolding port_from_def by blast
  ultimately show ?thesis using main(1) conns by blast
qed

lemma program_stuck:
  assumes "semaphore S" and "dashmap D" and "bounded_channel C" and "running S D C timely app g"
    and "start S sys local_addr unix_now config = Some (calls, Inr app)"
    and "MainJoining \<le> pg_main g"
    and "\<nexists>g'. program_step S D C timely Progress g g'"
  shows "pg_main g = MainReturned \<and>
    (\<forall>p \<in> set (pg_udp g). up_replies p = {#} \<and>
      (timely \<and> length (tb_arena (up_table p)) < 2 ^ 64 \<longrightarrow> ps_udp_active_flows (tb_stats (up_table p)) = 0))"
proof -
  note laws = port_laws [OF assms(2,3)]
  have down: "ts_shutdown (pg_tcp g)" "sm_closed S (ts_sem (pg_tcp g))" "\<forall>p \<in> set (pg_udp g). up_shutdown p"
    using assms(4,6) by (auto simp: running_def main_ok_def)
  have services: "pg_services g = {#}"
  proof (rule ccontr)
    assume "pg_services g \<noteq> {#}"
    then obtain t where "t \<in># pg_services g" by blast
    with assms(6,7) show False
      by (cases "t = RollupTask")
        (auto dest: g_service g_rollup [where S = S and D = D and C = C and timely = timely])
  qed
  have "\<nexists>t'. tcp_step S (pg_tcp g) t'"
  proof
    assume "\<exists>t'. tcp_step S (pg_tcp g) t'"
    then obtain t' where t': "tcp_step S (pg_tcp g) t'" by blast
    from semaphore.shutdown_step [OF assms(1) this down(1,2)] down(1,2) have "ts_shutdown t' = ts_shutdown (pg_tcp g)"
      "sm_closed S (ts_sem t') = sm_closed S (ts_sem (pg_tcp g))" by simp_all
    with g_tcp [OF t'] assms(7) show False by blast
  qed
  moreover have "tcp_inv S (rc_max_tcp_connections config) (pg_tcp g)"
    by (rule started_tcp_inv [OF assms(1,5)]) (use assms(4) in \<open>simp add: running_def\<close>)
  ultimately have finished: "\<forall>ph \<in> set (ts_listeners (pg_tcp g)). ph = Finished"
    using semaphore.shutdown_stuck [OF assms(1)] down(1) by blast
  have ended: "up_listener p = LReturned \<and> up_replies p = {#}" if p: "p \<in> set (pg_udp g)" for p
  proof -
    obtain d port where reach: "port_reach D C timely (udp_port_new D C d port) p"
      using assms(4) p by (auto simp: running_def port_from_def)
    obtain i where i: "i < length (pg_udp g)" "p = pg_udp g ! i" using p by (auto simp: in_set_conv_nth)
    have "\<nexists>p'. port_step D C timely Progress p p'"
    proof
      assume "\<exists>p'. port_step D C timely Progress p p'"
      then obtain p' where p': "port_step D C timely Progress p p'" by blast
      have "up_shutdown p' = up_shutdown p" by (rule progress_shutdown [OF p'])
      with g_udp [OF i(1)] p' i(2) assms(7) show False by blast
    qed
    moreover have "tasks_ok D (up_table p) (up_listener p) (up_cleanup p) (up_replies p)"
      using udp_tasks.port_inv_reach [OF laws reach] by (simp add: port_inv_def)
    ultimately show ?thesis using stuck_ended [OF _ _ _ assms(3)] down(3) p by blast
  qed
  have "pg_main g \<noteq> MainJoining" using g_join [OF _ services finished] ended assms(7) by blast
  moreover have "ps_udp_active_flows (tb_stats (up_table p)) = 0"
    if "p \<in> set (pg_udp g)" "timely" "length (tb_arena (up_table p)) < 2 ^ 64" for p
  proof -
    have "timely = True" using that(2) by simp
    with assms(4) that(1) obtain d port where "port_reach D C True (udp_port_new D C d port) p"
      unfolding running_def port_from_def by blast
    from udp_tasks.ended_flows [OF laws this that(3)] ended [OF that(1)] show ?thesis by simp
  qed
  ultimately show ?thesis using assms(6) ended unfolding joining_iff by blast
qed

lemma program_no_endless_run:
  assumes "semaphore S" and "bounded_channel C" and "main_ok S g" and "MainJoining \<le> pg_main g"
  shows "\<nexists>f. f 0 = g \<and> (\<forall>n. program_step S D C timely Progress (f n) (f (Suc n)))"
proof
  assume "\<exists>f. f 0 = g \<and> (\<forall>n. program_step S D C timely Progress (f n) (f (Suc n)))"
  then obtain f where f: "f 0 = g" "\<And>n. program_step S D C timely Progress (f n) (f (Suc n))" by blast
  have joining: "main_ok S (f n) \<and> MainJoining \<le> pg_main (f n)" for n
  proof (induction n)
    case (Suc n)
    with main_ok_step [OF f(2) assms(1)] order.trans [OF _ main_forward [OF f(2)]] show ?case by blast
  qed (use f(1) assms(3,4) in simp)
  then have "(program_rank (dm_shards D) C (f (Suc n)), program_rank (dm_shards D) C (f n)) \<in> program_less" for n
    using program_ranked [OF f(2) assms(1,2)] by blast
  then have "\<exists>h. \<forall>n. (h (Suc n), h n) \<in> program_less" by (intro exI [of _ "\<lambda>n. program_rank (dm_shards D) C (f n)"]) simp
  with wf_program show False unfolding wf_iff_no_infinite_down_chain by blast
qed

end
