(* ===== verification/Program_Stats.thy ===== *)
theory Program_Stats
  imports Program Udp_Traffic
begin

text \<open>
  The statistics of the running program. The counters that the tasks of \<open>Program\<close> write, its ring of
  buckets and its previous totals are the registry of \<open>Stats_Registry\<close>: every step of the program is
  a sequence of operations through the handles of the ports, or a rollup, and what a snapshot of that
  registry says of a port is what the tasks of the port have done.
\<close>

section \<open>What a step does to the counters\<close>

fun tcp_op :: "stats_op \<Rightarrow> bool" where
  "tcp_op TcpAccept \<longleftrightarrow> True"
| "tcp_op TcpClose \<longleftrightarrow> True"
| "tcp_op (TcpBytes i j) \<longleftrightarrow> True"
| "tcp_op _ \<longleftrightarrow> False"

definition apply_all :: "stats_op list \<Rightarrow> port_stats \<Rightarrow> port_stats" where
  "apply_all ops = fold stats_apply ops"

lemma apply_all_simps [simp]:
  "apply_all [] s = s" "apply_all (op # ops) s = apply_all ops (stats_apply op s)"
  "apply_all (ops @ ops') s = apply_all ops' (apply_all ops s)" "ps_port (apply_all ops s) = ps_port s"
proof -
  show "ps_port (apply_all ops s) = ps_port s" by (induction ops arbitrary: s) (simp_all add: apply_all_def)
qed (simp_all add: apply_all_def)

text \<open>A list of counters one of which has been worked on.\<close>

definition worked :: "port_stats list \<Rightarrow> nat \<Rightarrow> stats_op list \<Rightarrow> port_stats list" where
  "worked ss i ops = ss[i := apply_all ops (ss ! i)]"

lemma worked_none [simp]: "worked ss i [] = ss"
  by (simp add: worked_def)

lemma tcp_step_ops:
  assumes "tcp_step S t t'"
  shows "\<exists>l ops. (\<forall>op \<in> set ops. tcp_op op) \<and> ts_stats t' = worked (ts_stats t) l ops"
  using assms
proof (cases rule: tcp_step.cases)
  case (listener l choice)
  have "ts_stats t' = worked (ts_stats t) l (if choice = AcceptOk then [TcpAccept] else [])"
    using listener(2) by (cases "ts_listeners t ! l"; cases choice) (auto simp: worked_def Let_def split: if_splits)
  then show ?thesis by (intro exI [of _ l] exI [of _ "if choice = AcceptOk then [TcpAccept] else []"]) simp
next
  case (conn c ev)
  from conn(2) show ?thesis
  proof (cases rule: conn_act_cases)
    case (counted l a i j)
    then show ?thesis by (intro exI [of _ l] exI [of _ "[TcpBytes i j]"]) (simp add: worked_def)
  next
    case (closed l)
    then show ?thesis by (intro exI [of _ l] exI [of _ "[TcpClose]"]) (simp add: worked_def)
  qed (auto intro!: exI [of _ "[] :: stats_op list"])
qed (auto intro!: exI [of _ "[] :: stats_op list"])

text \<open>The steps on the UDP side.\<close>

lemma table_op_ops:
  assumes "table_op D sys target now o' tb = (tb', k)"
  shows "\<exists>ops. (\<forall>op \<in> set ops. \<not> tcp_op op) \<and> tb_stats tb' = apply_all ops (tb_stats tb)"
proof -
  let ?ops = "case o' of OpOpen r \<Rightarrow> [FlowOpen] | OpClose \<Rightarrow> [FlowClose] | _ \<Rightarrow> []"
  have "tb_stats tb' = apply_all ?ops (tb_stats tb)"
    using assms by (cases o') (auto simp: new_session_def split: option.splits sum.splits prod.splits)
  moreover have "\<forall>op \<in> set ?ops. \<not> tcp_op op" by (simp split: tbl_op.split)
  ultimately show ?thesis by blast
qed

lemma count_out_ops:
  "\<exists>ops. (\<forall>op \<in> set ops. \<not> tcp_op op) \<and> tb_stats (count_out pkts tb) = apply_all ops (tb_stats tb)"
proof -
  have "count_sent pkts s = apply_all (map (\<lambda>pkt. UdpOut (of_nat (rp_bytes pkt))) pkts) s" for s
    by (induction pkts arbitrary: s) (simp_all add: count_sent_def)
  then have "tb_stats (count_out pkts tb) = apply_all (map (\<lambda>pkt. UdpOut (of_nat (rp_bytes pkt))) pkts) (tb_stats tb)"
    by (simp add: count_out_def)
  then show ?thesis by (intro exI conjI) auto
qed

lemma counted_ops:
  "\<exists>ops. (\<forall>op \<in> set ops. \<not> tcp_op op) \<and> tb_stats tb = apply_all ops (tb_stats tb)"
  "\<exists>ops. (\<forall>op \<in> set ops. \<not> tcp_op op) \<and> tb_stats (count_in b tb) = apply_all ops (tb_stats tb)"
  "\<exists>ops. (\<forall>op \<in> set ops. \<not> tcp_op op) \<and> tb_stats (count_drop tb) = apply_all ops (tb_stats tb)"
proof -
  show "\<exists>ops. (\<forall>op \<in> set ops. \<not> tcp_op op) \<and> tb_stats tb = apply_all ops (tb_stats tb)"
    by (intro exI [of _ "[]"]) simp
  show "\<exists>ops. (\<forall>op \<in> set ops. \<not> tcp_op op) \<and> tb_stats (count_in b tb) = apply_all ops (tb_stats tb)"
    by (intro exI [of _ "[UdpIn (of_nat (length b))]"]) (simp add: count_in_def)
  show "\<exists>ops. (\<forall>op \<in> set ops. \<not> tcp_op op) \<and> tb_stats (count_drop tb) = apply_all ops (tb_stats tb)"
    by (intro exI [of _ "[UdpDrop]"]) (simp add: count_drop_def)
qed

lemma port_step_ops:
  assumes "port_step D C timely kind p p'"
  shows "\<exists>ops. (\<forall>op \<in> set ops. \<not> tcp_op op) \<and> tb_stats (up_table p') = apply_all ops (tb_stats (up_table p))"
  using assms
proof (cases rule: port_step.cases)
  case p_listener
  then show ?thesis
    by (cases rule: listener_step.cases)
      (auto simp: logged_def on_table_def intro: counted_ops dest: table_op_ops)
next
  case p_cleanup
  then show ?thesis
    by (cases rule: cleanup_step.cases) (auto intro: counted_ops dest: table_op_ops)
next
  case p_reply
  then show ?thesis
    by (cases rule: reply_step.cases)
      (auto simp: logged_def on_table_def reply_goes_def intro: counted_ops dest: table_op_ops)
next
  case p_sender
  then show ?thesis
    by (cases rule: sender_step.cases)
      (auto simp: logged_def on_table_def sender_ends_def intro: counted_ops count_out_ops)
qed (auto intro: counted_ops)

section \<open>The registry of a running program\<close>

definition registry_of :: "'s running_app \<Rightarrow> ('s, 'm, 'c) program \<Rightarrow> stats_registry" where
  "registry_of app g = (ra_stats app)
     \<lparr>sr_ports := counters g, sr_buckets := pg_buckets g, sr_previous_totals := pg_previous_totals g\<rparr>"

lemma merged_op:
  "tcp_op op \<Longrightarrow> merged (stats_apply op s) u = stats_apply op (merged s u)"
  "\<not> tcp_op op \<Longrightarrow> merged s (stats_apply op u) = stats_apply op (merged s u)"
  by (cases op; simp add: merged_def stats_ops)+

lemma merged_ops:
  "\<forall>op \<in> set ops. tcp_op op \<Longrightarrow> merged (apply_all ops s) u = apply_all ops (merged s u)"
  "\<forall>op \<in> set ops. \<not> tcp_op op \<Longrightarrow> merged s (apply_all ops u) = apply_all ops (merged s u)"
  by (induction ops arbitrary: s u) (simp_all add: merged_op)

lemma modify_nth:
  assumes "distinct (map fst m)" and "i < length m"
  shows "btm_modify (fst (m ! i)) f m = m[i := (fst (m ! i), f (snd (m ! i)))]"
proof (rule nth_equalityI)
  fix j assume "j < length (btm_modify (fst (m ! i)) f m)"
  then have j: "j < length m" by (simp add: btm_modify_def)
  have "fst (m ! j) = fst (m ! i) \<longleftrightarrow> j = i"
    using nth_eq_iff_index_eq [OF assms(1), of j i] j assms(2) by simp
  with j assms(2) show "btm_modify (fst (m ! i)) f m ! j = m[i := (fst (m ! i), f (snd (m ! i)))] ! j"
    by (cases "m ! j") (auto simp: btm_modify_def nth_list_update)
qed (simp add: btm_modify_def)

lemma port_ops_run:
  "registry_run (map (PortOp port) ops @ evs) reg =
     registry_run evs (reg\<lparr>sr_ports := btm_modify port (apply_all ops) (sr_ports reg)\<rparr>)"
proof (induction ops arbitrary: reg)
  case Nil
  have "btm_modify port (\<lambda>s. s) m = m" for m :: "(u16 \<times> port_stats) list"
    by (simp add: btm_modify_def map_idI)
  then show ?case by (simp add: apply_all_def)
next
  case (Cons op ops)
  have "btm_modify port (apply_all ops) (btm_modify port (stats_apply op) m) = btm_modify port (apply_all (op # ops)) m"
    for m by (auto simp: btm_modify_def)
  then show ?case unfolding list.map append_Cons registry_run.simps by (simp add: port_op_def Cons.IH del: apply_all_simps)
qed

text \<open>The two sides have the same ports, in ascending order.\<close>

definition stats_ok :: "('s, 'm, 'c) program \<Rightarrow> bool" where
  "stats_ok g \<longleftrightarrow>
     length (pg_udp g) = length (ts_stats (pg_tcp g)) \<and>
     sorted_wrt (<) (map ps_port (ts_stats (pg_tcp g))) \<and> br_buckets (pg_buckets g) \<noteq> []"

lemma counters_nth:
  assumes "stats_ok g"
  shows "length (counters g) = length (ts_stats (pg_tcp g))"
    and "i < length (counters g) \<Longrightarrow> counters g ! i =
      (ps_port (ts_stats (pg_tcp g) ! i), merged (ts_stats (pg_tcp g) ! i) (tb_stats (up_table (pg_udp g ! i))))"
  using assms by (simp_all add: counters_def stats_ok_def)

lemma counters_keys: "stats_ok g \<Longrightarrow> map fst (counters g) = map ps_port (ts_stats (pg_tcp g))"
  by (rule nth_equalityI) (simp_all add: counters_nth)

text \<open>What one step does to the registry: nothing, one rollup, or operations on one port.\<close>

definition step_events :: "u16 list \<Rightarrow> registry_event list \<Rightarrow> bool" where
  "step_events ports evs \<longleftrightarrow>
     evs = [] \<or> (\<exists>now. evs = [Rollup now]) \<or> (\<exists>port \<in> set ports. \<exists>ops. evs = map (PortOp port) ops)"

definition recorded :: "'s running_app \<Rightarrow> ('s, 'm, 'c) program \<Rightarrow> ('s, 'm, 'c) program \<Rightarrow> bool" where
  "recorded app g g' \<longleftrightarrow> stats_ok g' \<and>
     (\<exists>evs. step_events (map fst (counters g)) evs \<and> registry_run evs (registry_of app g) = Some (registry_of app g'))"

lemma recorded_ports: "recorded app g g' \<Longrightarrow> map fst (counters g') = map fst (counters g)"
  by (auto simp: recorded_def registry_of_def dest!: registry_run_ports)

lemma recorded_same:
  assumes "stats_ok g'" and "registry_of app g' = registry_of app g"
  shows "recorded app g g'"
  unfolding recorded_def using assms by (intro conjI exI [of _ "[]"]) (simp_all add: step_events_def)

lemma counters_step:
  assumes "stats_ok g" and "i < length (counters g)"
    and "counters g' = (counters g)[i := (fst (counters g ! i), apply_all ops (snd (counters g ! i)))]"
    and "pg_buckets g' = pg_buckets g" and "pg_previous_totals g' = pg_previous_totals g"
    and "stats_ok g'"
  shows "recorded app g g'"
proof -
  have "distinct (map fst (counters g))"
    using assms(1) strict_sorted_iff unfolding counters_keys [OF assms(1)] by (auto simp: stats_ok_def)
  from modify_nth [OF this assms(2), of "apply_all ops"] port_ops_run [of _ ops "[]"]
  have "registry_run (map (PortOp (fst (counters g ! i))) ops) (registry_of app g) = Some (registry_of app g')"
    by (simp add: registry_of_def assms(3-5))
  moreover have "step_events (map fst (counters g)) (map (PortOp (fst (counters g ! i))) ops)"
    using assms(2) by (auto simp: step_events_def)
  ultimately show ?thesis using assms(6) unfolding recorded_def by blast
qed

text \<open>A step of a task is operations on the counters of its port.\<close>

lemma tcp_side_step:
  assumes "stats_ok g" and "tcp_step S (pg_tcp g) t"
  shows "recorded app g (g\<lparr>pg_tcp := t\<rparr>)"
proof -
  obtain l ops where ops: "\<forall>op \<in> set ops. tcp_op op" "ts_stats t = worked (ts_stats (pg_tcp g)) l ops"
    using tcp_step_ops [OF assms(2)] by blast
  have "ps_port (ts_stats t ! i) = ps_port (ts_stats (pg_tcp g) ! i)" if "i < length (ts_stats t)" for i
    using that by (cases "i = l") (simp_all add: ops(2) worked_def)
  then have ports: "map ps_port (ts_stats t) = map ps_port (ts_stats (pg_tcp g))"
    by (intro nth_equalityI) (simp_all add: ops(2) worked_def)
  with assms(1) have ok: "stats_ok (g\<lparr>pg_tcp := t\<rparr>)" by (simp add: stats_ok_def ops(2) worked_def)
  show ?thesis
  proof (cases "l < length (counters g)")
    case True
    have "counters (g\<lparr>pg_tcp := t\<rparr>) = (counters g)[l := (fst (counters g ! l), apply_all ops (snd (counters g ! l)))]"
      (is "?c = ?c'")
    proof (rule nth_equalityI)
      show "length ?c = length ?c'" using counters_nth(1) [OF ok] counters_nth(1) [OF assms(1)] ports
        by (simp add: ops(2) worked_def)
      fix i assume "i < length ?c"
      with counters_nth [OF ok] counters_nth [OF assms(1)] True show "?c ! i = ?c' ! i"
        by (cases "i = l") (simp_all add: ops(2) worked_def merged_ops(1) [OF ops(1)])
    qed
    then show ?thesis by (rule counters_step [OF assms(1) True]) (simp_all add: ok)
  next
    case False
    then have "ts_stats t = ts_stats (pg_tcp g)"
      by (simp add: ops(2) worked_def counters_nth(1) [OF assms(1)] not_less list_update_beyond)
    then show ?thesis by (intro recorded_same [OF ok]) (simp add: registry_of_def counters_def)
  qed
qed

lemma udp_side_step:
  assumes "stats_ok g" and "i < length (pg_udp g)" and "port_step D C timely kind (pg_udp g ! i) p"
  shows "recorded app g (g\<lparr>pg_udp := (pg_udp g)[i := p]\<rparr>)"
proof -
  let ?g = "g\<lparr>pg_udp := (pg_udp g)[i := p]\<rparr>"
  obtain ops where ops: "\<forall>op \<in> set ops. \<not> tcp_op op"
    "tb_stats (up_table p) = apply_all ops (tb_stats (up_table (pg_udp g ! i)))"
    using port_step_ops [OF assms(3)] by blast
  from assms(1) have ok: "stats_ok ?g" by (simp add: stats_ok_def)
  have i: "i < length (counters g)" using assms(1,2) counters_nth(1) [OF assms(1)] by (simp add: stats_ok_def)
  have "counters ?g = (counters g)[i := (fst (counters g ! i), apply_all ops (snd (counters g ! i)))]"
    (is "?c = ?c'")
  proof (rule nth_equalityI)
    show "length ?c = length ?c'" using counters_nth(1) [OF ok] counters_nth(1) [OF assms(1)] by simp
    fix j assume "j < length ?c"
    with counters_nth [OF ok] counters_nth [OF assms(1)] i assms(2) show "?c ! j = ?c' ! j"
      by (cases "j = i") (simp_all add: ops(2) merged_ops(2) [OF ops(1)])
  qed
  then show ?thesis by (rule counters_step [OF assms(1) i]) (simp_all add: ok)
qed

lemma roll_rolls:
  assumes "stats_ok g"
  shows "stats_ok (roll now g)" and "rollup_at_epoch now (registry_of app g) = Some (registry_of app (roll now g))"
proof -
  obtain ring q where "rollup (pg_buckets g) now (current_totals (counters g)) (pg_previous_totals g) = Some (ring, q)"
    "br_buckets ring \<noteq> []"
    using rollup_total [of "pg_buckets g"] assms unfolding stats_ok_def by blast
  with assms show "stats_ok (roll now g)" "rollup_at_epoch now (registry_of app g) = Some (registry_of app (roll now g))"
    by (simp_all add: roll_def stats_ok_def registry_of_def rollup_at_epoch_def counters_def)
qed

lemma roll_step:
  assumes "stats_ok g"
  shows "recorded app g (roll now g)"
  unfolding recorded_def
  using roll_rolls [OF assms] by (intro conjI exI [of _ "[Rollup now]"]) (simp_all add: step_events_def)

lemma step_recorded:
  assumes "program_step S D C timely kind g g'" and "stats_ok g"
  shows "recorded app g g'"
proof -
  have same: "recorded app g g''"
    if "ts_stats (pg_tcp g'') = ts_stats (pg_tcp g)" "map up_table (pg_udp g'') = map up_table (pg_udp g)"
      "pg_buckets g'' = pg_buckets g" "pg_previous_totals g'' = pg_previous_totals g" for g'' :: "('a, 'b, 'c) program"
  proof -
    have len: "length (pg_udp g'') = length (pg_udp g)" using arg_cong [OF that(2), of length] by simp
    with that assms(2) have ok: "stats_ok g''" by (simp add: stats_ok_def)
    have "up_table (pg_udp g'' ! i) = up_table (pg_udp g ! i)" if "i < length (pg_udp g)" for i
      using arg_cong [OF \<open>map up_table (pg_udp g'') = map up_table (pg_udp g)\<close>, of "\<lambda>xs. xs ! i"] that len by simp
    then have "counters g'' = counters g"
      using counters_nth [OF ok] counters_nth [OF assms(2)] that(1) len assms(2)
      by (intro nth_equalityI) (simp_all add: stats_ok_def)
    with that show ?thesis by (intro recorded_same [OF ok]) (simp add: registry_of_def)
  qed
  show ?thesis
    using assms(1)
  proof (cases rule: program_step.cases)
    case (g_tcp t)
    with tcp_side_step [OF assms(2)] show ?thesis by simp
  next
    case (g_udp i p)
    with udp_side_step [OF assms(2)] show ?thesis by simp
  next
    case (g_tick now)
    with roll_step [OF assms(2)] show ?thesis by blast
  next
    case (g_rollup now)
    have "counters g' = counters (roll now g)" by (simp add: g_rollup(2) counters_def)
    then have "registry_of app g' = registry_of app (roll now g)" by (simp add: registry_of_def g_rollup(2))
    moreover have "stats_ok g' = stats_ok (roll now g)" by (simp add: stats_ok_def g_rollup(2))
    ultimately show ?thesis using roll_step [OF assms(2), of app now] by (simp add: recorded_def)
  next
    case g_cancel
    have "map up_table (pg_udp g') = map up_table (pg_udp g)" by (simp add: g_cancel o_def)
    with same [of g'] show ?thesis by (simp add: g_cancel)
  qed (use same [of g'] in simp_all)
qed

lemma registry_run_append:
  "registry_run (evs @ evs') reg =
     (case registry_run evs reg of None \<Rightarrow> None | Some reg' \<Rightarrow> registry_run evs' reg')"
  by (induction evs arbitrary: reg) (simp_all split: option.splits)

lemma reach_recorded:
  assumes "program_reach S D C timely g0 g" and "stats_ok g0"
  shows "stats_ok g \<and> map fst (counters g) = map fst (counters g0) \<and>
    (\<exists>evs. registry_run evs (registry_of app g0) = Some (registry_of app g))"
  using assms(1)
proof (induction rule: program_reach.induct)
  case g_here
  have "registry_run [] (registry_of app g0) = Some (registry_of app g0)" by simp
  with assms(2) show ?case by blast
next
  case (g_step g kind g')
  then obtain evs where evs: "registry_run evs (registry_of app g0) = Some (registry_of app g)" "stats_ok g" by blast
  note rec = step_recorded [OF g_step.hyps(2) evs(2), of app]
  then obtain evs' where
    "registry_run evs' (registry_of app g) = Some (registry_of app g')" "stats_ok g'" unfolding recorded_def by blast
  with evs(1) have "registry_run (evs @ evs') (registry_of app g0) = Some (registry_of app g')"
    by (simp add: registry_run_append)
  with \<open>stats_ok g'\<close> recorded_ports [OF rec] g_step.IH show ?case by auto
qed

section \<open>The start\<close>

lemma udp_side_simps [simp]:
  "udp_side D C [] = []" "udp_side D C (TcpTask p s # ts) = udp_side D C ts"
  "udp_side D C (UdpTask p s d # ts) = udp_port_new D C d p # udp_side D C ts"
  "udp_side D C (RollupTask # ts) = udp_side D C ts" "udp_side D C (SummaryTask i # ts) = udp_side D C ts"
  "udp_side D C (HttpTask s # ts) = udp_side D C ts" "udp_side D C (ts @ us) = udp_side D C ts @ udp_side D C us"
  by (simp_all add: udp_side_def)

lemma spawned_udp:
  assumes "spawn_listeners stats d ls tasks = Some tasks'"
  shows "udp_side D C tasks' = udp_side D C tasks @ map (\<lambda>l. udp_port_new D C d (fst l)) ls"
  using assms
  by (induction ls arbitrary: tasks) (auto simp: registry_port_def split: option.splits)

lemma started_udp:
  assumes "start S sys local_addr unix_now config = Some (calls, Inr app)"
  shows "udp_side D C (ra_tasks app) = map (udp_port_new D C (rc_udp_idle_timeout config)) (rc_listen_ports config)"
proof -
  have "map (\<lambda>l. udp_port_new D C d (fst l)) ls = map (udp_port_new D C d) (map fst ls)"
    for d and ls :: "(u16 \<times> sock \<times> sock) list" by simp
  with assms show ?thesis
    by (auto simp: start_def Let_def bind_ports_ports dest!: spawned_udp [where D = D and C = C]
        simp del: map_map split: if_splits prod.splits sum.splits option.splits)
qed

lemma started_rollup:
  assumes "start S sys local_addr unix_now config = Some (calls, Inr app)"
  shows "RollupTask \<in># pg_services (program_of D C app)"
proof -
  have "set tasks \<subseteq> set tasks'" if "spawn_listeners stats d ls tasks = Some tasks'" for stats d ls tasks tasks'
    using that by (induction ls arbitrary: tasks) (fastforce simp: registry_port_def split: option.splits)+
  then have "RollupTask \<in> set (ra_tasks app)"
    using assms
    by (fastforce simp: start_def Let_def split: if_splits prod.splits sum.splits option.splits)
  then show ?thesis by (simp add: program_of_def)
qed

lemma collect_ascending:
  assumes "sorted_wrt (<) (map fst m)"
  shows "btm_collect m = m"
proof -
  have last: "btm_insert k v m = m @ [(k, v)]" if "\<forall>x \<in> set m. fst x < k" for k v and m :: "('a \<times> 'b) list"
    using that by (induction m) auto
  show ?thesis
    using assms
  proof (induction m rule: rev_induct)
    case (snoc x m)
    then have "btm_collect m = m" "\<forall>y \<in> set m. fst y < fst x" by (auto simp: sorted_wrt_append)
    with last [of m "fst x" "snd x"] show ?case by (cases x) (simp add: btm_collect_def)
  qed (simp add: btm_collect_def)
qed

lemma started_registry:
  assumes "start S sys local_addr unix_now config = Some (calls, Inr app)"
    and "sorted_wrt (<) (rc_listen_ports config)"
  shows "stats_ok (program_of D C app) \<and> registry_of app (program_of D C app) = ra_stats app \<and>
    map fst (counters (program_of D C app)) = rc_listen_ports config"
proof -
  let ?g = "program_of D C app"
  let ?ports = "rc_listen_ports config"
  have udp: "pg_udp ?g = map (udp_port_new D C (rc_udp_idle_timeout config)) ?ports"
    using started_udp [OF assms(1)] by (simp add: program_of_def)
  have tcp: "ts_stats (pg_tcp ?g) = map port_stats_new ?ports"
    by (simp add: program_of_def tcp_side_started [OF assms(1)] tcp_new_def)
  have ring: "br_buckets (pg_buckets ?g) \<noteq> []"
    using started(1) [OF assms(1)] by (simp add: program_of_def registry_new_def ring_new_def)
  have new: "merged (port_stats_new p) (port_stats_new q) = port_stats_new p" "ps_port (port_stats_new p) = p" for p q
    by (simp_all add: merged_def port_stats_new_def)
  have ok: "stats_ok ?g" using assms(2) udp tcp ring by (simp add: stats_ok_def o_def new)
  have "counters ?g = map (\<lambda>p. (p, port_stats_new p)) ?ports"
    using counters_nth [OF ok] by (intro nth_equalityI) (simp_all add: udp tcp udp_port_new_def table_new_def new)
  moreover have "sr_ports (ra_stats app) = map (\<lambda>p. (p, port_stats_new p)) ?ports"
    using started(1) [OF assms(1)] assms(2) by (simp add: registry_new_def collect_ascending o_def)
  ultimately show ?thesis using ok by (simp add: registry_of_def program_of_def o_def)
qed

section \<open>What a report says\<close>

text \<open>Every accepted connection is active or closed.\<close>

definition balanced :: "port_stats \<Rightarrow> bool" where
  "balanced s \<longleftrightarrow> ps_tcp_accepted s = ps_tcp_active s + ps_tcp_closed s"

lemma balanced_ops:
  "balanced s \<Longrightarrow> balanced (record_tcp_accept s)"
  "balanced s \<Longrightarrow> ps_tcp_active s \<noteq> 0 \<Longrightarrow> balanced (record_tcp_close s)"
  "balanced s \<Longrightarrow> balanced (add_tcp_bytes i j s)"
proof -
  show "balanced s \<Longrightarrow> balanced (record_tcp_accept s)" by (simp add: balanced_def record_tcp_accept_def Let_def)
  have "atomic_saturating_decrement a = a - 1" if "a \<noteq> 0" for a
  proof -
    have "1 \<le> a" using that word_less_1 [of a] by (meson not_le)
    then show ?thesis by (simp add: atomic_saturating_decrement_def saturating_sub_def)
  qed
  then show "balanced s \<Longrightarrow> ps_tcp_active s \<noteq> 0 \<Longrightarrow> balanced (record_tcp_close s)"
    by (simp add: balanced_def record_tcp_close_def Let_def)
  show "balanced s \<Longrightarrow> balanced (add_tcp_bytes i j s)"
    by (simp add: balanced_def add_tcp_bytes_def Let_def)
qed

lemma balanced_update:
  "\<forall>s \<in> set ss. balanced s \<Longrightarrow> balanced s' \<Longrightarrow> \<forall>s \<in> set (ss[i := s']). balanced s"
  using set_update_subset_insert [of ss i s'] by blast

lemma balanced_step:
  assumes "tcp_step S t t'" and "tcp_inv S n t" and "\<forall>s \<in> set (ts_stats t). balanced s"
  shows "\<forall>s \<in> set (ts_stats t'). balanced s"
  using assms(1)
proof (cases rule: tcp_step.cases)
  case (listener l choice)
  then have "balanced (ts_stats t ! l)" using assms(2,3) by (simp add: tcp_inv_def)
  from balanced_update [OF assms(3) balanced_ops(1) [OF this]] listener(2) assms(3) show ?thesis
    by (cases "ts_listeners t ! l"; cases choice) (auto simp: Let_def split: if_splits)
next
  case (conn c ev)
  have l: "fst c < length (ts_stats t)" using conn(1) assms(2) by (auto simp: tcp_inv_def)
  then have bal: "balanced (ts_stats t ! fst c)" using assms(3) by simp
  from conn(2) show ?thesis
  proof (cases rule: conn_act_cases)
    case (counted l' a i j)
    then show ?thesis using balanced_update [OF assms(3) balanced_ops(3) [OF bal]] by simp
  next
    case (closed l')
    then have "uncounted_close l' c" by (simp add: uncounted_close_def)
    with conn(1) have "c \<in># filter_mset (uncounted_close l') (ts_conns t)" by simp
    then have "live l' t \<noteq> 0" unfolding live_def by (metis empty_iff set_mset_empty size_eq_0_iff_empty)
    then have "ps_tcp_active (ts_stats t ! fst c) \<noteq> 0" using assms(2) l closed(1) by (auto simp: tcp_inv_def)
    from balanced_update [OF assms(3) balanced_ops(2) [OF bal this]] closed show ?thesis by simp
  qed (use assms(3) in simp_all)
qed (use assms(3) in simp_all)

lemma balanced_reach:
  assumes "semaphore S" and "n < 2 ^ 64" and "tcp_reach S (tcp_new S n ports) t"
  shows "\<forall>s \<in> set (ts_stats t). balanced s"
  using assms(3)
proof (induction rule: tcp_reach.induct)
  case here
  show ?case by (auto simp: tcp_new_def balanced_def port_stats_new_def)
next
  case (step t t')
  have "tcp_inv S n t" using semaphore.inv_tcp_reach [OF assms(1)] assms(2) step.hyps(1) by blast
  with balanced_step step show ?case by blast
qed

text \<open>The counters of the \<open>i\<close>-th listed port in a report, in terms of the two sides.\<close>

lemma report_nth:
  assumes "stats_ok g" and "i < length (pg_udp g)"
  shows "length (ss_ports (registry_snapshot later (registry_of app g))) = length (pg_udp g)"
    and "ss_ports (registry_snapshot later (registry_of app g)) ! i =
      port_stats_snapshot (merged (ts_stats (pg_tcp g) ! i) (tb_stats (up_table (pg_udp g ! i))))"
  using counters_nth [OF assms(1)] assms
  by (simp_all add: registry_snapshot_def Let_def registry_of_def btm_values_def stats_ok_def)

lemma reported_fields:
  "sn_tcp_accepted (port_stats_snapshot (merged s u)) = ps_tcp_accepted s"
  "sn_tcp_active (port_stats_snapshot (merged s u)) = ps_tcp_active s"
  "sn_tcp_closed (port_stats_snapshot (merged s u)) = ps_tcp_closed s"
  "sn_udp_active_flows (port_stats_snapshot (merged s u)) = ps_udp_active_flows u"
  "sn_udp_in_bytes (port_stats_snapshot (merged s u)) = ps_udp_in_bytes u"
  "sn_udp_out_bytes (port_stats_snapshot (merged s u)) = ps_udp_out_bytes u"
  "sn_udp_dropped (port_stats_snapshot (merged s u)) = ps_udp_dropped u"
  by (simp_all add: port_stats_snapshot_def merged_def)

text \<open>What the report on a UDP port must say: the bytes sent to the target, but for a datagram about to
  be counted; the bytes sent to the clients; the replies refused by the full queue, but for those
  about to be counted; and, in timely runs with no operation on the table in flight, the sessions.\<close>

definition udp_report :: "'m session_map \<Rightarrow> bool \<Rightarrow> ('m, 'c) udp_port \<Rightarrow> port_snapshot \<Rightarrow> bool" where
  "udp_report D timely p r \<longleftrightarrow>
     sn_udp_in_bytes r + of_nat (to_count (up_listener p)) = of_nat (sum_list (map bytes_to_target (up_log p))) \<and>
     sn_udp_out_bytes r = of_nat (bytes_of (delivered p)) \<and>
     sn_udp_dropped r + of_nat (pending_drops (up_replies p)) = of_nat (length (dropped p)) \<and>
     (timely \<and> port_ops p = {#} \<and> length (tb_arena (up_table p)) < 2 ^ 64 \<longrightarrow>
        unat (sn_udp_active_flows r) = card (dom (dm_get D (tb_sessions (up_table p)))))"

text \<open>On a TCP port: the connections that are not yet counted as closed; all others are closed.\<close>

definition tcp_report :: "'s tcp_system \<Rightarrow> nat \<Rightarrow> port_snapshot \<Rightarrow> bool" where
  "tcp_report t i r \<longleftrightarrow>
     unat (sn_tcp_active r) = live i t \<and> sn_tcp_accepted r = sn_tcp_active r + sn_tcp_closed r"

lemma udp_reported:
  assumes "dashmap D" and "bounded_channel C" and "port_from D C timely p"
  shows "udp_report D timely p (port_stats_snapshot (merged s (tb_stats (up_table p))))"
proof -
  obtain d port where reach: "port_reach D C timely (udp_port_new D C d port) p"
    using assms(3) by (auto simp: port_from_def)
  have "ingress p \<and> egress C p" by (rule udp_tasks.traffic_reach [OF port_laws [OF assms(1,2)] reach])
  moreover have "flows (up_table p) = card (dom (dm_get D (tb_sessions (up_table p))))"
    if "timely" "port_ops p = {#}" "length (tb_arena (up_table p)) < 2 ^ 64"
  proof -
    have "timely = True" using that(1) by simp
    with reach have "port_gauge D p"
      using udp_tasks.port_gauge_reach [OF port_laws [OF assms(1,2)]] by blast
    with that(2,3) show ?thesis by (auto simp: port_gauge_def gauge_inv_def opened_def dom_def)
  qed
  ultimately show ?thesis by (simp add: udp_report_def ingress_def egress_def reported_fields flows_def)
qed

lemma tcp_reported:
  assumes "semaphore S" and "n < 2 ^ 64" and "tcp_reach S (tcp_new S n ports) t" and "i < length (ts_stats t)"
  shows "tcp_report t i (port_stats_snapshot (merged (ts_stats t ! i) u))"
proof -
  have "tcp_inv S n t" using semaphore.inv_tcp_reach [OF assms(1)] assms(2,3) by blast
  moreover have "balanced (ts_stats t ! i)" using balanced_reach [OF assms(1-3)] assms(4) by simp
  ultimately show ?thesis using assms(4) by (simp add: tcp_report_def reported_fields tcp_inv_def balanced_def)
qed

end
