(* ===== verification/Program_Target.thy ===== *)
theory Program_Target
  imports Program_Stats Target_Refresh
begin

text \<open>
  The running program together with its target: whoever connects asks \<open>TargetAddr::current\<close>
  (\<open>src/src/target.rs\<close>) first, a UDP port when it makes a session (\<open>get_or_create\<close> in
  \<open>src/src/udp_session.rs\<close>), a TCP connection when it is forwarded (\<open>proxy\<close> in
  \<open>src/src/forward/tcp.rs\<close>). An address literal is what it is; a host name is the state machine of
  \<open>Target_Refresh\<close>, whose callers are these, between their calls and with the refresh in the
  background. A step of \<open>Program\<close> may connect a session or a TCP connection to any address; here it
  takes one that the target has returned.
\<close>

section \<open>The program with its target\<close>

datatype 'r shared_target = Literal static_target | Cached "'r refresh_state"

fun share :: "'r target_addr \<Rightarrow> 'r shared_target" where
  "share (Static s) = Literal s"
| "share (Dynamic d) = Cached (refresh_init d)"

text \<open>What a caller of \<open>current\<close> has been answered.\<close>

fun gives :: "'r shared_target \<Rightarrow> socket_addr \<Rightarrow> bool" where
  "gives (Literal s) a \<longleftrightarrow> a = st_addr s"
| "gives (Cached r) a \<longleftrightarrow> a \<in> set (rf_returned r)"

record ('r, 's, 'm, 'c) forwarder =
  fw_program :: "('s, 'm, 'c) program"
  fw_target :: "'r shared_target"

definition forwarder_of ::
    "'m session_map \<Rightarrow> 'c reply_chan \<Rightarrow> 'r runtime_config \<Rightarrow> 's running_app \<Rightarrow> ('r, 's, 'm, 'c) forwarder" where
  "forwarder_of D C config app =
     \<lparr>fw_program = program_of D C app, fw_target = share (rc_target config)\<rparr>"

text \<open>The sessions that a port has in \<open>p'\<close> and had not in \<open>p\<close>, and the addresses of the connections
  that started to connect from \<open>t\<close> to \<open>t'\<close>.\<close>

definition made_sessions :: "('m, 'c) udp_port \<Rightarrow> ('m, 'c) udp_port \<Rightarrow> udp_session list" where
  "made_sessions p p' = drop (length (tb_arena (up_table p))) (tb_arena (up_table p'))"

definition new_dials :: "'s tcp_system \<Rightarrow> 's tcp_system \<Rightarrow> socket_addr set" where
  "new_dials t t' = {a. \<exists>l. (l, Connecting a) \<in># ts_conns t' - ts_conns t}"

inductive forwarder_step ::
    "lookup set \<Rightarrow> 's sem_ops \<Rightarrow> 'm session_map \<Rightarrow> 'c reply_chan \<Rightarrow> bool \<Rightarrow>
     ('r, 's, 'm, 'c) forwarder \<Rightarrow> ('r, 's, 'm, 'c) forwarder \<Rightarrow> bool"
  for L :: "lookup set" and S :: "'s sem_ops" and D :: "'m session_map" and C :: "'c reply_chan" and timely :: bool where
  f_program: "program_step S D C timely kind (fw_program f) g \<Longrightarrow>
    \<forall>(p, p') \<in> set (zip (pg_udp (fw_program f)) (pg_udp g)). \<forall>s \<in> set (made_sessions p p').
      \<exists>a. sk_peer (us_upstream s) = Some a \<and> gives (fw_target f) a \<Longrightarrow>
    \<forall>a \<in> new_dials (pg_tcp (fw_program f)) (pg_tcp g). gives (fw_target f) a \<Longrightarrow>
    forwarder_step L S D C timely f (f\<lparr>fw_program := g\<rparr>)"
| f_target: "fw_target f = Cached r \<Longrightarrow> refresh_step L r r' \<Longrightarrow>
    forwarder_step L S D C timely f (f\<lparr>fw_target := Cached r'\<rparr>)"

inductive forwarder_reach ::
    "lookup set \<Rightarrow> 's sem_ops \<Rightarrow> 'm session_map \<Rightarrow> 'c reply_chan \<Rightarrow> bool \<Rightarrow>
     ('r, 's, 'm, 'c) forwarder \<Rightarrow> ('r, 's, 'm, 'c) forwarder \<Rightarrow> bool"
  for L :: "lookup set" and S :: "'s sem_ops" and D :: "'m session_map" and C :: "'c reply_chan" and timely :: bool
    and f0 :: "('r, 's, 'm, 'c) forwarder" where
  f_here: "forwarder_reach L S D C timely f0 f0"
| f_step: "forwarder_reach L S D C timely f0 f \<Longrightarrow> forwarder_step L S D C timely f f' \<Longrightarrow>
    forwarder_reach L S D C timely f0 f'"

text \<open>Its program part is a run of \<open>Program\<close>, its target part one of \<open>Target_Refresh\<close>.\<close>

lemma forwarder_program:
  "forwarder_reach L S D C timely f0 f \<Longrightarrow> program_reach S D C timely (fw_program f0) (fw_program f)"
  by (induction rule: forwarder_reach.induct)
    (auto elim!: forwarder_step.cases intro: g_here g_step)

definition same_target :: "lookup set \<Rightarrow> 'r target_addr \<Rightarrow> 'r shared_target \<Rightarrow> bool" where
  "same_target L t T \<longleftrightarrow>
     (case t of
        Static s \<Rightarrow> T = Literal s
      | Dynamic d \<Rightarrow> (\<exists>r. T = Cached r \<and> refresh_reach L (refresh_init d) r))"

lemma forwarder_target:
  "forwarder_reach L S D C timely f0 f \<Longrightarrow> fw_target f0 = share t \<Longrightarrow> same_target L t (fw_target f)"
proof (induction rule: forwarder_reach.induct)
  case f_here
  then show ?case by (cases t) (simp_all add: same_target_def refresh_reach.here)
next
  case (f_step f f')
  from f_step.hyps(2) f_step.IH [OF f_step.prems] show ?case
    by (cases rule: forwarder_step.cases; cases t) (auto simp: same_target_def intro: refresh_reach.step)
qed

section \<open>The addresses that are contacted\<close>

definition target_addresses :: "lookup set \<Rightarrow> 'r target_addr \<Rightarrow> socket_addr set" where
  "target_addresses L t = (case t of Static s \<Rightarrow> {st_addr s} | Dynamic d \<Rightarrow> answers L d)"

lemma given_addresses:
  assumes "same_target L t T" and "gives T a" and "\<And>d. t = Dynamic d \<Longrightarrow> \<not> dt_refresh_inflight d"
  shows "a \<in> target_addresses L t"
proof (cases t)
  case (Static s)
  with assms show ?thesis by (simp add: same_target_def target_addresses_def)
next
  case (Dynamic d)
  with assms(1,2) obtain r where r: "refresh_reach L (refresh_init d) r" "a \<in> set (rf_returned r)"
    by (auto simp: same_target_def)
  from refresh_inv_reach [OF r(1) assms(3) [OF Dynamic]] r(2) Dynamic show ?thesis
    by (auto simp: refresh_inv_def target_addresses_def)
qed

lemma program_grows:
  assumes "program_step S D C timely kind g g'" and "dashmap D" and "bounded_channel C"
    and "\<forall>p \<in> set (pg_udp g). port_from D C timely p"
  shows "length (pg_udp g') = length (pg_udp g) \<and>
    (\<forall>i < length (pg_udp g). grows (up_table (pg_udp g ! i)) (up_table (pg_udp g' ! i)))"
  using assms(1)
proof (cases rule: program_step.cases)
  case (g_udp i p)
  note laws = port_laws [OF assms(2,3)]
  have "port_from D C timely (pg_udp g ! i)" using g_udp(2) assms(4) by simp
  then obtain d port where "port_reach D C timely (udp_port_new D C d port) (pg_udp g ! i)"
    by (auto simp: port_from_def)
  from udp_tasks.port_inv_reach [OF laws this] have
    "table_inv D (up_table (pg_udp g ! i)) (port_ops (pg_udp g ! i))"
    "tasks_ok D (up_table (pg_udp g ! i)) (up_listener (pg_udp g ! i)) (up_cleanup (pg_udp g ! i)) (up_replies (pg_udp g ! i))"
    by (simp_all add: port_inv_def)
  from port_moves [OF g_udp(3) this] have "grows (up_table (pg_udp g ! i)) (up_table p)"
    by (rule moves_grow)
  then show ?thesis using g_udp by (auto simp: nth_list_update)
qed simp_all

text \<open>The address that a TCP connection connects to, or is connected to.\<close>

fun conn_target :: "conn_phase \<Rightarrow> socket_addr option" where
  "conn_target (Connecting a) = Some a"
| "conn_target (Copying a) = Some a"
| "conn_target _ = None"

definition conns_to :: "socket_addr set \<Rightarrow> 's tcp_system \<Rightarrow> bool" where
  "conns_to A t \<longleftrightarrow> (\<forall>c \<in># ts_conns t. \<forall>a. conn_target (snd c) = Some a \<longrightarrow> a \<in> A)"

lemma conns_to_step:
  assumes "tcp_step S t t'" and "conns_to A t" and "new_dials t t' \<subseteq> A"
  shows "conns_to A t'"
  using assms(1)
proof (cases rule: tcp_step.cases)
  case (listener l choice)
  have "ts_conns t' = ts_conns t \<or> ts_conns t' = add_mset (l, Spawned) (ts_conns t)"
    using listener(2) by (cases "ts_listeners t ! l"; cases choice) (auto simp: Let_def split: if_splits)
  with assms(2) show ?thesis by (elim disjE) (simp_all add: conns_to_def)
next
  case (conn c ev)
  then obtain rest where rest: "ts_conns t = add_mset c rest" by (metis mset_add)
  from conn(2) show ?thesis
  proof (cases rule: conn_act_cases)
    case (goes l ph ph')
    then have conns: "ts_conns t = add_mset (l, ph) rest" "ts_conns t' = add_mset (l, ph') rest"
      using conns_go [OF rest, of ph'] rest by simp_all
    have "a \<in> A" if "conn_target ph' = Some a" for a
      using goes(2)
    proof cases
      case (1 b)
      with that assms(3) show ?thesis by (auto simp: new_dials_def conns)
    qed (use that assms(2) in \<open>auto simp: conns_to_def conns\<close>)
    with assms(2) show ?thesis by (auto simp: conns_to_def conns)
  next
    case (counted l a i j)
    with assms(2) rest conns_go [OF rest, of Closing] show ?thesis by (simp add: conns_to_def)
  next
    case (closed l)
    with assms(2) rest conns_go [OF rest, of Releasing] show ?thesis by (simp add: conns_to_def)
  next
    case (released l)
    with assms(2) rest show ?thesis by (simp add: conns_to_def)
  qed
qed (use assms(2) in \<open>simp_all add: conns_to_def\<close>)

lemma program_conns:
  assumes "program_step S D C timely kind g g'" and "conns_to A (pg_tcp g)" and "new_dials (pg_tcp g) (pg_tcp g') \<subseteq> A"
  shows "conns_to A (pg_tcp g')"
  using assms(1)
proof (cases rule: program_step.cases)
  case (g_tcp t)
  then show ?thesis using conns_to_step [OF g_tcp(3) assms(2)] assms(3) by simp
qed (use assms(2) in \<open>simp_all add: conns_to_def\<close>)

text \<open>Every session of every port is connected to one of the addresses, and every TCP connection.\<close>

definition only_to :: "socket_addr set \<Rightarrow> ('r, 's, 'm, 'c) forwarder \<Rightarrow> bool" where
  "only_to A f \<longleftrightarrow> conns_to A (pg_tcp (fw_program f)) \<and>
     (\<forall>p \<in> set (pg_udp (fw_program f)). \<forall>s \<in> set (tb_arena (up_table p)). \<exists>a \<in> A. sk_peer (us_upstream s) = Some a)"

lemma only_to_step:
  assumes "forwarder_step L S D C timely f f'" and "dashmap D" and "bounded_channel C"
    and "\<forall>p \<in> set (pg_udp (fw_program f)). port_from D C timely p"
    and "\<And>a. gives (fw_target f) a \<Longrightarrow> a \<in> A" and "only_to A f"
  shows "only_to A f'"
  using assms(1)
proof (cases rule: forwarder_step.cases)
  case (f_program kind g)
  let ?ps = "pg_udp (fw_program f)"
  note grow = program_grows [OF f_program(2) assms(2-4)]
  have "\<exists>a \<in> A. sk_peer (us_upstream s) = Some a" if "p' \<in> set (pg_udp g)" "s \<in> set (tb_arena (up_table p'))" for p' s
  proof -
    from that(1) grow obtain i where i: "i < length ?ps" "p' = pg_udp g ! i" by (auto simp: in_set_conv_nth)
    from that(2) obtain r where r: "r < length (tb_arena (up_table p'))" "s = tb_arena (up_table p') ! r"
      by (auto simp: in_set_conv_nth)
    have at: "(?ps ! i, p') \<in> set (zip ?ps (pg_udp g))" using i grow by (auto simp: in_set_zip)
    show ?thesis
    proof (cases "r < length (tb_arena (up_table (?ps ! i)))")
      case True
      then have "us_upstream s = us_upstream (tb_arena (up_table (?ps ! i)) ! r)"
        using grow i r(2) by (simp add: grows_def)
      moreover have "?ps ! i \<in> set ?ps" using i(1) by simp
      ultimately show ?thesis using assms(6) True by (auto simp: only_to_def)
    next
      case False
      then have "s \<in> set (made_sessions (?ps ! i) p')"
        using r by (auto simp: made_sessions_def in_set_conv_nth intro!: exI [of _ "r - length (tb_arena (up_table (?ps ! i)))"])
      then show ?thesis using f_program(3) at assms(5) by blast
    qed
  qed
  moreover have "conns_to A (pg_tcp g)"
    by (rule program_conns [OF f_program(2)]) (use assms(5,6) f_program(4) in \<open>auto simp: only_to_def\<close>)
  ultimately show ?thesis by (simp add: only_to_def f_program(1))
qed (use assms(5,6) in \<open>auto simp: only_to_def\<close>)

lemma only_to_reach:
  assumes "semaphore S" and "dashmap D" and "bounded_channel C"
    and "start S sys local_addr unix_now config = Some (calls, Inr app)"
    and "forwarder_reach L S D C timely (forwarder_of D C config app) f"
    and "\<And>d. rc_target config = Dynamic d \<Longrightarrow> \<not> dt_refresh_inflight d"
  shows "only_to (target_addresses L (rc_target config)) f"
  using assms(5)
proof (induction rule: forwarder_reach.induct)
  case f_here
  show ?case
    using started_udp [OF assms(4), of D C]
    by (simp add: only_to_def forwarder_of_def program_of_def udp_port_new_def table_new_def conns_to_def tcp_side_def)
next
  case (f_step f f')
  have "program_reach S D C timely (program_of D C app) (fw_program f)"
    using forwarder_program [OF f_step.hyps(1)] by (simp add: forwarder_of_def)
  then have "running S D C timely app (fw_program f)" by (rule running_reach [OF assms(1,4)])
  moreover have "same_target L (rc_target config) (fw_target f)"
    by (rule forwarder_target [OF f_step.hyps(1)]) (simp add: forwarder_of_def)
  ultimately show ?case
    using given_addresses assms(6)
    by (intro only_to_step [OF f_step.hyps(2) assms(2,3) _ _ f_step.IH]) (auto simp: running_def)
qed

text \<open>What the addresses are, in terms of the command line.\<close>

lemma target_addresses_bound:
  assumes "target_bind lib now raw dns_server = Inr t"
  shows "(case parse_socket_addr raw of
      Some addr \<Rightarrow> target_addresses L t = {addr}
    | None \<Rightarrow> \<exists>host port resolver. split_host_port raw = Inr (host, port) \<and> build_resolver lib dns_server = Inr resolver \<and>
        target_addresses L t \<subseteq> {socket_addr_new ip port | ip lookup_ip ips d.
          lookup_ip \<in> insert (rl_lookup lib resolver) L \<and> lookup_ip host = Inr (ip # ips, d)}) \<and>
    (\<forall>d. t = Dynamic d \<longrightarrow> \<not> dt_refresh_inflight d)"
proof (cases "parse_socket_addr raw")
  case (Some addr)
  with assms show ?thesis by (auto simp: target_bind_def target_addresses_def)
next
  case None
  with assms obtain host port resolver r ttl where bound: "split_host_port raw = Inr (host, port)"
    "build_resolver lib dns_server = Inr resolver"
    "resolve_once (rl_lookup lib resolver) now host port = Inr (r, ttl)"
    "t = Dynamic \<lparr>dt_raw = raw, dt_host = host, dt_port = port, dt_resolver = resolver, dt_current = r,
      dt_refresh_inflight = False\<rparr>"
    by (auto simp: target_bind_def)
  from resolve_once_first [OF bound(3)] have "target_addresses L t \<subseteq> {socket_addr_new ip port | ip lookup_ip ips d.
      lookup_ip \<in> insert (rl_lookup lib resolver) L \<and> lookup_ip host = Inr (ip # ips, d)}"
    by (auto simp: target_addresses_def answers_def bound(4))
  with None bound show ?thesis by auto
qed

lemma forwarder_same_udp:
  assumes "program_step S D C timely kind (fw_program f) g" and "pg_udp g = pg_udp (fw_program f)"
    and "\<forall>a \<in> new_dials (pg_tcp (fw_program f)) (pg_tcp g). gives (fw_target f) a"
  shows "forwarder_step L S D C timely f (f\<lparr>fw_program := g\<rparr>)"
  by (rule f_program [OF assms(1) _ assms(3)]) (auto simp: assms(2) made_sessions_def in_set_zip)

end
