(* ===== verification/Spec2Isabelle.thy ===== *)
theory Spec2Isabelle
  imports Portset Stats_Race Target_Refresh Udp_Sender Udp_Listener Udp_Portable Udp_System_Sim Udp_Rest Program_Target
begin

text \<open>
  A verification development for \<open>range-porter\<close>, a process that listens on a set of ports and
  forwards the TCP connections and UDP datagrams that arrive there to one target. All sources
  named here are under \<open>src/src/\<close>.

  \<^bold>\<open>The program and its model.\<close> \<open>main.rs\<close> reads the command line (\<open>cli.rs\<close>), checks it
  (\<open>config.rs\<close>, which uses the port parser \<open>portset.rs\<close> and the target \<open>target.rs\<close>), starts
  the application (\<open>runtime.rs\<close>) and shuts it down at a signal. The start binds the sockets
  (\<open>socket.rs\<close>) and spawns the tasks: per port a TCP accept loop (\<open>listener/tcp.rs\<close>, whose
  connections run \<open>forward/tcp.rs\<close>) and a UDP receive loop (\<open>listener/udp.rs\<close>), the rollup
  of the statistics (\<open>stats/\<close>), the summary and the stats endpoint (\<open>http.rs\<close>). A UDP loop
  receives in batches (\<open>listener/udp_batch.rs\<close>), keeps a table of sessions
  (\<open>udp_session.rs\<close>), each with a task that hands the target's replies to the port's sender
  task (\<open>listener/udp_send.rs\<close>) through a bounded channel.

  \<^item> \<open>Base\<close>, \<open>Ordered\<close>, \<open>Rust_Str\<close>, \<open>Net_Addr\<close>: what the code uses of the standard library:
    \<open>Result\<close>, saturating and checked arithmetic, \<open>BTreeSet\<close> and \<open>BTreeMap\<close> as strictly
    ascending lists, strings as lists of code points with \<open>trim\<close>, \<open>split\<close>, the number
    parser, and the parser of socket addresses. \<open>Interleave\<close>: interleavings of step lists.
  \<^item> \<open>Portset\<close>: \<open>portset.rs\<close>, against an inductive grammar.
  \<^item> \<open>Target\<close>, \<open>Target_Refresh\<close>: \<open>target.rs\<close>; the refresh of the cached address as a state
    machine with any number of callers.
  \<^item> \<open>Socket\<close>: \<open>socket.rs\<close>; a construction is the list of its system calls.
  \<^item> \<open>Port_Stats\<close>, \<open>Bucket_Ring\<close>, \<open>Stats_Registry\<close>, \<open>Stats_Flow\<close>: \<open>stats/port.rs\<close>,
    \<open>stats/bucket.rs\<close>, \<open>stats/mod.rs\<close>, \<open>util.rs\<close>; the ring refines a history that never forgets, and
    what is counted at the ports is found again in the buckets when the rollup task has ended. \<open>Stats_Race\<close>: the same when the
    counters move while they are read.
  \<^item> \<open>Dash_Map\<close>, \<open>Udp_Session\<close>, \<open>Udp_Session_Inv\<close>, \<open>Udp_Session_Spec\<close>: the session table of
    \<open>udp_session.rs\<close>: its operations as functions, the same operations as sequences of atomic
    steps that interleave, the invariants of all reachable states, and what each operation does.
  \<^item> \<open>Udp_Batch\<close>, \<open>Udp_Portable\<close>: \<open>listener/udp_batch.rs\<close>, for Linux and for other systems.
  \<^item> \<open>Reply_Channel\<close>, \<open>Udp_Reply\<close>, \<open>Udp_Sender\<close>: the reply loop and
    \<open>forward_client_packet\<close> of \<open>udp_session.rs\<close>, \<open>forward/udp.rs\<close> and
    \<open>listener/udp_send.rs\<close>. \<open>Udp_Listener\<close>: \<open>listener/udp.rs\<close>.
  \<^item> \<open>Udp_System\<close>, \<open>Udp_System_Inv\<close>, \<open>Udp_System_Run\<close>, \<open>Udp_System_Spec\<close>: all tasks of a UDP port
    together (the receive loop, the cleanup task, the reply loops, the sender) as a step relation
    over the table, the channel, the counters and the shutdown token they share; the invariant of
    its reachable states, that every step preserves it, and the shutdown. \<open>Udp_System_Sim\<close>: the
    loops as functions are runs of these tasks. \<open>Udp_Traffic\<close>: every datagram that comes in on one
    side of a port goes out on the other, or is given up in one of the ways the code has, or is
    held by a task, whatever the tasks do in between. \<open>Udp_Rest\<close>: without new input a port that is
    not shut down comes to rest, with nothing held and exact counters.
  \<^item> \<open>Tcp_System\<close>: \<open>listener/tcp.rs\<close> and \<open>forward/tcp.rs\<close> for all ports together with the
    semaphore they share, as a step relation; a connection carries the address it connects to.
  \<^item> \<open>Config\<close>, \<open>Runtime\<close>, \<open>App\<close>: \<open>cli.rs\<close>, \<open>config.rs\<close>, \<open>runtime.rs\<close>, \<open>http.rs\<close>,
    \<open>main.rs\<close>. \<open>Program\<close>: the TCP side, the UDP tasks of every port, the services
    (the rollup with its ring of buckets) and the main task with the token and the semaphore they
    share, as one step relation. \<open>Program_Stats\<close>: what its tasks write is a registry of
    \<open>Stats_Registry\<close>, step by step, and what is reported of a port is what its tasks have done.
    \<open>Program_Target\<close>: the same with the target that all ports share and its refreshes. This
    theory states what holds from the command line on.

  \<^bold>\<open>How state corresponds.\<close> A struct is a record with the same fields. An \<open>Arc\<close> to a session
  is its index in the list \<open>tb_arena\<close> of all sessions ever made; an \<open>Arc\<close> to a port's counters
  is the port. \<open>u16\<close>, \<open>u32\<close> and \<open>u64\<close> are words, so additions wrap as in a release build;
  \<open>usize\<close> and durations (nanoseconds) are natural numbers. A panic is \<^const>\<open>None\<close>, an error is
  \<^const>\<open>Inl\<close>. Whatever awaits or may block takes what it is answered as an argument: a list of
  the answers of the kernel, or of the choices of a \<open>select!\<close>. When such a list is exhausted the
  model says so (the loop has not ended), and a property that something returns names how many
  answers are enough: as many as datagrams in the batch for the sender, one that does not block
  for a receive. \<open>op_alone\<close> has five steps of fuel, and no table operation has more.

  \<^bold>\<open>What the lemmas show.\<close> For every component that keeps state, an invariant of its reachable
  states (\<open>table_inv\<close>, \<open>gauge_inv\<close>, \<open>tcp_inv\<close>, \<open>ring_holds\<close>, \<open>batch_ok\<close>, the one of the
  refresh, \<open>port_inv\<close>) preserved by every step; the behaviour of every operation on every branch;
  refinement of the ring, of the tasks of a port by its loops, and of the registry by the whole program; agreement of the two builds;
  termination of the shutdown of the TCP side, of a UDP port and of the whole program, and of the work
  of a port that is not shut down, by ranks;
  round trips of port lists and addresses. Four properties show where the program does less than
  it means to: the gauge of flows can stay one too high (\<open>flow_gauge_leak\<close>), idle listeners use
  up the connection cap (\<open>idle_listeners_starve\<close>), an error of one send loses the rest of its
  batch (\<open>send_error_loses_batch\<close>), and a huge cap panics at the start (\<open>start_spec\<close>).

  \<^bold>\<open>Interfaces.\<close> What is not in the repository is a parameter with its documented laws: the
  concurrent map (locale \<open>dashmap\<close>), the bounded channel (\<open>bounded_channel\<close>), the semaphore
  (\<open>semaphore\<close>), each with a model that satisfies the laws; the resolver, the kernel, the clock,
  the duration parser, the HTTP server. \<open>registry_counter\<close>, \<open>sender_note\<close>,
  \<open>session_dashmap\<close>, \<open>udp_tasks\<close> and \<open>ordered_map\<close> are contracts inside of the program,
  interpreted on its own definitions.

  \<^bold>\<open>Not modelled.\<close> The content of TCP streams: \<open>copy_bidirectional\<close> is a library call, its
  outcome (two byte counts, an error, or being cancelled) is a choice of the step. The argument
  parser, logging, JSON encoding and the HTTP server. The texts of the errors of a start. That a
  socket is closed when dropped. Outside of \<open>Stats_Race\<close> a snapshot of the counters reads them at
  one moment, where the code reads one atomic after the other. Memory
  orderings: every atomic access is one step of one global order. Poisoned locks, and arithmetic overflow checks of debug builds.
\<close>

section \<open>The program as configured\<close>

text \<open>After any operations on the ports' counters and any rollups, at any times, no rollup has panicked, and
  the endpoint answers for the ports and the target of the command line.\<close>

lemma registry_answers:
  assumes "from_cli lib now cli = Inr config" and "start S sys local_addr unix_now config = Some (calls, Inr app)"
  shows "\<exists>reg snap. registry_run evs (ra_stats app) = Some reg \<and>
    respond later reg (lit ''/stats'') = Some (Json snap) \<and>
    ss_target snap = cli_target cli \<and> ss_window_minutes snap = cli_stats_window cli \<and>
    parse_portset (cli_listen_ports cli) = Inr (map sn_port (ss_ports snap)) \<and>
    summary_loop [SummaryTick later reg] [] =
      ([\<lparr>sl_tcp_active = sum_list (map sn_tcp_active (ss_ports snap)),
         sl_udp_active_flows = sum_list (map sn_udp_active_flows (ss_ports snap)),
         sl_tcp_in_bytes = sum_list (map sn_tcp_in_bytes (ss_ports snap)),
         sl_tcp_out_bytes = sum_list (map sn_tcp_out_bytes (ss_ports snap)),
         sl_udp_in_bytes = sum_list (map sn_udp_in_bytes (ss_ports snap)),
         sl_udp_out_bytes = sum_list (map sn_udp_out_bytes (ss_ports snap))\<rparr>], False)"
proof -
  obtain t where config: "parse_portset (cli_listen_ports cli) = Inr (rc_listen_ports config)"
    "target_bind lib now (cli_target cli) (cli_dns_server cli) = Inr (rc_target config)"
    "rc_stats_window config = cli_stats_window cli"
    using assms(1) by (auto simp: from_cli_Inr)
  have target: "target_display (rc_target config) = cli_target cli"
    using bound_target [OF config(2), of 0 "fst (target_current 0 (rc_target config))"
        "fst (snd (target_current 0 (rc_target config)))" "snd (snd (target_current 0 (rc_target config)))"] by simp
  have stats: "ra_stats app = registry_new unix_now (rc_listen_ports config) (cli_target cli) (cli_stats_window cli)"
    using started(1) [OF assms(2)] target config(3) by simp
  have "br_buckets (sr_buckets (ra_stats app)) \<noteq> []"
    by (simp add: stats registry_new_def ring_new_def)
  from registry_run_total [OF this] obtain reg where run: "registry_run evs (ra_stats app) = Some reg" by blast
  have "sorted_wrt (<) (rc_listen_ports config)" using config_ports [OF assms(1)] by blast
  from started_snapshot [OF run [unfolded stats] this, of later]
  have snap: "ss_target (registry_snapshot later reg) = cli_target cli"
    "ss_window_minutes (registry_snapshot later reg) = cli_stats_window cli"
    "map sn_port (ss_ports (registry_snapshot later reg)) = rc_listen_ports config" by simp_all
  have "respond later reg (lit ''/stats'') = Some (Json (registry_snapshot later reg))"
    by (simp add: respond_def router_def lit_def)
  then show ?thesis
    using run snap config(1)
    by (intro exI [of _ reg] exI [of _ "registry_snapshot later reg"]) (simp add: snapshot_sums Let_def)
qed

definition example_cli :: cli where
  "example_cli =
     \<lparr>cli_listen_host = IpV4 0, cli_listen_ports = lit ''443,80-81'', cli_target = show_sock_v4 127 0 0 1 9000,
      cli_dns_server = None, cli_udp_idle_timeout = secs 60, cli_stats_bind = None, cli_stats_window = 3,
      cli_summary_interval = 0, cli_max_tcp_connections = 2\<rparr>"

abbreviation example_lib :: "unit resolver_lib" where
  "example_lib \<equiv> \<lparr>rl_with_config = \<lambda>_ _ _. (), rl_system = Inl [], rl_lookup = \<lambda>_ _. Inl []\<rparr>"

abbreviation example_start :: "unit runtime_config \<Rightarrow> (binding list \<times> (startup_error + (nat \<times> bool) running_app)) option" where
  "example_start config \<equiv> start counting (\<lambda>_ _. None) (\<lambda>_. Inl (OtherError 0)) 7 config"

lemma example_started:
  "\<exists>config calls app. from_cli example_lib 0 example_cli = Inr config \<and>
     example_start config = Some (calls, Inr app)"
proof -
  obtain addr where addr: "parse_socket_addr (show_sock_v4 127 0 0 1 9000) = Some addr" "addr_port addr = 9000"
    using parse_show_sock_v4 [of 127 0 0 1 9000] by simp
  then obtain host where "split_host_port (show_sock_v4 127 0 0 1 9000) = Inr (host, 9000)"
    using literal_splits [OF addr(1)] by auto
  with addr have "target_bind example_lib 0 (show_sock_v4 127 0 0 1 9000) None =
      Inr (Static \<lparr>st_raw = show_sock_v4 127 0 0 1 9000, st_addr = addr\<rparr>)"
    by (simp add: target_bind_def)
  moreover have "parse_portset (lit ''443,80-81'') = Inr [80, 81, 443]" by (simp add: portset_eval)
  ultimately obtain config where config: "from_cli example_lib 0 example_cli = Inr config"
    "rc_listen_ports config = [80, 81, 443]" "rc_stats_bind config = None" "rc_max_tcp_connections config = 2"
    by (simp add: from_cli_Inr example_cli_def secs_def)
  have "registry_port (registry_new 7 [80, 81, 443] target w) p = Some p" if "p \<in> {80, 81, 443}" for target w p
    by (rule registry_new_port) (use that in simp)
  with config show ?thesis
    by (simp add: start_def sem_max_permits_def bind_stats_def Let_def
        bind_tcp_listener_def bind_udp_socket_def made_def configure_udp_socket_def)
qed

text \<open>A run of the example: a TCP connection arrives at port 443.\<close>

lemma example_connection:
  assumes "from_cli example_lib 0 example_cli = Inr config" and "example_start config = Some (calls, Inr app)"
  shows "\<exists>g1 g2. program_step counting example_map queue_ops True Progress (program_of example_map queue_ops app) g1 \<and>
    program_step counting example_map queue_ops True Progress g1 g2 \<and> ts_conns (pg_tcp g2) = {#(2, Spawned)#} \<and>
    pg_udp g1 = pg_udp (program_of example_map queue_ops app) \<and> pg_udp g2 = pg_udp g1 \<and> ts_conns (pg_tcp g1) = {#}"
proof -
  have config: "rc_listen_ports config = [80, 81, 443]" "rc_max_tcp_connections config = 2"
    using assms(1) by (auto simp: from_cli_Inr example_cli_def portset_eval)
  let ?t = "tcp_new counting 2 [80, 81, 443]" and ?g = "program_of example_map queue_ops app"
  define t1 where "t1 = set_phase 2 Accepting (?t\<lparr>ts_sem := (1, False)\<rparr>)"
  define t2 where "t2 = set_phase 2 Acquiring
    ((on_stats 2 record_tcp_accept t1)\<lparr>ts_conns := {#(2, Spawned)#}\<rparr>)"
  have tcp: "pg_tcp ?g = ?t" using tcp_side_started [OF assms(2)] by (simp add: program_of_def config)
  have "tcp_step counting ?t t1"
    by (rule listener [of 2 _ _ AcquireOk]) (simp_all add: tcp_new_def counting_def t1_def)
  then have one: "program_step counting example_map queue_ops True Progress ?g (?g\<lparr>pg_tcp := t1\<rparr>)"
    by (intro g_tcp) (simp_all add: tcp t1_def tcp_new_def counting_def)
  have "tcp_step counting t1 t2"
    by (rule listener [of 2 _ _ AcceptOk]) (simp_all add: tcp_new_def t1_def t2_def Let_def)
  then have "program_step counting example_map queue_ops True Progress (?g\<lparr>pg_tcp := t1\<rparr>) (?g\<lparr>pg_tcp := t2\<rparr>)"
    using g_tcp [of counting "?g\<lparr>pg_tcp := t1\<rparr>" t2] by (simp add: t1_def t2_def)
  with one show ?thesis by (intro exI conjI) (assumption, assumption, simp_all add: t1_def t2_def tcp_new_def)
qed

lemma sum_uncounted: "(\<Sum>l < n. size (filter_mset (uncounted_close l) M)) \<le> size M"
proof (induction M)
  case (add c M)
  have "(\<Sum>l < n. if uncounted_close l c then 1 else (0 :: nat)) \<le> (\<Sum>l < n. if l = fst c then 1 else 0)"
    by (rule sum_mono) (auto simp: uncounted_close_def)
  also have "\<dots> \<le> 1" by simp
  finally have "(\<Sum>l < n. if uncounted_close l c then 1 else (0 :: nat)) \<le> 1" .
  moreover have "(\<Sum>l < n. size (filter_mset (uncounted_close l) (add_mset c M))) =
      (\<Sum>l < n. if uncounted_close l c then 1 else 0) + (\<Sum>l < n. size (filter_mset (uncounted_close l) M))"
    unfolding sum.distrib [symmetric] by (rule sum.cong) auto
  ultimately show ?case using add by simp
qed simp

text \<open>C18: The option \<open>--max-tcp-connections\<close> is obeyed by the whole program: from every accepted
  command line and every start that succeeded, in every state that the listeners of all ports,
  their connections and the shutdown can reach together, there are at most that many connection
  tasks, and the active connections that the statistics report, summed over all ports, are at
  most that many.\<close>

theorem connection_cap:
  assumes "semaphore S" and "from_cli lib now cli = Inr config"
    and "start S sys local_addr unix_now config = Some (calls, Inr app)"
    and "tcp_reach S (tcp_side app) t"
  shows "size (ts_conns t) \<le> cli_max_tcp_connections cli \<and>
    sum_list (map (\<lambda>s. unat (ps_tcp_active s)) (ts_stats t)) \<le> cli_max_tcp_connections cli"
proof -
  let ?n = "rc_max_tcp_connections config"
  have n: "?n = cli_max_tcp_connections cli" using assms(2) by (auto simp: from_cli_Inr)
  have "?n < 2 ^ 64" using started(4) [OF assms(3)] by (simp add: sem_max_permits_def)
  then have inv: "tcp_inv S ?n t"
    using semaphore.inv_tcp_reach [OF assms(1)] assms(4) unfolding tcp_side_started [OF assms(3)] by blast
  then have size: "size (ts_conns t) \<le> ?n" by (simp add: tcp_inv_def)
  have "sum_list (map (\<lambda>s. unat (ps_tcp_active s)) (ts_stats t)) = (\<Sum>l < length (ts_stats t). live l t)"
    using inv by (simp add: tcp_inv_def sum_list_sum_nth atLeast0LessThan)
  also have "\<dots> \<le> size (ts_conns t)" unfolding live_def by (rule sum_uncounted)
  finally show ?thesis using size n by simp
qed

theorem connection_cap_witness:
  "\<exists>config calls app t. from_cli example_lib 0 example_cli = Inr config \<and>
     example_start config = Some (calls, Inr app) \<and> tcp_reach counting (tcp_side app) t \<and> size (ts_conns t) \<le> 2"
proof -
  obtain config calls app where ok: "from_cli example_lib 0 example_cli = Inr config"
    "example_start config = Some (calls, Inr app)" using example_started by blast
  have "cli_max_tcp_connections example_cli = 2" by (simp add: example_cli_def)
  with connection_cap [OF counting.semaphore_axioms ok tcp_reach.here] ok tcp_reach.here show ?thesis by metis
qed

text \<open>Idleness is measured between whole seconds: with a timeout of one second, a session that was used one
  nanosecond before a tick is removed by it.\<close>

lemma removed_early:
  "unix_timestamp_now 999999999 = Some 0 \<and> unix_timestamp_now 1000000000 = Some 1 \<and>
   (let table = table_new example_map (secs 1) (port_stats_new 443);
        used = snd (get_or_create example_map (\<lambda>_. None) (SockV4 1 9000) 0 (SockV4 5 1000) table)
    in dm_get example_map (tb_sessions used) = [SockV4 5 1000 \<mapsto> 0] \<and>
      stale_entry 1 used (SockV4 5 1000, 0) = [(SockV4 5 1000, 1)])"
  by (simp add: unix_timestamp_now_def secs_def session_eval stale_entry_def cleanup_timeout_def as_secs_def
      saturating_sub_def fun_eq_iff)









end
